(* ===== verification/Prelude.thy ===== *)
theory Prelude
  imports Main "HOL-Library.Word" "HOL-Library.Multiset"
begin

text \<open>
  What the component theories share: names for the machine integers, the multiset of
  objects owned through nullable pointers (\<open>opt_mset\<close>, \<open>owned\<close>), facts on updating a
  slot of a vector, and the reachable states of a step relation with the rule that an
  inductive invariant holds in all of them.
\<close>

type_synonym u8 = "8 word"
type_synonym u16 = "16 word"
type_synonym u32 = "32 word"
type_synonym u64 = "64 word"

named_theorems ownership \<open>what an operation does to the multiset of owned objects\<close>
named_theorems inv_intro \<open>operations keep the invariant of their component\<close>

section \<open>Owning pointers\<close>

text \<open>
  A \<open>std::unique_ptr\<close> that may be null is an \<open>option\<close>: moving out of it reads the
  value and leaves \<open>None\<close>. \<open>owned f xs\<close> is the multiset of objects owned by the slots
  \<open>xs\<close> of a vector, where \<open>f\<close> reads the pointer of a slot. Conservation of owned
  objects is how "delivered exactly once" is stated throughout.
\<close>

primrec opt_mset :: "'a option \<Rightarrow> 'a multiset" where
  "opt_mset None = {#}"
| "opt_mset (Some x) = {#x#}"

lemma opt_mset_empty_iff [simp]: "opt_mset p = {#} \<longleftrightarrow> p = None"
  by (cases p) auto

lemma size_opt_mset: "size (opt_mset p) = (if p = None then 0 else 1)"
  by (cases p) auto

definition owned :: "('n \<Rightarrow> 'a option) \<Rightarrow> 'n list \<Rightarrow> 'a multiset" where
  "owned f xs = (\<Sum>x\<leftarrow>xs. opt_mset (f x))"

lemma owned_Nil [simp]: "owned f [] = {#}"
  by (simp add: owned_def)

lemma owned_Cons [simp]: "owned f (x # xs) = opt_mset (f x) + owned f xs"
  by (simp add: owned_def)

lemma owned_append [simp]: "owned f (xs @ ys) = owned f xs + owned f ys"
  by (simp add: owned_def)

lemma owned_replicate_null: "f x = None \<Longrightarrow> owned f (replicate n x) = {#}"
  by (induction n) auto

lemma owned_update:
  "i < length xs \<Longrightarrow>
     owned f (xs[i := x]) + opt_mset (f (xs ! i)) = owned f xs + opt_mset (f x)"
proof (induction xs arbitrary: i)
  case Nil
  then show ?case by simp
next
  case (Cons a xs)
  then show ?case by (cases i) (auto simp: ac_simps)
qed

lemma owned_update_same:
  "i < length xs \<Longrightarrow> f x = f (xs ! i) \<Longrightarrow> owned f (xs[i := x]) = owned f xs"
  using owned_update [of i xs f x] by simp

lemma owned_update_null:
  "i < length xs \<Longrightarrow> f x = None \<Longrightarrow> owned f (xs[i := x]) + opt_mset (f (xs ! i)) = owned f xs"
  using owned_update [of i xs f x] by simp

lemma owned_update_fill:
  "i < length xs \<Longrightarrow> f (xs ! i) = None \<Longrightarrow> owned f (xs[i := x]) = owned f xs + opt_mset (f x)"
  using owned_update [of i xs f x] by simp

lemma owned_nth_subset: "i < length xs \<Longrightarrow> opt_mset (f (xs ! i)) \<subseteq># owned f xs"
proof (induction xs arbitrary: i)
  case Nil
  then show ?case by simp
next
  case (Cons a xs)
  then show ?case by (cases i) (auto intro: subset_mset.add_increasing)
qed

lemma owned_cong: "(\<And>x. x \<in> set xs \<Longrightarrow> f x = g x) \<Longrightarrow> owned f xs = owned g xs"
  by (induction xs) auto

lemma owned_map: "owned f (map g xs) = owned (f \<circ> g) xs"
  by (induction xs) auto

lemma owned_mset_cong: "mset xs = mset ys \<Longrightarrow> owned f xs = owned f ys"
  unfolding owned_def by (metis mset_map sum_mset_sum_list)

lemma set_mset_owned: "set_mset (owned f xs) = {a. \<exists>x \<in> set xs. f x = Some a}"
proof (induction xs)
  case Nil
  then show ?case by simp
next
  case (Cons x xs)
  then show ?case by (cases "f x") auto
qed

lemma size_owned: "size (owned f xs) = length (filter (\<lambda>x. f x \<noteq> None) xs)"
  by (induction xs) (auto simp: size_opt_mset)

lemma owned_empty_iff: "owned f xs = {#} \<longleftrightarrow> (\<forall>x \<in> set xs. f x = None)"
  by (induction xs) auto

section \<open>Reachable states and inductive invariants\<close>

inductive reach :: "('s \<Rightarrow> bool) \<Rightarrow> ('s \<Rightarrow> 's \<Rightarrow> bool) \<Rightarrow> 's \<Rightarrow> bool"
  for start :: "'s \<Rightarrow> bool" and step :: "'s \<Rightarrow> 's \<Rightarrow> bool" where
  reach_start: "start s \<Longrightarrow> reach start step s"
| reach_step: "reach start step s \<Longrightarrow> step s t \<Longrightarrow> reach start step t"

locale inductive_invariant =
  fixes start :: "'s \<Rightarrow> bool"
    and step :: "'s \<Rightarrow> 's \<Rightarrow> bool"
    and inv :: "'s \<Rightarrow> bool"
  assumes inv_start: "start s \<Longrightarrow> inv s"
    and inv_step: "inv s \<Longrightarrow> step s t \<Longrightarrow> inv t"
begin

lemma reach_inv: "reach start step s \<Longrightarrow> inv s"
  by (induction rule: reach.induct) (auto intro: inv_start inv_step)

lemma steps_inv: "inv s \<Longrightarrow> step\<^sup>*\<^sup>* s t \<Longrightarrow> inv t"
  by (rotate_tac, induction rule: rtranclp_induct) (auto intro: inv_step)

end

section \<open>Running an interleaving\<close>

text \<open>
  A labelled version of a step relation, as a partial function, runs a given interleaving:
  what it reaches is reachable.
\<close>

fun do_all :: "('l \<Rightarrow> 's \<Rightarrow> 's option) \<Rightarrow> 'l list \<Rightarrow> 's \<Rightarrow> 's option" where
  "do_all f [] s = Some s"
| "do_all f (l # ls) s = (case f l s of None \<Rightarrow> None | Some t \<Rightarrow> do_all f ls t)"

locale labelled_steps =
  fixes start :: "'s \<Rightarrow> bool"
    and step :: "'s \<Rightarrow> 's \<Rightarrow> bool"
    and label_do :: "'l \<Rightarrow> 's \<Rightarrow> 's option"
  assumes label_step: "label_do l s = Some t \<Longrightarrow> step s t"
begin

lemma do_all_reach: "reach start step s \<Longrightarrow> do_all label_do ls s = Some t \<Longrightarrow> reach start step t"
proof (induction ls arbitrary: s)
  case (Cons l ls)
  then obtain s1 where s1: "label_do l s = Some s1" "do_all label_do ls s1 = Some t" by (auto split: option.splits)
  have "reach start step s1" using Cons.prems(1) label_step [OF s1(1)] by (rule reach_step)
  then show ?case using s1(2) by (rule Cons.IH)
qed simp

end

section \<open>Counting the threads in a state\<close>

lemma card_update:
  assumes "finite {j. P (f j)}"
  shows "finite {j. P ((f(i := x)) j)}"
    "card {j. P ((f(i := x)) j)} + (if P (f i) then 1 else 0) = card {j. P (f j)} + (if P x then 1 else 0)"
proof -
  let ?A = "{j. j \<noteq> i \<and> P (f j)}"
  have fin: "finite ?A" by (rule finite_subset [OF _ assms]) auto
  have new: "{j. P ((f(i := x)) j)} = (if P x then insert i ?A else ?A)" by auto
  have old: "{j. P (f j)} = (if P (f i) then insert i ?A else ?A)" by auto
  show "finite {j. P ((f(i := x)) j)}" unfolding new using fin by simp
  show "card {j. P ((f(i := x)) j)} + (if P (f i) then 1 else 0) = card {j. P (f j)} + (if P x then 1 else 0)"
    unfolding new old using fin by (simp add: card_insert_if)
qed

section \<open>Counters that skip zero\<close>

text \<open>
  Generation counters of the source increment and step over the reserved value 0. On the
  non-zero words of width \<open>w\<close> such a counter has the period \<open>2 ^ w - 1\<close>.
\<close>

definition skip_zero :: "'a::len word \<Rightarrow> 'a word" where
  "skip_zero w = (if w + 1 = 0 then w + 1 + 1 else w + 1)"

lemma unat_word_less: "unat (w :: 'a::len word) < 2 ^ LENGTH('a)"
  by (rule unsigned_less)

lemma skip_zero_nonzero: "skip_zero w \<noteq> 0"
  by (auto simp: skip_zero_def)

lemma unat_skip_zero:
  fixes w :: "'a::len word"
  assumes "w \<noteq> 0" shows "unat (skip_zero w) = unat w mod (2 ^ LENGTH('a) - 1) + 1"
proof (cases "w + 1 = 0")
  case True
  then have "w = - 1" by (simp add: add_eq_0_iff2)
  then have "unat w = 2 ^ LENGTH('a) - 1" by (simp add: unsigned_minus_1_eq_mask mask_eq_exp_minus_1)
  then show ?thesis using True by (simp add: skip_zero_def)
next
  case False
  then have "unat (w + 1) = Suc (unat w)" using unatSuc [of w] by (simp add: add.commute)
  moreover have "unat (w + 1) < 2 ^ LENGTH('a)" by (rule unat_word_less)
  ultimately show ?thesis using False by (simp add: skip_zero_def)
qed

lemma unat_skip_zero_funpow:
  fixes w :: "'a::len word"
  assumes "w \<noteq> 0"
  shows "unat ((skip_zero ^^ k) w) = (unat w - 1 + k) mod (2 ^ LENGTH('a) - 1) + 1"
proof (induction k)
  case 0
  have "0 < unat w" using assms by (simp add: unat_gt_0)
  moreover have "unat w - 1 < 2 ^ LENGTH('a) - 1" using unat_word_less [of w] \<open>0 < unat w\<close> by linarith
  ultimately show ?case by simp
next
  case (Suc k)
  have "(skip_zero ^^ k) w \<noteq> 0" using assms skip_zero_nonzero by (cases k) auto
  then show ?case by (simp add: Suc.IH unat_skip_zero mod_Suc)
qed

lemma skip_zero_funpow_neq:
  fixes w :: "'a::len word"
  assumes "w \<noteq> 0" "0 < k" "k < 2 ^ LENGTH('a) - 1" shows "(skip_zero ^^ k) w \<noteq> w"
proof
  define a where "a = unat w - 1"
  assume "(skip_zero ^^ k) w = w"
  then have "unat w = (a + k) mod (2 ^ LENGTH('a) - 1) + 1"
    using unat_skip_zero_funpow [OF assms(1), of k] by (simp only: a_def)
  then have eq: "a = (a + k) mod (2 ^ LENGTH('a) - 1)" by (simp add: a_def del: Nat.add_diff_assoc2)
  then have "a mod (2 ^ LENGTH('a) - 1) = (a + k) mod (2 ^ LENGTH('a) - 1)" by (metis mod_mod_trivial)
  then have "(2 ^ LENGTH('a) - 1) dvd k"
    using mod_eq_dvd_iff_nat [of a "a + k" "2 ^ LENGTH('a) - 1"] by (simp add: eq_commute)
  then show False using assms by (auto dest: dvd_imp_le)
qed

end
