(* ===== verification/StdHeap.thy ===== *)
theory StdHeap
  imports Prelude
begin

text \<open>
  \<open>std::push_heap\<close> and \<open>std::pop_heap\<close> on a vector, as \<open>timer_registry\<close> uses them: a
  binary heap in an array, ordered by a key. The comparator of the source is
  \<open>key a > key b\<close>, so the element of least key is at the front. The standard fixes what
  the algorithms promise (a heap again, the same elements, the front moved to the back)
  and not how equal keys are placed; the model sifts by swapping. The locale
  \<open>keyed_heap\<close> states the promises, and \<open>std_heap\<close> interprets it on the definitions.
\<close>

section \<open>The algorithms\<close>

definition swap :: "'a list \<Rightarrow> nat \<Rightarrow> nat \<Rightarrow> 'a list" where
  "swap xs i j = xs[i := xs ! j, j := xs ! i]"

definition parent :: "nat \<Rightarrow> nat" where
  "parent i = (i - 1) div 2"

lemma parent_less: "0 < i \<Longrightarrow> parent i < i"
  by (auto simp: parent_def)

lemma child_cases: "0 < j \<Longrightarrow> parent j = i \<longleftrightarrow> j = 2 * i + 1 \<or> j = 2 * i + 2"
  by (auto simp: parent_def)

function sift_up :: "('a \<Rightarrow> 'k::linorder) \<Rightarrow> 'a list \<Rightarrow> nat \<Rightarrow> 'a list" where
  "sift_up key xs i =
     (if i = 0 then xs
      else if key (xs ! i) < key (xs ! parent i)
      then sift_up key (swap xs i (parent i)) (parent i)
      else xs)"
  by pat_completeness auto
termination
  by (relation "measure (\<lambda>(key, xs, i). i)") (auto intro: parent_less)

definition least_child :: "('a \<Rightarrow> 'k::linorder) \<Rightarrow> 'a list \<Rightarrow> nat \<Rightarrow> nat" where
  "least_child key xs i =
     (if 2 * i + 2 < length xs \<and> key (xs ! (2 * i + 2)) < key (xs ! (2 * i + 1))
      then 2 * i + 2 else 2 * i + 1)"

function sift_down :: "('a \<Rightarrow> 'k::linorder) \<Rightarrow> 'a list \<Rightarrow> nat \<Rightarrow> 'a list" where
  "sift_down key xs i =
     (if 2 * i + 1 < length xs \<and> key (xs ! least_child key xs i) < key (xs ! i)
      then sift_down key (swap xs i (least_child key xs i)) (least_child key xs i)
      else xs)"
  by pat_completeness auto
termination
  by (relation "measure (\<lambda>(key, xs, i). length xs - i)") (auto simp: least_child_def swap_def)

declare sift_up.simps [simp del] sift_down.simps [simp del]

definition push_heap :: "('a \<Rightarrow> 'k::linorder) \<Rightarrow> 'a list \<Rightarrow> 'a \<Rightarrow> 'a list" where
  "push_heap key xs x = sift_up key (xs @ [x]) (length xs)"

definition pop_heap :: "('a \<Rightarrow> 'k::linorder) \<Rightarrow> 'a list \<Rightarrow> 'a list" where
  "pop_heap key xs = sift_down key (butlast (swap xs 0 (length xs - 1))) 0"

definition heap_on :: "('a \<Rightarrow> 'k::linorder) \<Rightarrow> 'a list \<Rightarrow> bool" where
  "heap_on key xs \<longleftrightarrow> (\<forall>i < length xs. 0 < i \<longrightarrow> key (xs ! parent i) \<le> key (xs ! i))"

section \<open>Elements are permuted\<close>

lemma length_swap [simp]: "length (swap xs i j) = length xs"
  by (simp add: swap_def)

lemma nth_swap:
  "i < length xs \<Longrightarrow> j < length xs \<Longrightarrow> k < length xs \<Longrightarrow>
     swap xs i j ! k = (if k = i then xs ! j else if k = j then xs ! i else xs ! k)"
  by (auto simp: swap_def nth_list_update)

lemma mset_swap_elems: "i < length xs \<Longrightarrow> j < length xs \<Longrightarrow> mset (swap xs i j) = mset xs"
  unfolding swap_def by (metis mset_swap)

lemma least_child_bounds:
  "2 * i + 1 < length xs \<Longrightarrow> i < least_child key xs i \<and> least_child key xs i < length xs"
  by (auto simp: least_child_def)

lemma mset_sift_up: "i < length xs \<Longrightarrow> mset (sift_up key xs i) = mset xs"
proof (induction key xs i rule: sift_up.induct)
  case (1 key xs i)
  have p: "parent i < length xs" using "1.prems" by (simp add: parent_def)
  show ?case
  proof (cases "i \<noteq> 0 \<and> key (xs ! i) < key (xs ! parent i)")
    case True
    with "1.IH" p have "mset (sift_up key (swap xs i (parent i)) (parent i))
        = mset (swap xs i (parent i))" by simp
    with True p "1.prems" show ?thesis
      by (simp add: sift_up.simps [of key xs i] mset_swap_elems)
  next
    case False
    then show ?thesis by (auto simp: sift_up.simps [of key xs i])
  qed
qed

lemma mset_sift_down: "mset (sift_down key xs i) = mset xs"
proof (induction key xs i rule: sift_down.induct)
  case (1 key xs i)
  show ?case
  proof (cases "2 * i + 1 < length xs \<and> key (xs ! least_child key xs i) < key (xs ! i)")
    case True
    with least_child_bounds [of i xs key] 1 show ?thesis
      by (simp add: sift_down.simps [of key xs i] mset_swap_elems)
  next
    case False
    then show ?thesis by (auto simp: sift_down.simps [of key xs i])
  qed
qed

lemma mset_push_heap: "mset (push_heap key xs x) = add_mset x (mset xs)"
  by (simp add: push_heap_def mset_sift_up)

lemma swap_ends: "xs \<noteq> [] \<Longrightarrow> last (swap xs 0 (length xs - 1)) = hd xs"
proof -
  assume ne: "xs \<noteq> []"
  then have "swap xs 0 (length xs - 1) \<noteq> []" by (metis length_0_conv length_swap)
  with ne show ?thesis by (simp add: last_conv_nth nth_swap hd_conv_nth)
qed

lemma mset_pop_heap:
  assumes "xs \<noteq> []"
  shows "add_mset (hd xs) (mset (pop_heap key xs)) = mset xs"
proof -
  let ?ys = "swap xs 0 (length xs - 1)"
  have "?ys \<noteq> []" using assms by (metis length_0_conv length_swap)
  then have "?ys = butlast ?ys @ [hd xs]" using assms by (metis append_butlast_last_id swap_ends)
  then have "mset ?ys = add_mset (hd xs) (mset (butlast ?ys))"
    by (metis add_mset_add_single mset.simps(1,2) mset_append)
  then show ?thesis using assms by (simp add: pop_heap_def mset_sift_down mset_swap_elems)
qed

section \<open>Heap order\<close>

text \<open>
  While sifting, the order may fail at one place only. \<open>up_ok\<close>: at index \<open>i\<close>
  against its parent, with the children of \<open>i\<close> in order with that parent. \<open>down_ok\<close>:
  at index \<open>i\<close> against its children, with the parent of \<open>i\<close> in order with those.
\<close>

definition up_ok :: "('a \<Rightarrow> 'k::linorder) \<Rightarrow> 'a list \<Rightarrow> nat \<Rightarrow> bool" where
  "up_ok key xs i \<longleftrightarrow>
     (\<forall>j < length xs. 0 < j \<longrightarrow> j \<noteq> i \<longrightarrow> key (xs ! parent j) \<le> key (xs ! j)) \<and>
     (\<forall>j < length xs. 0 < j \<longrightarrow> parent j = i \<longrightarrow> 0 < i \<longrightarrow> key (xs ! parent i) \<le> key (xs ! j))"

definition down_ok :: "('a \<Rightarrow> 'k::linorder) \<Rightarrow> 'a list \<Rightarrow> nat \<Rightarrow> bool" where
  "down_ok key xs i \<longleftrightarrow>
     (\<forall>j < length xs. 0 < j \<longrightarrow> parent j \<noteq> i \<longrightarrow> key (xs ! parent j) \<le> key (xs ! j)) \<and>
     (\<forall>j < length xs. 0 < j \<longrightarrow> parent j = i \<longrightarrow> 0 < i \<longrightarrow> key (xs ! parent i) \<le> key (xs ! j))"

lemma up_ok_swap:
  assumes ok: "up_ok key xs i" and i: "0 < i" "i < length xs"
    and less: "key (xs ! i) < key (xs ! parent i)"
  shows "up_ok key (swap xs i (parent i)) (parent i)"
proof -
  let ?p = "parent i" and ?ys = "swap xs i (parent i)"
  have p: "?p < i" using i(1) by (rule parent_less)
  have ys: "?ys ! k = (if k = i then xs ! ?p else if k = ?p then xs ! i else xs ! k)"
    if "k < length xs" for k
    using that p i by (simp add: nth_swap)
  have edge: "key (?ys ! parent j) \<le> key (?ys ! j)" if j: "j < length xs" "0 < j" "j \<noteq> ?p" for j
  proof -
    have pj: "parent j < j" using j(2) by (rule parent_less)
    consider "j = i" | "j \<noteq> i" "parent j = i" | "j \<noteq> i" "parent j = ?p"
      | "j \<noteq> i" "parent j \<noteq> i" "parent j \<noteq> ?p" by blast
    then show ?thesis
    proof cases
      case 1
      then show ?thesis using j p less i by (simp add: ys)
    next
      case 2
      then show ?thesis using j ok i pj p by (simp add: ys up_ok_def)
    next
      case 3
      moreover have "key (xs ! ?p) \<le> key (xs ! j)" using 3 j ok unfolding up_ok_def by metis
      ultimately show ?thesis using j less i p by (simp add: ys)
    next
      case 4
      then show ?thesis using j ok i pj by (simp add: ys up_ok_def)
    qed
  qed
  have grand: "key (?ys ! parent ?p) \<le> key (?ys ! j)"
    if j: "j < length xs" "0 < j" "parent j = ?p" "0 < ?p" for j
  proof -
    have pp: "parent ?p < ?p" using j(4) by (rule parent_less)
    have top: "key (xs ! parent ?p) \<le> key (xs ! ?p)"
      using ok j(4) p i unfolding up_ok_def by (metis less_trans less_irrefl)
    show ?thesis
    proof (cases "j = i")
      case True
      then show ?thesis using j pp p i top by (simp add: ys)
    next
      case False
      then have "key (xs ! ?p) \<le> key (xs ! j)" using ok j unfolding up_ok_def by metis
      then show ?thesis using False j pp p i top by (auto simp: ys)
    qed
  qed
  show ?thesis using edge grand by (auto simp: up_ok_def)
qed

lemma sift_up_heap: "i < length xs \<Longrightarrow> up_ok key xs i \<Longrightarrow> heap_on key (sift_up key xs i)"
proof (induction key xs i rule: sift_up.induct)
  case (1 key xs i)
  show ?case
  proof (cases "i \<noteq> 0 \<and> key (xs ! i) < key (xs ! parent i)")
    case True
    then have "up_ok key (swap xs i (parent i)) (parent i)"
      using "1.prems" by (intro up_ok_swap) auto
    moreover have "parent i < length xs" using "1.prems" by (simp add: parent_def)
    ultimately show ?thesis using True "1.IH" by (simp add: sift_up.simps [of key xs i])
  next
    case False
    have "key (xs ! parent j) \<le> key (xs ! j)" if "j < length xs" "0 < j" for j
      using that False "1.prems" by (cases "j = i") (auto simp: up_ok_def)
    then have "heap_on key xs" by (simp add: heap_on_def)
    with False show ?thesis by (auto simp: sift_up.simps [of key xs i])
  qed
qed

lemma least_child_le:
  "j < length xs \<Longrightarrow> 0 < j \<Longrightarrow> parent j = i \<Longrightarrow> key (xs ! least_child key xs i) \<le> key (xs ! j)"
  by (auto simp: least_child_def child_cases)

lemma down_ok_swap:
  assumes ok: "down_ok key xs i" and kid: "2 * i + 1 < length xs"
    and less: "key (xs ! least_child key xs i) < key (xs ! i)"
  shows "down_ok key (swap xs i (least_child key xs i)) (least_child key xs i)"
proof -
  let ?c = "least_child key xs i"
  let ?ys = "swap xs i ?c"
  have c: "i < ?c" "?c < length xs" using least_child_bounds [OF kid] by auto
  have pc: "parent ?c = i" by (auto simp: least_child_def parent_def)
  have ys: "?ys ! k = (if k = i then xs ! ?c else if k = ?c then xs ! i else xs ! k)"
    if "k < length xs" for k
    using that c by (simp add: nth_swap)
  have edge: "key (?ys ! parent j) \<le> key (?ys ! j)" if j: "j < length xs" "0 < j" "parent j \<noteq> ?c" for j
  proof -
    have pj: "parent j < j" using j(2) by (rule parent_less)
    consider "j = ?c" | "j \<noteq> ?c" "parent j = i" | "parent j \<noteq> i" "j = i" | "parent j \<noteq> i" "j \<noteq> i" "j \<noteq> ?c"
      by blast
    then show ?thesis
    proof cases
      case 1
      then show ?thesis using c pc less by (simp add: ys)
    next
      case 2
      then show ?thesis using j c pj least_child_le [OF j(1,2) 2(2), of key] by (simp add: ys)
    next
      case 3
      moreover have "key (xs ! parent i) \<le> key (xs ! ?c)"
        using ok c pc 3 j unfolding down_ok_def by (metis gr_zeroI not_less_zero)
      ultimately show ?thesis using j c pj by (simp add: ys)
    next
      case 4
      then show ?thesis using j c pj ok by (simp add: ys down_ok_def)
    qed
  qed
  have grand: "key (?ys ! parent ?c) \<le> key (?ys ! j)"
    if j: "j < length xs" "0 < j" "parent j = ?c" for j
  proof -
    have "key (xs ! ?c) \<le> key (xs ! j)"
      using ok j c unfolding down_ok_def by (metis less_irrefl)
    moreover have "?c < j" using parent_less [OF j(2)] j(3) by simp
    ultimately show ?thesis using j c pc by (simp add: ys)
  qed
  show ?thesis using edge grand by (auto simp: down_ok_def)
qed

lemma sift_down_heap: "i < length xs \<or> xs = [] \<Longrightarrow> down_ok key xs i \<Longrightarrow> heap_on key (sift_down key xs i)"
proof (induction key xs i rule: sift_down.induct)
  case (1 key xs i)
  show ?case
  proof (cases "2 * i + 1 < length xs \<and> key (xs ! least_child key xs i) < key (xs ! i)")
    case True
    then have "down_ok key (swap xs i (least_child key xs i)) (least_child key xs i)"
      using "1.prems" by (intro down_ok_swap) auto
    with True "1.IH" least_child_bounds [of i xs key] show ?thesis
      by (simp add: sift_down.simps [of key xs i])
  next
    case False
    have "key (xs ! i) \<le> key (xs ! j)" if j: "j < length xs" "0 < j" "parent j = i" for j
    proof -
      have "2 * i + 1 < length xs" using j by (auto simp: child_cases)
      with False have "key (xs ! i) \<le> key (xs ! least_child key xs i)" by auto
      with least_child_le [OF j, of key] show ?thesis by simp
    qed
    then have "heap_on key xs" using "1.prems"(2) unfolding down_ok_def heap_on_def by blast
    with False show ?thesis by (auto simp: sift_down.simps [of key xs i])
  qed
qed

lemma heap_on_Nil [simp]: "heap_on key []"
  by (simp add: heap_on_def)

lemma heap_push_heap: "heap_on key xs \<Longrightarrow> heap_on key (push_heap key xs x)"
proof -
  assume h: "heap_on key xs"
  have "key ((xs @ [x]) ! parent j) \<le> key ((xs @ [x]) ! j)" if "j < length xs" "0 < j" for j
    using that h parent_less [of j] by (simp add: nth_append heap_on_def)
  moreover have "parent j \<noteq> length xs" if "j < length (xs @ [x])" "0 < j" for j
    using that parent_less [of j] by auto
  ultimately have "up_ok key (xs @ [x]) (length xs)"
    unfolding up_ok_def by (metis length_append_singleton less_Suc_eq)
  then show ?thesis by (simp add: push_heap_def sift_up_heap)
qed

lemma heap_pop_heap: "heap_on key xs \<Longrightarrow> heap_on key (pop_heap key xs)"
proof -
  assume h: "heap_on key xs"
  let ?ys = "butlast (swap xs 0 (length xs - 1))"
  have nth: "?ys ! k = xs ! k" if "k < length xs - 1" "0 < k" for k
    using that by (cases xs) (auto simp: nth_butlast swap_def nth_list_update nth_Cons split: nat.splits)
  have "key (?ys ! parent j) \<le> key (?ys ! j)"
    if j: "j < length ?ys" "0 < j" "parent j \<noteq> 0" for j
  proof -
    have "parent j < j" using j(2) by (rule parent_less)
    with j h show ?thesis using nth [of j] nth [of "parent j"] unfolding heap_on_def by auto
  qed
  then have "down_ok key ?ys 0" by (auto simp: down_ok_def)
  then show ?thesis unfolding pop_heap_def
    by (intro sift_down_heap) (auto simp flip: length_greater_0_conv)
qed

lemma heap_hd_least: "heap_on key xs \<Longrightarrow> i < length xs \<Longrightarrow> key (hd xs) \<le> key (xs ! i)"
proof (induction i rule: less_induct)
  case (less i)
  show ?case
  proof (cases "i = 0")
    case True
    then show ?thesis using less.prems by (simp add: hd_conv_nth)
  next
    case False
    then have "parent i < i" by (intro parent_less) simp
    then have "key (hd xs) \<le> key (xs ! parent i)" using less by auto
    also have "\<dots> \<le> key (xs ! i)" using False less.prems by (auto simp: heap_on_def)
    finally show ?thesis .
  qed
qed

lemma heap_on_cong: "(\<And>x. x \<in> set xs \<Longrightarrow> key x = key' x) \<Longrightarrow> heap_on key xs = heap_on key' xs"
  unfolding heap_on_def by (metis nth_mem order.strict_trans parent_less)

section \<open>The contract of a keyed heap\<close>

locale keyed_heap =
  fixes push :: "('a \<Rightarrow> 'k::linorder) \<Rightarrow> 'a list \<Rightarrow> 'a \<Rightarrow> 'a list"
    and pop :: "('a \<Rightarrow> 'k) \<Rightarrow> 'a list \<Rightarrow> 'a list"
    and ordered :: "('a \<Rightarrow> 'k) \<Rightarrow> 'a list \<Rightarrow> bool"
  assumes mset_push: "mset (push key xs x) = add_mset x (mset xs)"
    and mset_pop: "xs \<noteq> [] \<Longrightarrow> add_mset (hd xs) (mset (pop key xs)) = mset xs"
    and ordered_Nil: "ordered key []"
    and ordered_push: "ordered key xs \<Longrightarrow> ordered key (push key xs x)"
    and ordered_pop: "ordered key xs \<Longrightarrow> ordered key (pop key xs)"
    and front_least: "ordered key xs \<Longrightarrow> x \<in> set xs \<Longrightarrow> key (hd xs) \<le> key x"
    and ordered_cong: "(\<And>x. x \<in> set xs \<Longrightarrow> key x = key' x) \<Longrightarrow> ordered key xs = ordered key' xs"
begin

lemma length_push: "length (push key xs x) = Suc (length xs)"
  by (metis mset_push size_add_mset size_mset)

lemma set_push: "set (push key xs x) = insert x (set xs)"
  by (metis mset_push set_mset_add_mset_insert set_mset_mset)

lemma length_pop: "xs \<noteq> [] \<Longrightarrow> Suc (length (pop key xs)) = length xs"
  by (metis mset_pop size_add_mset size_mset)

lemma set_pop: "xs \<noteq> [] \<Longrightarrow> insert (hd xs) (set (pop key xs)) = set xs"
  by (metis mset_pop set_mset_add_mset_insert set_mset_mset)

lemma distinct_push: "distinct (push key xs x) \<longleftrightarrow> distinct xs \<and> x \<notin> set xs"
  by (metis distinct.simps(2) mset.simps(2) mset_eq_imp_distinct_iff mset_push)

lemma distinct_pop:
  "xs \<noteq> [] \<Longrightarrow> distinct xs \<Longrightarrow> distinct (pop key xs) \<and> hd xs \<notin> set (pop key xs)"
  by (metis distinct.simps(2) mset.simps(2) mset_eq_imp_distinct_iff mset_pop)

end

interpretation std_heap: keyed_heap push_heap pop_heap heap_on
proof
  show "mset (push_heap key xs x) = add_mset x (mset xs)" for key :: "'a \<Rightarrow> 'b" and xs x
    by (rule mset_push_heap)
  show "xs \<noteq> [] \<Longrightarrow> add_mset (hd xs) (mset (pop_heap key xs)) = mset xs" for key :: "'a \<Rightarrow> 'b" and xs
    by (rule mset_pop_heap)
  show "heap_on key xs \<Longrightarrow> x \<in> set xs \<Longrightarrow> key (hd xs) \<le> key x" for key :: "'a \<Rightarrow> 'b" and xs x
    by (metis heap_hd_least in_set_conv_nth)
  show "(\<And>x. x \<in> set xs \<Longrightarrow> key x = key' x) \<Longrightarrow> heap_on key xs = heap_on key' xs"
    for key key' :: "'a \<Rightarrow> 'b" and xs by (rule heap_on_cong)
qed (auto intro: heap_push_heap heap_pop_heap)

end
