(* ===== verification/Errors.thy ===== *)
theory Errors
  imports Prelude
begin

text \<open>
  Error codes: the library's enumeration (\<open>error.hpp\<close>), its category
  (\<open>impl/error.ipp\<close>), \<open>std::error_code\<close> as a value with a category, results
  (\<open>result.hpp\<close>) as a sum with the error on the left, and the mapping from the
  operating system's \<open>errno\<close> numbers (Linux values) in \<open>detail/socket_utils.hpp\<close>.
\<close>

datatype error =
    operation_aborted
  | timed_out
  | internal_error
  | invalid_argument
  | invalid_endpoint
  | unsupported_address_family
  | message_size
  | not_open
  | already_open
  | busy
  | not_bound
  | not_listening
  | not_connected
  | already_connected
  | eof
  | broken_pipe
  | connection_reset
  | address_in_use
  | address_not_available
  | network_unreachable
  | host_unreachable
  | connection_refused
  | connection_aborted
  | connection_timed_out

text \<open>The enumerators in order; the first one has the value 1.\<close>

definition all_errors :: "error list" where
  "all_errors = [operation_aborted, timed_out, internal_error, invalid_argument, invalid_endpoint,
     unsupported_address_family, message_size, not_open, already_open, busy, not_bound,
     not_listening, not_connected, already_connected, eof, broken_pipe, connection_reset,
     address_in_use, address_not_available, network_unreachable, host_unreachable,
     connection_refused, connection_aborted, connection_timed_out]"

fun index_of :: "'a \<Rightarrow> 'a list \<Rightarrow> nat" where
  "index_of x [] = 0"
| "index_of x (y # ys) = (if x = y then 0 else Suc (index_of x ys))"

definition error_value :: "error \<Rightarrow> int" where
  "error_value e = 1 + int (index_of e all_errors)"

datatype error_category = Iocoro_category | Generic_category | System_category

datatype error_code = Error_code (ec_value: int) (ec_category: error_category)

definition make_error_code :: "error \<Rightarrow> error_code" where
  "make_error_code e = Error_code (error_value e) Iocoro_category"

definition generic_error :: "int \<Rightarrow> error_code" where
  "generic_error err = Error_code err Generic_category"

definition no_error :: error_code where
  "no_error = Error_code 0 System_category"

text \<open>\<open>explicit operator bool\<close> of an error code.\<close>

definition ec_set :: "error_code \<Rightarrow> bool" where
  "ec_set ec \<longleftrightarrow> ec_value ec \<noteq> 0"

definition error_of_value :: "int \<Rightarrow> error option" where
  "error_of_value v = (if 1 \<le> v \<and> v \<le> int (length all_errors) then Some (all_errors ! nat (v - 1)) else None)"

fun error_text :: "error \<Rightarrow> string" where
  "error_text operation_aborted = ''operation aborted''"
| "error_text timed_out = ''timed out''"
| "error_text internal_error = ''internal error''"
| "error_text invalid_argument = ''invalid argument''"
| "error_text invalid_endpoint = ''invalid endpoint''"
| "error_text unsupported_address_family = ''unsupported address family''"
| "error_text message_size = ''message size''"
| "error_text not_open = ''resource not open''"
| "error_text already_open = ''already open''"
| "error_text busy = ''resource busy''"
| "error_text not_bound = ''not bound''"
| "error_text not_listening = ''not listening''"
| "error_text not_connected = ''not connected''"
| "error_text already_connected = ''already connected''"
| "error_text eof = ''end of file''"
| "error_text broken_pipe = ''broken pipe''"
| "error_text connection_reset = ''connection reset''"
| "error_text address_in_use = ''address in use''"
| "error_text address_not_available = ''address not available''"
| "error_text network_unreachable = ''network unreachable''"
| "error_text host_unreachable = ''host unreachable''"
| "error_text connection_refused = ''connection refused''"
| "error_text connection_aborted = ''connection aborted''"
| "error_text connection_timed_out = ''connection timed out''"

definition category_message :: "int \<Rightarrow> string" where
  "category_message ev =
     (case error_of_value ev of Some e \<Rightarrow> error_text e | None \<Rightarrow> ''unknown error'')"

section \<open>Results\<close>

type_synonym 'a result = "error_code + 'a"

definition ok :: "unit result" where
  "ok = Inr ()"

definition fail :: "error_code \<Rightarrow> 'a result" where
  "fail ec = Inl ec"

abbreviation fail_with :: "error \<Rightarrow> 'a result" where
  "fail_with e \<equiv> fail (make_error_code e)"

section \<open>errno\<close>

abbreviation (input) ENOENT :: int where "ENOENT \<equiv> 2"
abbreviation (input) EINTR :: int where "EINTR \<equiv> 4"
abbreviation (input) EAGAIN :: int where "EAGAIN \<equiv> 11"
abbreviation (input) EWOULDBLOCK :: int where "EWOULDBLOCK \<equiv> 11"
abbreviation (input) EPIPE :: int where "EPIPE \<equiv> 32"
abbreviation (input) ENONET :: int where "ENONET \<equiv> 64"
abbreviation (input) EPROTO :: int where "EPROTO \<equiv> 71"
abbreviation (input) EMSGSIZE :: int where "EMSGSIZE \<equiv> 90"
abbreviation (input) ENOPROTOOPT :: int where "ENOPROTOOPT \<equiv> 92"
abbreviation (input) EOPNOTSUPP :: int where "EOPNOTSUPP \<equiv> 95"
abbreviation (input) EADDRINUSE :: int where "EADDRINUSE \<equiv> 98"
abbreviation (input) EADDRNOTAVAIL :: int where "EADDRNOTAVAIL \<equiv> 99"
abbreviation (input) ENETDOWN :: int where "ENETDOWN \<equiv> 100"
abbreviation (input) ENETUNREACH :: int where "ENETUNREACH \<equiv> 101"
abbreviation (input) ECONNABORTED :: int where "ECONNABORTED \<equiv> 103"
abbreviation (input) ECONNRESET :: int where "ECONNRESET \<equiv> 104"
abbreviation (input) EISCONN :: int where "EISCONN \<equiv> 106"
abbreviation (input) ENOTCONN :: int where "ENOTCONN \<equiv> 107"
abbreviation (input) ETIMEDOUT :: int where "ETIMEDOUT \<equiv> 110"
abbreviation (input) ECONNREFUSED :: int where "ECONNREFUSED \<equiv> 111"
abbreviation (input) EHOSTDOWN :: int where "EHOSTDOWN \<equiv> 112"
abbreviation (input) EHOSTUNREACH :: int where "EHOSTUNREACH \<equiv> 113"
abbreviation (input) EALREADY :: int where "EALREADY \<equiv> 114"
abbreviation (input) EINPROGRESS :: int where "EINPROGRESS \<equiv> 115"

definition map_socket_errno :: "int \<Rightarrow> error_code" where
  "map_socket_errno err =
     (if err = EPIPE then make_error_code broken_pipe
      else if err = ECONNRESET then make_error_code connection_reset
      else if err = ECONNREFUSED then make_error_code connection_refused
      else if err = ECONNABORTED then make_error_code connection_aborted
      else if err = ETIMEDOUT then make_error_code connection_timed_out
      else if err = EHOSTUNREACH then make_error_code host_unreachable
      else if err = ENETUNREACH then make_error_code network_unreachable
      else if err = EADDRINUSE then make_error_code address_in_use
      else if err = EADDRNOTAVAIL then make_error_code address_not_available
      else if err = EMSGSIZE then make_error_code message_size
      else generic_error err)"

definition is_accept_transient_error :: "int \<Rightarrow> bool" where
  "is_accept_transient_error err \<longleftrightarrow>
     err \<in> {ENETDOWN, EPROTO, ENOPROTOOPT, EHOSTDOWN, ENONET, EHOSTUNREACH, EOPNOTSUPP, ENETUNREACH}"

section \<open>Facts\<close>

lemma in_all_errors: "e \<in> set all_errors"
  by (cases e) (simp_all add: all_errors_def)

lemma nth_index_of: "x \<in> set xs \<Longrightarrow> index_of x xs < length xs \<and> xs ! index_of x xs = x"
  by (induction xs) auto

lemma error_of_value_value: "error_of_value (error_value e) = Some e"
  using nth_index_of [OF in_all_errors [of e]] by (auto simp: error_of_value_def error_value_def)

lemma error_value_pos: "0 < error_value e"
  by (simp add: error_value_def)

lemma make_error_code_inject [simp]: "make_error_code e = make_error_code e' \<longleftrightarrow> e = e'"
  by (metis error_code.inject error_of_value_value make_error_code_def option.inject)

lemma make_error_code_set [simp]: "ec_set (make_error_code e)"
  using error_value_pos [of e] by (simp add: ec_set_def make_error_code_def)

lemma no_error_not_set [simp]: "\<not> ec_set no_error"
  by (simp add: ec_set_def no_error_def)

lemma make_error_code_not_no_error [simp]: "make_error_code e \<noteq> no_error"
  by (metis make_error_code_set no_error_not_set)

lemma make_error_code_not_generic [simp]: "make_error_code e \<noteq> generic_error v"
  by (simp add: make_error_code_def generic_error_def)

lemma map_socket_errno_set: "err \<noteq> 0 \<Longrightarrow> ec_set (map_socket_errno err)"
  by (simp add: map_socket_errno_def generic_error_def ec_set_def [of "Error_code _ _"])

lemma category_message_value: "category_message (error_value e) = error_text e"
  by (simp add: category_message_def error_of_value_value)

end
