(* ===== verification/ReactorTypes.thy ===== *)
theory ReactorTypes
  imports Errors
begin

text \<open>
  \<open>detail/reactor_types.hpp\<close>: what the reactor and the registries exchange. A
  \<open>reactor_op_ptr\<close> is an \<open>option\<close> of an operation; the two entries of its vtable
  that matter to a caller are the callbacks recorded by \<open>callback\<close>.
  An \<open>event_handle\<close> names a registration together with the token that guards it against
  reuse; its weak pointer is the number of the context object it refers to, and whether
  that object still lives is asked of the surrounding world.
\<close>

datatype fd_event_kind = Read_event | Write_event

definition invalid_token :: u64 where
  "invalid_token = 0"

datatype handle_kind = Kind_none | Kind_timer | Kind_fd

record event_handle =
  eh_impl :: "nat option"
  eh_type :: handle_kind
  eh_fd :: int
  eh_fd_kind :: fd_event_kind
  eh_fd_token :: u64
  eh_timer_index :: nat
  eh_timer_token :: u64

definition invalid_handle :: event_handle where
  "invalid_handle = \<lparr>eh_impl = None, eh_type = Kind_none, eh_fd = -1, eh_fd_kind = Read_event,
     eh_fd_token = invalid_token, eh_timer_index = 0, eh_timer_token = invalid_token\<rparr>"

definition make_fd :: "nat \<Rightarrow> int \<Rightarrow> fd_event_kind \<Rightarrow> u64 \<Rightarrow> event_handle" where
  "make_fd impl fd kind token = invalid_handle\<lparr>eh_impl := Some impl, eh_type := Kind_fd,
     eh_fd := fd, eh_fd_kind := kind, eh_fd_token := token\<rparr>"

definition make_timer :: "nat \<Rightarrow> nat \<Rightarrow> u64 \<Rightarrow> event_handle" where
  "make_timer impl index token = invalid_handle\<lparr>eh_impl := Some impl, eh_type := Kind_timer,
     eh_timer_index := index, eh_timer_token := token\<rparr>"

definition valid :: "(nat \<Rightarrow> bool) \<Rightarrow> event_handle \<Rightarrow> bool" where
  "valid alive h \<longleftrightarrow>
     (case eh_impl h of
        None \<Rightarrow> False
      | Some i \<Rightarrow> alive i \<and>
          (case eh_type h of
             Kind_fd \<Rightarrow> 0 \<le> eh_fd h \<and> eh_fd_token h \<noteq> invalid_token
           | Kind_timer \<Rightarrow> eh_timer_token h \<noteq> invalid_token
           | Kind_none \<Rightarrow> False))"

text \<open>A call of an operation's vtable: \<open>on_complete\<close> or \<open>on_abort\<close>.\<close>

datatype 'a callback = On_complete (cb_op: 'a) | On_abort (cb_op: 'a) (cb_ec: error_code)

lemma invalid_handle_not_valid [simp]: "\<not> valid alive invalid_handle"
  by (simp add: valid_def invalid_handle_def)

lemma valid_make_fd:
  "valid alive (make_fd i fd k t) \<longleftrightarrow> alive i \<and> 0 \<le> fd \<and> t \<noteq> invalid_token"
  by (simp add: valid_def make_fd_def)

lemma valid_make_timer: "valid alive (make_timer i n t) \<longleftrightarrow> alive i \<and> t \<noteq> invalid_token"
  by (simp add: valid_def make_timer_def)

lemmas handle_simps = make_fd_def make_timer_def invalid_handle_def

end
