(* ===== verification/TimerRegistry.thy ===== *)
theory TimerRegistry
  imports StdHeap ReactorTypes
begin

text \<open>
  \<open>detail/timer_registry.hpp\<close>: slots of timers with a generation token each, a binary
  heap of slot numbers ordered by expiry, and a stack of free slots. Time points are
  integers (nanoseconds of \<open>steady_clock\<close>); every call of \<open>steady_clock::now()\<close> takes
  the next reading of a clock \<open>clk\<close>, the number of readings taken so far being passed
  along. Slot numbers are natural numbers: the source's 32-bit conversion of the vector's
  size is the identity for every vector that fits in memory. The abstract view of a
  registry is the multiset \<open>armed\<close> of pairs of expiry and operation still to be fired.
\<close>

datatype timer_state = Pending | Fired | Cancelled

record 'a timer_node =
  tn_expiry :: int
  tn_op :: "'a option"
  tn_token :: u64
  tn_state :: timer_state

record 'a timer_registry =
  tr_nodes :: "'a timer_node list"
  tr_heap :: "nat list"
  tr_free :: "nat list"
  tr_active :: nat

definition timer_node_default :: "'a timer_node" where
  "timer_node_default = \<lparr>tn_expiry = 0, tn_op = None, tn_token = 1, tn_state = Pending\<rparr>"

definition timer_registry_init :: "'a timer_registry" where
  "timer_registry_init = \<lparr>tr_nodes = [], tr_heap = [], tr_free = [], tr_active = 0\<rparr>"

section \<open>Operations\<close>

abbreviation tr_key :: "'a timer_registry \<Rightarrow> nat \<Rightarrow> int" where
  "tr_key r i \<equiv> tn_expiry (tr_nodes r ! i)"

definition tr_push_heap :: "nat \<Rightarrow> 'a timer_registry \<Rightarrow> 'a timer_registry" where
  "tr_push_heap index r = r\<lparr>tr_heap := push_heap (tr_key r) (tr_heap r) index\<rparr>"

definition tr_pop_heap :: "'a timer_registry \<Rightarrow> 'a timer_registry" where
  "tr_pop_heap r = r\<lparr>tr_heap := pop_heap (tr_key r) (tr_heap r)\<rparr>"

definition advance_token :: "u64 \<Rightarrow> u64" where
  "advance_token tok = (if tok + 1 = invalid_token then tok + 1 + 1 else tok + 1)"

definition recycle_node :: "nat \<Rightarrow> 'a timer_registry \<Rightarrow> 'a timer_registry" where
  "recycle_node index r =
     (let node = tr_nodes r ! index;
          node' = node\<lparr>tn_op := None, tn_state := Fired, tn_token := advance_token (tn_token node)\<rparr>
      in r\<lparr>tr_nodes := (tr_nodes r)[index := node'],
           tr_free := tr_free r @ [index],
           tr_active := (if tr_active r > 0 then tr_active r - 1 else tr_active r)\<rparr>)"

definition tr_acquire :: "'a timer_registry \<Rightarrow> nat \<times> 'a timer_registry" where
  "tr_acquire r =
     (if tr_free r \<noteq> [] then (last (tr_free r), r\<lparr>tr_free := butlast (tr_free r)\<rparr>)
      else (length (tr_nodes r), r\<lparr>tr_nodes := tr_nodes r @ [timer_node_default]\<rparr>))"

definition tr_add_timer ::
  "int \<Rightarrow> 'a option \<Rightarrow> 'a timer_registry \<Rightarrow> (nat \<times> u64) \<times> 'a timer_registry" where
  "tr_add_timer expiry op r =
     (let (index, r1) = tr_acquire r;
          node = (tr_nodes r1 ! index)\<lparr>tn_expiry := expiry, tn_op := op, tn_state := Pending\<rparr>;
          r2 = r1\<lparr>tr_nodes := (tr_nodes r1)[index := node], tr_active := tr_active r1 + 1\<rparr>
      in ((index, tn_token node), tr_push_heap index r2))"

definition tr_cancel ::
  "nat \<Rightarrow> u64 \<Rightarrow> 'a timer_registry \<Rightarrow> ('a option \<times> bool) \<times> 'a timer_registry" where
  "tr_cancel index token r =
     (if token = invalid_token \<or> length (tr_nodes r) \<le> index then ((None, False), r)
      else if tn_token (tr_nodes r ! index) \<noteq> token then ((None, False), r)
      else if tn_state (tr_nodes r ! index) \<noteq> Pending then ((None, False), r)
      else ((tn_op (tr_nodes r ! index), True),
            r\<lparr>tr_nodes := (tr_nodes r)[index :=
               (tr_nodes r ! index)\<lparr>tn_state := Cancelled, tn_op := None\<rparr>]\<rparr>))"

text \<open>\<open>duration_cast\<close> from nanoseconds to milliseconds truncates towards zero.\<close>

definition to_ms :: "int \<Rightarrow> int" where
  "to_ms d = sgn d * (\<bar>d\<bar> div 1000000)"

definition next_timeout :: "(nat \<Rightarrow> int) \<Rightarrow> nat \<Rightarrow> 'a timer_registry \<Rightarrow> int option \<times> nat" where
  "next_timeout clk k r =
     (case tr_heap r of
        [] \<Rightarrow> (None, k)
      | idx # _ \<Rightarrow>
          (let node = tr_nodes r ! idx in
           if tn_state node = Cancelled then (Some 0, k)
           else if tn_expiry node \<le> clk k then (Some 0, Suc k)
           else (Some (to_ms (tn_expiry node - clk k)), Suc k)))"

definition push_ready :: "'a option \<Rightarrow> bool \<Rightarrow> ('a \<times> bool) list \<Rightarrow> ('a \<times> bool) list" where
  "push_ready op completed ready =
     (case op of None \<Rightarrow> ready | Some x \<Rightarrow> ready @ [(x, completed)])"

lemma length_tr_pop_heap: "tr_heap r \<noteq> [] \<Longrightarrow> Suc (length (tr_heap (tr_pop_heap r))) = length (tr_heap r)"
  by (simp add: tr_pop_heap_def std_heap.length_pop)

lemma tr_heap_recycle_node [simp]: "tr_heap (recycle_node i r) = tr_heap r"
  by (simp add: recycle_node_def Let_def)

function collect_expired ::
  "(nat \<Rightarrow> int) \<Rightarrow> nat \<Rightarrow> 'a timer_registry \<Rightarrow> ('a \<times> bool) list \<Rightarrow>
     'a timer_registry \<times> ('a \<times> bool) list \<times> nat" where
  "collect_expired clk k r ready =
     (if tr_heap r = [] then (r, ready, k)
      else
        (let idx = hd (tr_heap r); node = tr_nodes r ! idx in
         if tn_state node = Cancelled then
           collect_expired clk k (recycle_node idx (tr_pop_heap r)) (push_ready (tn_op node) False ready)
         else if tn_expiry node > clk k then (r, ready, Suc k)
         else if tn_state node \<noteq> Pending then
           collect_expired clk (Suc k) (recycle_node idx (tr_pop_heap r)) ready
         else
           collect_expired clk (Suc k) (recycle_node idx (tr_pop_heap r)) (push_ready (tn_op node) True ready)))"
  by pat_completeness auto
termination
  by (relation "measure (\<lambda>(clk, k, r, ready). length (tr_heap r))")
     (auto simp flip: length_tr_pop_heap)

declare collect_expired.simps [simp del]

definition timer_callback :: "'a \<times> bool \<Rightarrow> 'a callback" where
  "timer_callback e =
     (if snd e then On_complete (fst e) else On_abort (fst e) (make_error_code operation_aborted))"

text \<open>
  \<open>process_expired\<close> first collects and then runs the callbacks; the result holds the
  callbacks in the order they are made and the count that is returned.
\<close>

definition process_expired ::
  "(nat \<Rightarrow> int) \<Rightarrow> nat \<Rightarrow> 'a timer_registry \<Rightarrow> ('a callback list \<times> nat) \<times> 'a timer_registry \<times> nat" where
  "process_expired clk k r =
     (let (r', ready, k') = collect_expired clk k r []
      in ((map timer_callback ready, length (filter snd ready)), r', k'))"

definition tr_empty :: "'a timer_registry \<Rightarrow> bool" where
  "tr_empty r \<longleftrightarrow> tr_active r = 0"

definition drain_node :: "'a timer_node \<Rightarrow> 'a timer_node" where
  "drain_node node = node\<lparr>tn_op := None, tn_state := Fired, tn_token := advance_token (tn_token node)\<rparr>"

definition tr_drain_all :: "'a timer_registry \<Rightarrow> 'a list \<times> 'a timer_registry" where
  "tr_drain_all r =
     (if tr_nodes r = [] then ([], r)
      else (List.map_filter tn_op (tr_nodes r),
            \<lparr>tr_nodes = map drain_node (tr_nodes r), tr_heap = [],
             tr_free = [0..<length (tr_nodes r)], tr_active = 0\<rparr>))"

section \<open>Invariant\<close>

definition tr_inv :: "'a timer_registry \<Rightarrow> bool" where
  "tr_inv r \<longleftrightarrow>
     distinct (tr_heap r) \<and> distinct (tr_free r) \<and> set (tr_heap r) \<inter> set (tr_free r) = {} \<and>
     set (tr_heap r) \<union> set (tr_free r) = {..<length (tr_nodes r)} \<and>
     heap_on (tr_key r) (tr_heap r) \<and>
     tr_active r = length (tr_heap r) \<and>
     (\<forall>i \<in> set (tr_free r). tn_op (tr_nodes r ! i) = None \<and> tn_state (tr_nodes r ! i) = Fired) \<and>
     (\<forall>i \<in> set (tr_heap r). tn_state (tr_nodes r ! i) \<noteq> Fired \<and>
        (tn_state (tr_nodes r ! i) = Cancelled \<longrightarrow> tn_op (tr_nodes r ! i) = None)) \<and>
     (\<forall>i < length (tr_nodes r). tn_token (tr_nodes r ! i) \<noteq> invalid_token)"

definition armed_entry :: "'a timer_node \<Rightarrow> (int \<times> 'a) option" where
  "armed_entry node =
     (if tn_state node = Pending then map_option (Pair (tn_expiry node)) (tn_op node) else None)"

definition armed :: "'a timer_registry \<Rightarrow> (int \<times> 'a) multiset" where
  "armed r = owned armed_entry (tr_nodes r)"

abbreviation tr_ops :: "'a timer_registry \<Rightarrow> 'a multiset" where
  "tr_ops r \<equiv> owned tn_op (tr_nodes r)"

lemma tr_inv_init [inv_intro]: "tr_inv timer_registry_init"
  by (simp add: tr_inv_def timer_registry_init_def)

lemma armed_init [simp]: "armed timer_registry_init = {#}"
  by (simp add: armed_def timer_registry_init_def)

lemma tr_inv_heap_bound: "tr_inv r \<Longrightarrow> i \<in> set (tr_heap r) \<Longrightarrow> i < length (tr_nodes r)"
  by (auto simp: tr_inv_def)

lemma tr_inv_node_cases: "tr_inv r \<Longrightarrow> i < length (tr_nodes r) \<Longrightarrow> i \<in> set (tr_heap r) \<or> i \<in> set (tr_free r)"
  unfolding tr_inv_def by blast

lemma tr_inv_pending_in_heap:
  "tr_inv r \<Longrightarrow> i < length (tr_nodes r) \<Longrightarrow> tn_state (tr_nodes r ! i) \<noteq> Fired \<Longrightarrow> i \<in> set (tr_heap r)"
  using tr_inv_node_cases [of r i] by (auto simp: tr_inv_def)

lemma tr_ops_armed: "tr_inv r \<Longrightarrow> tr_ops r = image_mset snd (armed r)"
proof -
  assume inv: "tr_inv r"
  have "tn_op n = map_option snd (armed_entry n)" if "n \<in> set (tr_nodes r)" for n
  proof -
    obtain i where i: "i < length (tr_nodes r)" "n = tr_nodes r ! i"
      using \<open>n \<in> set (tr_nodes r)\<close> by (metis in_set_conv_nth)
    show ?thesis
    proof (cases "tn_state n")
      case Pending
      then show ?thesis by (cases "tn_op n") (auto simp: armed_entry_def)
    next
      case Fired
      with i tr_inv_node_cases [OF inv i(1)] inv show ?thesis
        by (auto simp: armed_entry_def tr_inv_def)
    next
      case Cancelled
      with i tr_inv_pending_in_heap [OF inv i(1)] inv show ?thesis
        by (auto simp: armed_entry_def tr_inv_def)
    qed
  qed
  then have "tr_ops r = owned (map_option snd \<circ> armed_entry) (tr_nodes r)"
    by (intro owned_cong) simp
  also have "\<dots> = image_mset snd (armed r)"
  proof -
    have "owned (map_option snd \<circ> armed_entry) xs = image_mset snd (owned armed_entry xs)" for xs :: "'a timer_node list"
    proof (induction xs)
      case (Cons n xs)
      then show ?case by (cases "armed_entry n") auto
    qed simp
    then show ?thesis by (simp add: armed_def)
  qed
  finally show ?thesis .
qed

lemma advance_token_valid [simp]: "advance_token t \<noteq> invalid_token"
  by (auto simp: advance_token_def invalid_token_def)

lemma advance_token_neq: "advance_token t \<noteq> t"
proof (cases "t + 1 = 0")
  case True
  then have "t = -1" by (simp add: eq_neg_iff_add_eq_0)
  then show ?thesis by (simp add: advance_token_def invalid_token_def)
next
  case False
  then show ?thesis by (simp add: advance_token_def invalid_token_def)
qed

section \<open>Adding\<close>

lemma tr_acquire_free:
  assumes "tr_inv r" and "tr_free r \<noteq> []"
  shows "last (tr_free r) \<in> set (tr_free r)" "last (tr_free r) \<notin> set (butlast (tr_free r))"
    "insert (last (tr_free r)) (set (butlast (tr_free r))) = set (tr_free r)" "distinct (butlast (tr_free r))"
proof -
  have eq: "tr_free r = butlast (tr_free r) @ [last (tr_free r)]" using assms(2) by simp
  have d: "distinct (tr_free r)" using assms(1) by (simp add: tr_inv_def)
  show "last (tr_free r) \<in> set (tr_free r)" using assms(2) by simp
  show "last (tr_free r) \<notin> set (butlast (tr_free r))" "distinct (butlast (tr_free r))"
    using d by (subst (asm) eq, simp)+
  show "insert (last (tr_free r)) (set (butlast (tr_free r))) = set (tr_free r)"
    by (subst (3) eq) auto
qed

lemma tr_acquire_spec:
  assumes inv: "tr_inv r" and acq: "tr_acquire r = (i, r1)"
  shows "i < length (tr_nodes r1)" "i \<notin> set (tr_heap r)" "i \<notin> set (tr_free r1)"
    "tr_heap r1 = tr_heap r" "tr_active r1 = tr_active r" "distinct (tr_free r1)"
    "set (tr_free r1) \<subseteq> set (tr_free r)"
    "insert i (set (tr_heap r) \<union> set (tr_free r1)) = {..<length (tr_nodes r1)}"
    "\<And>j. j < length (tr_nodes r) \<Longrightarrow> tr_nodes r1 ! j = tr_nodes r ! j"
    "tn_op (tr_nodes r1 ! i) = None"
    "armed r1 = armed r" "tr_ops r1 = tr_ops r"
    "\<And>j. j < length (tr_nodes r1) \<Longrightarrow> tn_token (tr_nodes r1 ! j) \<noteq> invalid_token"
proof -
  have cover: "set (tr_heap r) \<union> set (tr_free r) = {..<length (tr_nodes r)}"
    and disj: "set (tr_heap r) \<inter> set (tr_free r) = {}"
    and freed: "\<forall>i \<in> set (tr_free r). tn_op (tr_nodes r ! i) = None"
    and tok: "\<forall>i < length (tr_nodes r). tn_token (tr_nodes r ! i) \<noteq> invalid_token"
    using inv by (auto simp: tr_inv_def)
  have all: "i < length (tr_nodes r1) \<and> i \<notin> set (tr_heap r) \<and> i \<notin> set (tr_free r1) \<and>
    tr_heap r1 = tr_heap r \<and> tr_active r1 = tr_active r \<and> distinct (tr_free r1) \<and>
    set (tr_free r1) \<subseteq> set (tr_free r) \<and>
    insert i (set (tr_heap r) \<union> set (tr_free r1)) = {..<length (tr_nodes r1)} \<and>
    (\<forall>j. j < length (tr_nodes r) \<longrightarrow> tr_nodes r1 ! j = tr_nodes r ! j) \<and>
    tn_op (tr_nodes r1 ! i) = None \<and> armed r1 = armed r \<and> tr_ops r1 = tr_ops r \<and>
    (\<forall>j < length (tr_nodes r1). tn_token (tr_nodes r1 ! j) \<noteq> invalid_token)"
  proof (cases "tr_free r = []")
    case True
    then have "i = length (tr_nodes r)" "r1 = r\<lparr>tr_nodes := tr_nodes r @ [timer_node_default]\<rparr>"
      using acq by (auto simp: tr_acquire_def)
    moreover have "set (tr_heap r) = {..<length (tr_nodes r)}" using cover True by simp
    ultimately show ?thesis using True tok
      by (auto simp: armed_def armed_entry_def timer_node_default_def nth_append less_Suc_eq
          lessThan_Suc invalid_token_def)
  next
    case False
    then have i: "i = last (tr_free r)" and r1: "r1 = r\<lparr>tr_free := butlast (tr_free r)\<rparr>"
      using acq by (auto simp: tr_acquire_def)
    note f = tr_acquire_free [OF inv False, folded i]
    have "i < length (tr_nodes r)" using f(1) cover by blast
    moreover have "i \<notin> set (tr_heap r)" using f(1) disj by blast
    moreover have "insert i (set (tr_heap r) \<union> set (butlast (tr_free r))) = {..<length (tr_nodes r)}"
      using f(3) cover by blast
    ultimately show ?thesis using f freed tok r1 by (auto simp: armed_def)
  qed
  show "i < length (tr_nodes r1)" "i \<notin> set (tr_heap r)" "i \<notin> set (tr_free r1)"
    "tr_heap r1 = tr_heap r" "tr_active r1 = tr_active r" "distinct (tr_free r1)"
    "set (tr_free r1) \<subseteq> set (tr_free r)"
    "insert i (set (tr_heap r) \<union> set (tr_free r1)) = {..<length (tr_nodes r1)}"
    "\<And>j. j < length (tr_nodes r) \<Longrightarrow> tr_nodes r1 ! j = tr_nodes r ! j"
    "tn_op (tr_nodes r1 ! i) = None" "armed r1 = armed r" "tr_ops r1 = tr_ops r"
    "\<And>j. j < length (tr_nodes r1) \<Longrightarrow> tn_token (tr_nodes r1 ! j) \<noteq> invalid_token"
    using all by blast+
qed

lemma tr_add_timer_parts:
  assumes "tr_add_timer e op r = ((i, tok), r')"
  obtains r1 where "tr_acquire r = (i, r1)" "tok = tn_token (tr_nodes r1 ! i)"
    "r' = tr_push_heap i (r1\<lparr>tr_nodes := (tr_nodes r1)[i := (tr_nodes r1 ! i)\<lparr>tn_expiry := e, tn_op := op, tn_state := Pending\<rparr>],
             tr_active := tr_active r1 + 1\<rparr>)"
  using assms by (auto simp: tr_add_timer_def Let_def split: prod.splits)

lemma tr_inv_add_timer [inv_intro]:
  assumes inv: "tr_inv r" and add: "tr_add_timer e op r = ((i, tok), r')"
  shows "tr_inv r'"
proof -
  obtain r1 where acq: "tr_acquire r = (i, r1)" and r': "r' = tr_push_heap i
      (r1\<lparr>tr_nodes := (tr_nodes r1)[i := (tr_nodes r1 ! i)\<lparr>tn_expiry := e, tn_op := op, tn_state := Pending\<rparr>],
          tr_active := tr_active r1 + 1\<rparr>)"
    by (rule tr_add_timer_parts [OF add])
  note a = tr_acquire_spec [OF inv acq]
  let ?ns = "(tr_nodes r1)[i := (tr_nodes r1 ! i)\<lparr>tn_expiry := e, tn_op := op, tn_state := Pending\<rparr>]"
  have bound: "j < length (tr_nodes r)" if "j \<in> set (tr_heap r) \<or> j \<in> set (tr_free r)" for j
    using that inv by (auto simp: tr_inv_def)
  have other: "?ns ! j = tr_nodes r ! j" if "j \<in> set (tr_heap r) \<or> j \<in> set (tr_free r1)" for j
    using that a(2,3,7,9) bound by (metis nth_list_update_neq subsetD)
  have "heap_on (\<lambda>j. tn_expiry (?ns ! j)) (tr_heap r)"
    using inv other by (subst heap_on_cong [where key' = "tr_key r"]) (auto simp: tr_inv_def)
  then have heap: "heap_on (\<lambda>j. tn_expiry (?ns ! j)) (push_heap (\<lambda>j. tn_expiry (?ns ! j)) (tr_heap r) i)"
    by (rule heap_push_heap)
  have old: "\<forall>j \<in> set (tr_heap r). tn_state (tr_nodes r ! j) \<noteq> Fired \<and>
        (tn_state (tr_nodes r ! j) = Cancelled \<longrightarrow> tn_op (tr_nodes r ! j) = None)"
    and freed: "\<forall>j \<in> set (tr_free r). tn_op (tr_nodes r ! j) = None \<and> tn_state (tr_nodes r ! j) = Fired"
    using inv by (auto simp: tr_inv_def)
  have free_ok: "\<forall>j \<in> set (tr_free r1). tn_op (?ns ! j) = None \<and> tn_state (?ns ! j) = Fired"
    using other freed a(7) by auto
  have heap_ok: "\<forall>j \<in> insert i (set (tr_heap r)). tn_state (?ns ! j) \<noteq> Fired \<and>
        (tn_state (?ns ! j) = Cancelled \<longrightarrow> tn_op (?ns ! j) = None)"
    using other old a(1) by auto
  have tok_ok: "\<forall>j < length ?ns. tn_token (?ns ! j) \<noteq> invalid_token"
    using a(13) a(1) by (simp add: nth_list_update)
  have cover: "insert i (set (tr_heap r)) \<union> set (tr_free r1) = {..<length ?ns}" using a(8) by auto
  have disj: "insert i (set (tr_heap r)) \<inter> set (tr_free r1) = {}" using a(3,7) inv by (auto simp: tr_inv_def)
  have count: "tr_active r = length (tr_heap r)" and dist: "distinct (tr_heap r)"
    using inv by (simp_all add: tr_inv_def)
  show ?thesis
    unfolding tr_inv_def r' tr_push_heap_def
    using heap free_ok heap_ok tok_ok cover disj count dist a(2,4,5,6)
    by (simp add: std_heap.set_push std_heap.length_push std_heap.distinct_push)
qed

lemma tr_add_timer_token:
  assumes "tr_inv r" and "tr_add_timer e op r = ((i, tok), r')"
  shows "tok \<noteq> invalid_token" "i < length (tr_nodes r')" "tn_token (tr_nodes r' ! i) = tok"
    "tn_state (tr_nodes r' ! i) = Pending" "tn_op (tr_nodes r' ! i) = op" "tn_expiry (tr_nodes r' ! i) = e"
proof -
  obtain r1 where acq: "tr_acquire r = (i, r1)" "tok = tn_token (tr_nodes r1 ! i)" and r': "r' = tr_push_heap i
      (r1\<lparr>tr_nodes := (tr_nodes r1)[i := (tr_nodes r1 ! i)\<lparr>tn_expiry := e, tn_op := op, tn_state := Pending\<rparr>],
          tr_active := tr_active r1 + 1\<rparr>)"
    by (rule tr_add_timer_parts [OF assms(2)])
  note a = tr_acquire_spec [OF assms(1) acq(1)]
  show "tok \<noteq> invalid_token" "i < length (tr_nodes r')" "tn_token (tr_nodes r' ! i) = tok"
    "tn_state (tr_nodes r' ! i) = Pending" "tn_op (tr_nodes r' ! i) = op" "tn_expiry (tr_nodes r' ! i) = e"
    using a(1,13) acq(2) by (simp_all add: r' tr_push_heap_def)
qed

lemma tr_add_timer_armed:
  assumes "tr_inv r" and "tr_add_timer e op r = ((i, tok), r')"
  shows "armed r' = armed r + opt_mset (map_option (Pair e) op)" "tr_ops r' = tr_ops r + opt_mset op"
proof -
  obtain r1 where acq: "tr_acquire r = (i, r1)" and r': "r' = tr_push_heap i
      (r1\<lparr>tr_nodes := (tr_nodes r1)[i := (tr_nodes r1 ! i)\<lparr>tn_expiry := e, tn_op := op, tn_state := Pending\<rparr>],
          tr_active := tr_active r1 + 1\<rparr>)"
    by (rule tr_add_timer_parts [OF assms(2)])
  note a = tr_acquire_spec [OF assms(1) acq]
  have "armed_entry (tr_nodes r1 ! i) = None" using a(10) by (simp add: armed_entry_def)
  then show "armed r' = armed r + opt_mset (map_option (Pair e) op)"
    using a(1,11) by (simp add: r' tr_push_heap_def armed_def owned_update_fill armed_entry_def [of "_\<lparr>tn_expiry := _, tn_op := _, tn_state := _\<rparr>"])
  show "tr_ops r' = tr_ops r + opt_mset op"
    using a(1,10,12) by (simp add: r' tr_push_heap_def owned_update_fill)
qed

section \<open>Cancelling\<close>

lemma tr_cancel_cases:
  assumes "tr_cancel i tok r = ((op, c), r')"
  obtains (miss) "\<not> c" "op = None" "r' = r"
  | (hit) "c" "tok \<noteq> invalid_token" "i < length (tr_nodes r)" "tn_token (tr_nodes r ! i) = tok"
      "tn_state (tr_nodes r ! i) = Pending" "op = tn_op (tr_nodes r ! i)"
      "r' = r\<lparr>tr_nodes := (tr_nodes r)[i := (tr_nodes r ! i)\<lparr>tn_state := Cancelled, tn_op := None\<rparr>]\<rparr>"
proof (cases "tok = invalid_token \<or> length (tr_nodes r) \<le> i \<or> tn_token (tr_nodes r ! i) \<noteq> tok \<or>
    tn_state (tr_nodes r ! i) \<noteq> Pending")
  case True
  then have "tr_cancel i tok r = ((None, False), r)" by (auto simp: tr_cancel_def)
  with assms show ?thesis by (intro miss) auto
next
  case False
  with assms show ?thesis by (intro hit) (auto simp: tr_cancel_def)
qed

lemma tr_inv_update_in_heap:
  assumes inv: "tr_inv r" and i: "i \<in> set (tr_heap r)"
    and n: "tn_expiry n = tr_key r i" "tn_token n \<noteq> invalid_token" "tn_state n \<noteq> Fired"
      "tn_state n = Cancelled \<longrightarrow> tn_op n = None"
  shows "tr_inv (r\<lparr>tr_nodes := (tr_nodes r)[i := n]\<rparr>)"
proof -
  have len: "i < length (tr_nodes r)" using inv i by (rule tr_inv_heap_bound)
  have key: "tn_expiry ((tr_nodes r)[i := n] ! j) = tr_key r j" for j
    using n(1) len by (cases "i = j") auto
  have free: "(tr_nodes r)[i := n] ! j = tr_nodes r ! j" if "j \<in> set (tr_free r)" for j
    using that inv i by (subst nth_list_update_neq) (auto simp: tr_inv_def)
  have "\<forall>j \<in> set (tr_heap r). tn_state ((tr_nodes r)[i := n] ! j) \<noteq> Fired \<and>
      (tn_state ((tr_nodes r)[i := n] ! j) = Cancelled \<longrightarrow> tn_op ((tr_nodes r)[i := n] ! j) = None)"
    "\<forall>j < length (tr_nodes r). tn_token ((tr_nodes r)[i := n] ! j) \<noteq> invalid_token"
    using inv len n by (auto simp: tr_inv_def nth_list_update)
  then show ?thesis using inv by (simp add: tr_inv_def key free)
qed

lemma tr_inv_cancel [inv_intro]:
  assumes "tr_inv r" and "tr_cancel i tok r = ((op, c), r')"
  shows "tr_inv r'"
  using assms(2)
proof (cases rule: tr_cancel_cases)
  case miss
  then show ?thesis using assms(1) by simp
next
  case hit
  then have "i \<in> set (tr_heap r)" using tr_inv_pending_in_heap assms(1) by fastforce
  then show ?thesis unfolding hit(7)
    using hit assms(1) by (intro tr_inv_update_in_heap) auto
qed

lemma tr_cancel_ops [ownership]:
  "tr_cancel i tok r = ((op, c), r') \<Longrightarrow> tr_ops r = tr_ops r' + opt_mset op"
  by (erule tr_cancel_cases) (auto simp: owned_update_null)

lemma tr_cancel_armed:
  assumes "tr_cancel i tok r = ((op, c), r')"
  shows "armed r = armed r' + opt_mset (map_option (Pair (tr_key r i)) op)"
  using assms
proof (cases rule: tr_cancel_cases)
  case hit
  let ?n = "(tr_nodes r ! i)\<lparr>tn_state := Cancelled, tn_op := None\<rparr>"
  have "armed_entry ?n = None" by (simp add: armed_entry_def)
  with hit owned_update_null [of i "tr_nodes r" armed_entry ?n] show ?thesis
    by (simp add: armed_def armed_entry_def [of "tr_nodes r ! i"])
qed simp

section \<open>Expiring\<close>

lemma tr_recycle_spec:
  assumes inv: "tr_inv r" and ne: "tr_heap r \<noteq> []"
  defines "i \<equiv> hd (tr_heap r)"
  defines "r1 \<equiv> recycle_node i (tr_pop_heap r)"
  shows "tr_inv r1" "armed r = armed r1 + opt_mset (armed_entry (tr_nodes r ! i))"
    "tr_ops r = tr_ops r1 + opt_mset (tn_op (tr_nodes r ! i))"
    "\<And>e op. (e, op) \<in># armed r1 \<Longrightarrow> tr_key r i \<le> e"
proof -
  let ?h = "pop_heap (tr_key r) (tr_heap r)"
  let ?n = "(tr_nodes r ! i)\<lparr>tn_op := None, tn_state := Fired, tn_token := advance_token (tn_token (tr_nodes r ! i))\<rparr>"
  let ?ns = "(tr_nodes r)[i := ?n]"
  have nodes: "tr_nodes r1 = ?ns" and heap: "tr_heap r1 = ?h" and free: "tr_free r1 = tr_free r @ [i]"
    and act: "tr_active r1 = tr_active r - 1"
    by (auto simp: r1_def recycle_node_def tr_pop_heap_def Let_def)
  have i: "i \<in> set (tr_heap r)" using ne by (simp add: i_def)
  have len: "i < length (tr_nodes r)" using inv i by (rule tr_inv_heap_bound)
  have dist: "distinct (tr_heap r)" using inv by (simp add: tr_inv_def)
  note pop = std_heap.set_pop [OF ne, of "tr_key r", folded i_def] std_heap.length_pop [OF ne, of "tr_key r"]
    std_heap.distinct_pop [OF ne dist, of "tr_key r", folded i_def]
  have key: "tn_expiry (?ns ! j) = tr_key r j" for j using len by (cases "i = j") auto
  have "heap_on (tr_key r) ?h" using inv by (simp add: tr_inv_def heap_pop_heap)
  moreover have "set ?h \<union> set (tr_free r @ [i]) = {..<length ?ns}" "set ?h \<inter> set (tr_free r @ [i]) = {}"
    "distinct (tr_free r @ [i])"
    using inv pop i by (auto simp: tr_inv_def)
  moreover have "\<forall>j \<in> set (tr_free r @ [i]). tn_op (?ns ! j) = None \<and> tn_state (?ns ! j) = Fired"
    using inv len by (auto simp: tr_inv_def nth_list_update)
  moreover have "\<forall>j \<in> set ?h. tn_state (?ns ! j) \<noteq> Fired \<and>
      (tn_state (?ns ! j) = Cancelled \<longrightarrow> tn_op (?ns ! j) = None)"
  proof
    fix j assume "j \<in> set ?h"
    then have "j \<in> set (tr_heap r)" "j \<noteq> i" using pop by auto
    then have "j \<in> set (tr_heap r)" "?ns ! j = tr_nodes r ! j" by simp_all
    then show "tn_state (?ns ! j) \<noteq> Fired \<and> (tn_state (?ns ! j) = Cancelled \<longrightarrow> tn_op (?ns ! j) = None)"
      using inv by (simp add: tr_inv_def)
  qed
  moreover have "\<forall>j < length ?ns. tn_token (?ns ! j) \<noteq> invalid_token"
    using inv len by (simp add: tr_inv_def nth_list_update)
  moreover have "tr_active r - 1 = length ?h" using inv pop(2) by (simp add: tr_inv_def)
  ultimately show inv1: "tr_inv r1" using pop by (simp add: tr_inv_def nodes heap free act key)
  show "armed r = armed r1 + opt_mset (armed_entry (tr_nodes r ! i))"
    using len by (simp add: armed_def nodes owned_update_null armed_entry_def [of ?n])
  show "tr_ops r = tr_ops r1 + opt_mset (tn_op (tr_nodes r ! i))"
    using len by (simp add: nodes owned_update_null)
  show "tr_key r i \<le> e" if mem: "(e, op) \<in># armed r1" for e op
  proof -
    obtain n where "n \<in> set ?ns" "armed_entry n = Some (e, op)"
      using mem by (auto simp: armed_def set_mset_owned nodes)
    then obtain j where j: "j < length ?ns" "armed_entry (?ns ! j) = Some (e, op)"
      by (metis in_set_conv_nth)
    then have "tn_state (?ns ! j) \<noteq> Fired" and e: "e = tr_key r j"
      by (auto simp: armed_entry_def key split: if_splits)
    then have "j \<in> set ?h" using j(1) inv1 tr_inv_pending_in_heap [of r1 j] by (simp add: nodes heap)
    then have "j \<in> set (tr_heap r)" using pop(1) by blast
    then show ?thesis using e inv std_heap.front_least [of "tr_key r" "tr_heap r" j]
      by (simp add: tr_inv_def i_def)
  qed
qed

text \<open>
  What one run of the collecting loop delivers: the entries \<open>fired\<close> leave the armed
  multiset in the order of their expiry; what is left is later than the last reading.
\<close>

definition as_ready :: "(int \<times> 'a) list \<Rightarrow> ('a \<times> bool) list" where
  "as_ready fired = map (\<lambda>(e, op). (op, True)) fired"

lemma collect_expired_spec:
  assumes "tr_inv r" and "collect_expired clk k r ready = (r', ready', k')"
  shows "tr_inv r' \<and> k \<le> k' \<and> (\<exists>fired. ready' = ready @ as_ready fired \<and>
     armed r = mset fired + armed r' \<and> sorted (map fst fired) \<and>
     (\<forall>(e, op) \<in> set fired. \<exists>j. k \<le> j \<and> j < k' \<and> e \<le> clk j) \<and>
     (\<forall>(e, op) \<in># armed r'. k < k' \<and> clk (k' - 1) < e))"
  using assms
proof (induction clk k r ready arbitrary: r' ready' k' rule: collect_expired.induct)
  case (1 clk k r ready)
  let ?i = "hd (tr_heap r)"
  let ?n = "tr_nodes r ! ?i"
  let ?r1 = "recycle_node ?i (tr_pop_heap r)"
  note unfold = "1.prems"(2) [unfolded collect_expired.simps [of clk k r ready]]
  have none_armed: "armed r = {#}" if "tr_heap r = []"
  proof -
    have "armed_entry (tr_nodes r ! j) = None" if "j < length (tr_nodes r)" for j
      using that \<open>tr_heap r = []\<close> tr_inv_node_cases [OF "1.prems"(1) that] "1.prems"(1)
      by (auto simp: tr_inv_def armed_entry_def)
    then show ?thesis by (auto simp: armed_def owned_empty_iff in_set_conv_nth)
  qed
  show ?case
  proof (cases "tr_heap r = []")
    case True
    then show ?thesis using unfold "1.prems"(1) none_armed
      by (auto simp: as_ready_def intro!: exI [of _ "[]"])
  next
    case ne: False
    note rec = tr_recycle_spec [OF "1.prems"(1) ne]
    have st: "tn_state ?n \<noteq> Fired" "tn_state ?n = Cancelled \<longrightarrow> tn_op ?n = None"
      using "1.prems"(1) ne by (auto simp: tr_inv_def)
    consider (canc) "tn_state ?n = Cancelled" | (late) "tn_state ?n = Pending" "clk k < tn_expiry ?n"
      | (due) "tn_state ?n = Pending" "tn_expiry ?n \<le> clk k"
      using st(1) by (cases "tn_state ?n") force+
    then show ?thesis
    proof cases
      case canc
      then have eq: "collect_expired clk k ?r1 ready = (r', ready', k')"
        using unfold ne st(2) by (simp add: Let_def push_ready_def)
      have "armed_entry ?n = None" using canc by (simp add: armed_entry_def)
      then have "armed r = armed ?r1" using rec(2) by simp
      moreover have "push_ready (tn_op ?n) False ready = ready" using canc st(2) by (simp add: push_ready_def)
      ultimately show ?thesis using "1.IH"(1) [OF ne refl refl canc rec(1)] eq by simp
    next
      case late
      then have res: "r' = r" "ready' = ready" "k' = Suc k" using unfold ne by (auto simp: Let_def)
      have "clk k < e" if "(e, op) \<in># armed r" for e op
      proof -
        have "(e, op) \<in># armed ?r1 + opt_mset (armed_entry ?n)" using that rec(2) by simp
        then have "tr_key r ?i \<le> e"
          using rec(4) late(1) by (cases "tn_op ?n") (auto simp: armed_entry_def)
        then show ?thesis using late(2) by simp
      qed
      then show ?thesis using res "1.prems"(1) by (auto simp: as_ready_def intro!: exI [of _ "[]"])
    next
      case due
      let ?new = "case tn_op ?n of None \<Rightarrow> [] | Some op \<Rightarrow> [(tn_expiry ?n, op)]"
      have eq: "collect_expired clk (Suc k) ?r1 (push_ready (tn_op ?n) True ready) = (r', ready', k')"
        using unfold ne due by (simp add: Let_def)
      have "tn_state ?n \<noteq> Cancelled" "\<not> clk k < tn_expiry ?n" "\<not> tn_state ?n \<noteq> Pending" using due by auto
      from "1.IH"(3) [OF ne refl refl this rec(1) eq]
      obtain fired where f: "tr_inv r'" "Suc k \<le> k'"
        "ready' = push_ready (tn_op ?n) True ready @ as_ready fired"
        "armed ?r1 = mset fired + armed r'" "sorted (map fst fired)"
        "\<forall>(e, op) \<in> set fired. \<exists>j. Suc k \<le> j \<and> j < k' \<and> e \<le> clk j"
        "\<forall>(e, op) \<in># armed r'. Suc k < k' \<and> clk (k' - 1) < e" by blast
      have "tn_expiry ?n \<le> e" if "(e, op) \<in> set fired" for e op
        using that rec(4) [of e op] f(4) by auto
      then have sorted: "sorted (map fst (?new @ fired))" using f(5) by (auto split: option.splits)
      have "ready' = ready @ as_ready (?new @ fired)"
        using f(3) by (simp add: push_ready_def as_ready_def split: option.splits)
      moreover have "armed r = mset (?new @ fired) + armed r'"
        using rec(2) f(4) due(1) by (simp add: armed_entry_def split: option.splits)
      moreover have "\<forall>(e, op) \<in> set (?new @ fired). \<exists>j. k \<le> j \<and> j < k' \<and> e \<le> clk j"
      proof clarify
        fix e op
        assume "(e, op) \<in> set (?new @ fired)"
        then have "e = tn_expiry ?n \<or> (e, op) \<in> set fired" by (auto split: option.splits)
        then show "\<exists>j\<ge>k. j < k' \<and> e \<le> clk j"
        proof
          assume "e = tn_expiry ?n"
          then show ?thesis using f(2) due(2) by (intro exI [of _ k]) simp
        next
          assume "(e, op) \<in> set fired"
          then show ?thesis using f(6) by (blast dest: Suc_leD)
        qed
      qed
      moreover have "\<forall>(e, op) \<in># armed r'. k < k' \<and> clk (k' - 1) < e" using f(7) by auto
      moreover have "k \<le> k'" using f(2) by simp
      ultimately show ?thesis using f(1) sorted by blast
    qed
  qed
qed

lemma as_ready_callbacks:
  "map timer_callback (as_ready fired) = map (On_complete \<circ> snd) fired"
  "length (filter snd (as_ready fired)) = length fired"
  by (auto simp: as_ready_def timer_callback_def split_beta comp_def)

lemma process_expired_spec:
  assumes inv: "tr_inv r" and pe: "process_expired clk k r = ((cbs, n), r', k')"
  obtains fired where "cbs = map (On_complete \<circ> snd) fired" "n = length fired" "tr_inv r'"
    "armed r = mset fired + armed r'" "sorted (map fst fired)" "k \<le> k'"
    "\<forall>(e, op) \<in> set fired. \<exists>j. k \<le> j \<and> j < k' \<and> e \<le> clk j"
    "\<forall>(e, op) \<in># armed r'. k < k' \<and> clk (k' - 1) < e"
proof -
  obtain ready where c: "collect_expired clk k r [] = (r', ready, k')"
    and cbs: "cbs = map timer_callback ready" "n = length (filter snd ready)"
    using pe by (auto simp: process_expired_def Let_def split: prod.splits)
  from collect_expired_spec [OF inv c, unfolded append_Nil]
  obtain fired where f: "tr_inv r'" "k \<le> k'" "ready = as_ready fired"
    "armed r = mset fired + armed r'" "sorted (map fst fired)"
    "\<forall>(e, op) \<in> set fired. \<exists>j. k \<le> j \<and> j < k' \<and> e \<le> clk j"
    "\<forall>(e, op) \<in># armed r'. k < k' \<and> clk (k' - 1) < e"
    by blast
  show ?thesis
    using cbs f(3) by (intro that [OF _ _ f(1,4,5,2,6,7)]) (simp_all only: as_ready_callbacks)
qed

lemma tr_inv_process_expired [inv_intro]:
  "tr_inv r \<Longrightarrow> process_expired clk k r = ((cbs, n), r', k') \<Longrightarrow> tr_inv r'"
  by (erule (1) process_expired_spec)

lemma process_expired_ops [ownership]:
  assumes "tr_inv r" "process_expired clk k r = ((cbs, n), r', k')"
  shows "tr_ops r = mset (map cb_op cbs) + tr_ops r'"
  using assms
proof (rule process_expired_spec)
  fix fired
  assume f: "cbs = map (On_complete \<circ> snd) fired" "tr_inv r'" "armed r = mset fired + armed r'"
  then have "tr_ops r = image_mset snd (mset fired) + tr_ops r'"
    using assms(1) by (simp add: tr_ops_armed)
  then show ?thesis using f(1) by (simp add: comp_def)
qed

section \<open>Draining and waiting\<close>

lemma mset_map_filter_op: "mset (List.map_filter f xs) = owned f xs"
  by (induction xs) (auto simp: List.map_filter_simps split: option.splits)

lemma tr_inv_drain_all [inv_intro]: "tr_inv r \<Longrightarrow> tr_inv (snd (tr_drain_all r))"
  by (auto simp: tr_drain_all_def tr_inv_def drain_node_def atLeast0LessThan)

lemma tr_drain_all_ops [ownership]:
  "tr_drain_all r = (out, r') \<Longrightarrow> tr_ops r = mset out + tr_ops r'"
  by (auto simp: tr_drain_all_def mset_map_filter_op owned_map drain_node_def owned_empty_iff split: if_splits)

lemma tr_drain_all_empty:
  "tr_inv r \<Longrightarrow> tr_drain_all r = (out, r') \<Longrightarrow> tr_empty r' \<and> tr_ops r' = {#}"
  by (auto simp: tr_drain_all_def tr_empty_def owned_map drain_node_def owned_empty_iff tr_inv_def split: if_splits)

lemma tr_empty_armed:
  assumes inv: "tr_inv r" and empty: "tr_empty r"
  shows "armed r = {#}"
proof -
  have "tr_heap r = []" using assms by (simp add: tr_inv_def tr_empty_def)
  then have "armed_entry (tr_nodes r ! j) = None" if "j < length (tr_nodes r)" for j
    using that tr_inv_node_cases [OF inv that] inv by (auto simp: tr_inv_def armed_entry_def)
  then show ?thesis by (auto simp: armed_def owned_empty_iff in_set_conv_nth)
qed

lemma filter_mset_split:
  assumes "\<And>x. x \<in># A \<Longrightarrow> P x \<and> \<not> Q x" "\<And>x. x \<in># B \<Longrightarrow> Q x \<and> \<not> P x"
  shows "filter_mset P (A + B) = A \<and> filter_mset Q (A + B) = B"
proof -
  have "filter_mset P A = A" "filter_mset Q B = B"
    using assms by (metis filter_mset_True filter_mset_cong0)+
  moreover have "filter_mset P B = {#}" "filter_mset Q A = {#}"
    using assms by (metis filter_mset_False filter_mset_cong0)+
  ultimately show ?thesis by simp
qed

section \<open>Sequences of calls\<close>

text \<open>
  What a client can do with a registry, as a datatype of calls; the clock readings of a
  \<open>process_expired\<close> call are an argument of the call. \<open>timer_apply\<close> forgets what a call returns.
\<close>

datatype 'a timer_call =
    Add_timer int 'a | Cancel_timer nat u64 | Process_expired "nat \<Rightarrow> int" nat | Drain_all

fun timer_apply :: "'a timer_call \<Rightarrow> 'a timer_registry \<Rightarrow> 'a timer_registry" where
  "timer_apply (Add_timer e op) r = snd (tr_add_timer e (Some op) r)"
| "timer_apply (Cancel_timer i tok) r = snd (tr_cancel i tok r)"
| "timer_apply (Process_expired clk k) r = fst (snd (process_expired clk k r))"
| "timer_apply Drain_all r = snd (tr_drain_all r)"

lemma tr_inv_apply: "tr_inv r \<Longrightarrow> tr_inv (timer_apply c r)"
proof (cases c)
  case (Add_timer e op)
  assume "tr_inv r"
  then show ?thesis using Add_timer by (metis timer_apply.simps(1) tr_inv_add_timer surj_pair snd_conv)
next
  case (Cancel_timer i tok)
  assume "tr_inv r"
  then show ?thesis using Cancel_timer by (metis timer_apply.simps(2) tr_inv_cancel surj_pair snd_conv)
next
  case (Process_expired clk k)
  assume "tr_inv r"
  then show ?thesis using Process_expired
    by (metis timer_apply.simps(3) tr_inv_process_expired surj_pair fst_conv snd_conv)
qed (simp add: tr_inv_drain_all)

lemma tr_inv_fold: "tr_inv r \<Longrightarrow> tr_inv (fold timer_apply cs r)"
  by (induction cs arbitrary: r) (simp_all add: tr_inv_apply)

lemma advance_token_skip: "advance_token = skip_zero"
  by (simp add: fun_eq_iff advance_token_def skip_zero_def invalid_token_def)

text \<open>What one call can do to a slot that exists: keep it, cancel it, reuse it if it was free, or recycle it.\<close>

definition slot_follows :: "'a timer_node \<Rightarrow> 'a timer_node \<Rightarrow> bool" where
  "slot_follows n n' \<longleftrightarrow> tn_token n' = advance_token (tn_token n) \<or>
     tn_token n' = tn_token n \<and> (tn_state n \<noteq> Fired \<longrightarrow> tn_state n' = Cancelled \<or> n' = n)"

lemma slot_follows_refl [simp]: "slot_follows n n"
  by (simp add: slot_follows_def)

lemma collect_expired_slots:
  assumes "tr_inv r" "collect_expired clk k r ready = (r', ready', k')" "i < length (tr_nodes r)"
  shows "length (tr_nodes r') = length (tr_nodes r) \<and>
     (i \<notin> set (tr_heap r) \<longrightarrow> tr_nodes r' ! i = tr_nodes r ! i) \<and>
     slot_follows (tr_nodes r ! i) (tr_nodes r' ! i)"
  using assms
proof (induction clk k r ready rule: collect_expired.induct)
  case (1 clk k r ready)
  show ?case
  proof (cases "tr_heap r = []")
    case True
    then show ?thesis using "1.prems" by (simp add: collect_expired.simps [of clk k r ready])
  next
    case False
    define idx where "idx = hd (tr_heap r)"
    define r1 where "r1 = recycle_node idx (tr_pop_heap r)"
    have inv1: "tr_inv r1" using tr_recycle_spec(1) [OF "1.prems"(1) False] by (simp add: r1_def idx_def)
    have idx: "idx \<in> set (tr_heap r)" using False by (simp add: idx_def)
    then have idx': "idx < length (tr_nodes r)" using tr_inv_heap_bound "1.prems"(1) by blast
    have heap1: "set (tr_heap r1) \<subseteq> set (tr_heap r)" "idx \<notin> set (tr_heap r1)"
      using False std_heap.set_pop [of "tr_heap r" "tr_key r"] std_heap.distinct_pop [of "tr_heap r" "tr_key r"] "1.prems"(1)
      by (auto simp: r1_def idx_def tr_pop_heap_def tr_inv_def)
    have len1: "length (tr_nodes r1) = length (tr_nodes r)"
      by (simp add: r1_def recycle_node_def tr_pop_heap_def Let_def)
    have nodes1: "tr_nodes r1 ! i = (if i = idx then (tr_nodes r ! i)\<lparr>tn_op := None, tn_state := Fired,
        tn_token := advance_token (tn_token (tr_nodes r ! i))\<rparr> else tr_nodes r ! i)"
      using "1.prems"(3) idx' by (simp add: r1_def recycle_node_def tr_pop_heap_def Let_def nth_list_update)
    have goal1: "length (tr_nodes r') = length (tr_nodes r) \<and>
       (i \<notin> set (tr_heap r) \<longrightarrow> tr_nodes r' ! i = tr_nodes r ! i) \<and>
       slot_follows (tr_nodes r ! i) (tr_nodes r' ! i)"
      if "length (tr_nodes r') = length (tr_nodes r1) \<and>
       (i \<notin> set (tr_heap r1) \<longrightarrow> tr_nodes r' ! i = tr_nodes r1 ! i) \<and>
       slot_follows (tr_nodes r1 ! i) (tr_nodes r' ! i)"
      using that nodes1 len1 heap1 idx by (cases "i = idx") (auto simp: slot_follows_def)
    have "r' = r \<or> (\<exists>k2 ready2. collect_expired clk k2 r1 ready2 = (r', ready', k'))"
      using "1.prems"(2) False
      by (auto simp: collect_expired.simps [of clk k r ready] Let_def r1_def idx_def split: if_splits)
    then show ?thesis
    proof
      assume "\<exists>k2 ready2. collect_expired clk k2 r1 ready2 = (r', ready', k')"
      then show ?thesis
        using "1.IH" [OF False idx_def refl] goal1 inv1 len1 "1.prems" False
        by (auto simp: r1_def [symmetric] collect_expired.simps [of clk k r ready] Let_def idx_def [symmetric] split: if_splits)
    qed simp
  qed
qed

lemma tr_add_timer_slots:
  assumes inv: "tr_inv r" and add: "tr_add_timer e op r = ((j, tok), r')" and i: "i < length (tr_nodes r)"
  shows "length (tr_nodes r) \<le> length (tr_nodes r') \<and> slot_follows (tr_nodes r ! i) (tr_nodes r' ! i)"
proof -
  obtain r1 where acq: "tr_acquire r = (j, r1)" and r': "r' = tr_push_heap j (r1\<lparr>tr_nodes := (tr_nodes r1)[j :=
      (tr_nodes r1 ! j)\<lparr>tn_expiry := e, tn_op := op, tn_state := Pending\<rparr>], tr_active := tr_active r1 + 1\<rparr>)"
    using add by (rule tr_add_timer_parts)
  note a = tr_acquire_spec [OF inv acq]
  have len: "length (tr_nodes r) \<le> length (tr_nodes r1)"
    using acq by (auto simp: tr_acquire_def split: if_splits)
  have "i = j \<Longrightarrow> tn_state (tr_nodes r ! i) = Fired"
    using a(2) tr_inv_pending_in_heap [OF inv i] by blast
  then show ?thesis
    using a(1,9) len i by (auto simp: r' tr_push_heap_def slot_follows_def nth_list_update)
qed

lemma timer_apply_slots:
  assumes inv: "tr_inv r" and i: "i < length (tr_nodes r)"
  shows "length (tr_nodes r) \<le> length (tr_nodes (timer_apply c r)) \<and>
         slot_follows (tr_nodes r ! i) (tr_nodes (timer_apply c r) ! i)"
proof (cases c)
  case (Add_timer e op)
  then show ?thesis using tr_add_timer_slots [OF inv _ i]
    by (metis timer_apply.simps(1) surj_pair snd_conv)
next
  case (Cancel_timer j tok)
  obtain op b r' where c: "tr_cancel j tok r = ((op, b), r')" by (metis surj_pair)
  then have r': "timer_apply c r = r'" using Cancel_timer by simp
  show ?thesis using c unfolding r'
    by (cases rule: tr_cancel_cases) (auto simp: slot_follows_def nth_list_update i)
next
  case (Process_expired clk k)
  obtain r' ready k' where "collect_expired clk k r [] = (r', ready, k')" by (metis surj_pair)
  then show ?thesis using Process_expired collect_expired_slots [OF inv _ i]
    by (fastforce simp: process_expired_def)
next
  case Drain_all
  then show ?thesis using i by (auto simp: tr_drain_all_def slot_follows_def drain_node_def)
qed

lemma timer_fold_slot:
  assumes "tr_inv r" "i < length (tr_nodes r)" "tn_state (tr_nodes r ! i) = Pending"
  shows "i < length (tr_nodes (fold timer_apply cs r)) \<and>
     (\<exists>n \<le> length cs. tn_token (tr_nodes (fold timer_apply cs r) ! i) = (advance_token ^^ n) (tn_token (tr_nodes r ! i)) \<and>
       (n = 0 \<longrightarrow> tn_state (tr_nodes (fold timer_apply cs r) ! i) = Cancelled \<or>
         tr_nodes (fold timer_apply cs r) ! i = tr_nodes r ! i))"
proof (induction cs rule: rev_induct)
  case Nil
  then show ?case using assms by auto
next
  case (snoc c cs)
  let ?r = "fold timer_apply cs r"
  obtain n where n: "n \<le> length cs" "tn_token (tr_nodes ?r ! i) = (advance_token ^^ n) (tn_token (tr_nodes r ! i))"
    "n = 0 \<longrightarrow> tn_state (tr_nodes ?r ! i) = Cancelled \<or> tr_nodes ?r ! i = tr_nodes r ! i"
    using snoc.IH by blast
  have "length (tr_nodes ?r) \<le> length (tr_nodes (timer_apply c ?r))"
    and f: "slot_follows (tr_nodes ?r ! i) (tr_nodes (timer_apply c ?r) ! i)"
    using timer_apply_slots [of ?r i c] tr_inv_fold [OF assms(1)] snoc.IH by blast+
  then have len: "i < length (tr_nodes (timer_apply c ?r))" using snoc.IH by simp
  from f show ?case
    unfolding slot_follows_def
  proof
    assume "tn_token (tr_nodes (timer_apply c ?r) ! i) = advance_token (tn_token (tr_nodes ?r ! i))"
    then show ?thesis using n len by (intro conjI exI [of _ "Suc n"]) auto
  next
    assume "tn_token (tr_nodes (timer_apply c ?r) ! i) = tn_token (tr_nodes ?r ! i) \<and>
      (tn_state (tr_nodes ?r ! i) \<noteq> Fired \<longrightarrow>
        tn_state (tr_nodes (timer_apply c ?r) ! i) = Cancelled \<or> tr_nodes (timer_apply c ?r) ! i = tr_nodes ?r ! i)"
    then show ?thesis using n len assms(3) by (intro conjI exI [of _ n]) auto
  qed
qed

section \<open>Properties\<close>

text \<open>
  The registry's representation stays consistent under every sequence of calls: the
  heap and the free list partition the slots, the heap is ordered by expiry, the active
  count is the heap's length, a free slot owns no operation, and no slot carries the
  invalid token.
\<close>

lemma timer_registry_invariant: "tr_inv (fold timer_apply cs timer_registry_init)"
  by (rule tr_inv_fold) (rule tr_inv_init)

text \<open>
  (C19) \<open>process_expired\<close> fires exactly the timers that are due: with a clock that does not
  run backwards, the operations it completes are those of the armed timers whose expiry is
  at most the last clock reading, each once, in the order of their expiry; all others stay
  armed, and the returned count is the number completed. No operation is aborted.
\<close>

theorem process_expired_fires_due:
  assumes inv: "tr_inv r" and clk: "mono clk"
    and pe: "process_expired clk k r = ((cbs, n), r', k')" and ne: "tr_heap r \<noteq> []"
  shows "\<exists>fired. cbs = map (On_complete \<circ> snd) fired \<and> n = length fired \<and> sorted (map fst fired) \<and>
     mset fired = filter_mset (\<lambda>(e, op). e \<le> clk (k' - 1)) (armed r) \<and>
     armed r' = filter_mset (\<lambda>(e, op). clk (k' - 1) < e) (armed r)"
proof -
  obtain fired where f: "cbs = map (On_complete \<circ> snd) fired" "n = length fired"
      "armed r = mset fired + armed r'" "sorted (map fst fired)"
      "\<forall>(e, op) \<in> set fired. \<exists>j. k \<le> j \<and> j < k' \<and> e \<le> clk j"
      "\<forall>(e, op) \<in># armed r'. k < k' \<and> clk (k' - 1) < e"
    using inv pe by (rule process_expired_spec)
  have due: "e \<le> clk (k' - 1)" if x: "(e, op) \<in> set fired" for e op
  proof -
    obtain j where "j < k'" "e \<le> clk j" using bspec [OF f(5) x] by auto
    then show ?thesis using monoD [OF clk, of j "k' - 1"] by linarith
  qed
  have "filter_mset (\<lambda>(e, op). e \<le> clk (k' - 1)) (mset fired + armed r') = mset fired \<and>
    filter_mset (\<lambda>(e, op). clk (k' - 1) < e) (mset fired + armed r') = armed r'"
  proof (rule filter_mset_split)
    fix x assume "x \<in># mset fired"
    then show "(case x of (e, op) \<Rightarrow> e \<le> clk (k' - 1)) \<and> \<not> (case x of (e, op) \<Rightarrow> clk (k' - 1) < e)"
      using due by (cases x) (simp add: not_less)
  next
    fix x assume "x \<in># armed r'"
    then show "(case x of (e, op) \<Rightarrow> clk (k' - 1) < e) \<and> \<not> (case x of (e, op) \<Rightarrow> e \<le> clk (k' - 1))"
      using f(6) by (cases x) auto
  qed
  then show ?thesis by (intro exI [of _ fired]) (simp only: f(1,2,3,4) simp_thms)
qed

definition timer_example :: "nat timer_registry" where
  "timer_example = fold timer_apply [Add_timer 30 1, Add_timer 10 2, Add_timer 20 3] timer_registry_init"

lemma tr_inv_timer_example: "tr_inv timer_example"
  unfolding timer_example_def by (rule tr_inv_fold) (rule tr_inv_init)

theorem process_expired_fires_due_witness:
  "\<exists>cbs n r' k' fired. process_expired (\<lambda>_. 20) 0 timer_example = ((cbs, n), r', k') \<and>
     cbs = map (On_complete \<circ> snd) fired \<and> n = length fired \<and> sorted (map fst fired) \<and>
     mset fired = filter_mset (\<lambda>(e, op). e \<le> 20) (armed timer_example)"
proof -
  obtain cbs n r' k' where pe: "process_expired (\<lambda>_. 20) 0 timer_example = ((cbs, n), r', k')"
    by (metis surj_pair)
  have "tr_heap timer_example \<noteq> []" by code_simp
  then show ?thesis
    using process_expired_fires_due [OF tr_inv_timer_example _ pe] pe by (auto intro: monoI)
qed

text \<open>
  (C20) A stale handle is harmless: the slot and token that \<open>add_timer\<close> returned cancel
  only the timer they were returned for. After any sequence of fewer than \<open>2 ^ 64 - 1\<close>
  further calls, however often the slot was reused, a \<open>cancel\<close> that succeeds hands back
  this timer's operation, and the slot still has this timer's expiry.
\<close>

theorem timer_handle_not_reused:
  assumes inv: "tr_inv r" and add: "tr_add_timer e (Some op) r = ((i, tok), r0)"
    and len: "length cs < 2 ^ 64 - 1"
    and cancel: "tr_cancel i tok (fold timer_apply cs r0) = ((x, True), r2)"
  shows "x = Some op \<and> tn_expiry (tr_nodes (fold timer_apply cs r0) ! i) = e"
proof -
  let ?r = "fold timer_apply cs r0"
  note t = tr_add_timer_token [OF inv add]
  have inv0: "tr_inv r0" using inv add by (rule tr_inv_add_timer)
  have c: "tn_token (tr_nodes ?r ! i) = tok" "tn_state (tr_nodes ?r ! i) = Pending" "x = tn_op (tr_nodes ?r ! i)"
    using cancel by (auto elim: tr_cancel_cases)
  obtain n where n: "n \<le> length cs" "tok = (advance_token ^^ n) tok"
    "n = 0 \<longrightarrow> tn_state (tr_nodes ?r ! i) = Cancelled \<or> tr_nodes ?r ! i = tr_nodes r0 ! i"
    using timer_fold_slot [OF inv0 t(2,4), of cs] c(1) t(3) by auto
  have "n = 0"
  proof (rule ccontr)
    assume "n \<noteq> 0"
    then have "(skip_zero ^^ n) tok \<noteq> tok"
      using t(1) n(1) len by (intro skip_zero_funpow_neq) (auto simp: invalid_token_def)
    then show False using n(2) by (simp add: advance_token_skip)
  qed
  then show ?thesis using n(3) c t by auto
qed

theorem timer_handle_not_reused_witness:
  "\<exists>i tok r0 x r2. tr_add_timer 40 (Some 4) timer_example = ((i, tok), r0) \<and>
     tr_cancel i tok (fold timer_apply [Cancel_timer 0 1, Process_expired (\<lambda>_. 35) 0, Add_timer 50 5] r0)
       = ((x, True), r2) \<and> x = Some 4"
proof -
  let ?cs = "[Cancel_timer 0 1, Process_expired (\<lambda>_. 35) 0, Add_timer 50 5]"
  obtain i tok r0 where add: "tr_add_timer 40 (Some 4) timer_example = ((i, tok), r0)" by (metis surj_pair)
  have "(case tr_add_timer 40 (Some 4) timer_example of ((i, tok), r0) \<Rightarrow>
      snd (fst (tr_cancel i tok (fold timer_apply ?cs r0))))"
    by code_simp
  then obtain x r2 where c: "tr_cancel i tok (fold timer_apply ?cs r0) = ((x, True), r2)"
    using add by (cases "tr_cancel i tok (fold timer_apply ?cs r0)") auto
  show ?thesis using timer_handle_not_reused [OF tr_inv_timer_example add _ c] add c by auto
qed

text \<open>
  (C24) The wait for timers is long enough to be useful and never too long: with no timer
  in the heap there is no timeout; otherwise the timeout is a number of whole milliseconds
  that is not negative and, from the clock reading taken, does not reach past the expiry
  of any armed timer.
\<close>

theorem next_timeout_no_oversleep:
  assumes inv: "tr_inv r" and nt: "next_timeout clk k r = (t, k')"
  shows "(t = None \<longleftrightarrow> tr_heap r = []) \<and>
     (\<forall>ms. t = Some ms \<longrightarrow> 0 \<le> ms \<and> (\<forall>(e, op) \<in># armed r. ms = 0 \<or> clk k + ms * 1000000 \<le> e))"
proof (cases "tr_heap r")
  case Nil
  then show ?thesis using nt by (simp add: next_timeout_def)
next
  case (Cons idx rest)
  have least: "tr_key r idx \<le> e" if a: "(e, op) \<in># armed r" for e op
  proof -
    obtain n where n: "n \<in> set (tr_nodes r)" "armed_entry n = Some (e, op)"
      using a by (auto simp: armed_def set_mset_owned)
    then obtain j where j: "j < length (tr_nodes r)" "tr_nodes r ! j = n" by (auto simp: in_set_conv_nth)
    then have "j \<in> set (tr_heap r)" "tr_key r j = e"
      using n(2) tr_inv_pending_in_heap [OF inv j(1)] by (auto simp: armed_entry_def split: if_splits)
    then show ?thesis
      using std_heap.front_least [of "tr_key r" "tr_heap r" j] inv Cons by (auto simp: tr_inv_def)
  qed
  have ms: "to_ms d * 1000000 \<le> d \<and> 0 \<le> to_ms d" if "0 < d" for d
    using that by (simp add: to_ms_def; linarith)
  have "0 \<le> ms \<and> (ms = 0 \<or> clk k + ms * 1000000 \<le> tr_key r idx)" if "t = Some ms" for ms
    using that nt Cons ms [of "tr_key r idx - clk k"] by (auto simp: next_timeout_def Let_def split: if_splits)
  then show ?thesis using least Cons nt
    by (fastforce simp: next_timeout_def Let_def split: if_splits)
qed

theorem next_timeout_no_oversleep_witness:
  "\<exists>t k'. next_timeout (\<lambda>_. 0) 0 timer_example = (t, k') \<and>
     (\<forall>ms. t = Some ms \<longrightarrow> 0 \<le> ms \<and> (\<forall>(e, op) \<in># armed timer_example. ms = 0 \<or> 0 + ms * 1000000 \<le> e))"
proof -
  obtain t k' where nt: "next_timeout (\<lambda>_. 0) 0 timer_example = (t, k')" by (metis surj_pair)
  then show ?thesis using next_timeout_no_oversleep [OF tr_inv_timer_example nt] by auto
qed

end
