(* ===== verification/FdRegistry.thy ===== *)
theory FdRegistry
  imports ReactorTypes
begin

text \<open>
  \<open>detail/fd_registry.hpp\<close>: for every file descriptor one slot for a reader and one for
  a writer, each with the operation waiting there, the token of its registration and a
  latch for readiness that arrived with nobody waiting. Descriptors are \<open>int\<close>, as in the
  source; the vector grows to the largest descriptor seen. \<open>fr_opsm\<close> is the multiset of
  operations the registry owns.
\<close>

record 'a slot =
  sl_op :: "'a option"
  sl_token :: u64
  sl_ready :: bool

record 'a fd_ops =
  fo_read :: "'a slot"
  fo_write :: "'a slot"
  fo_tracked :: bool

record 'a fd_registry =
  fr_operations :: "'a fd_ops list"
  fr_next_token :: u64
  fr_active :: nat

definition slot_default :: "'a slot" where
  "slot_default = \<lparr>sl_op = None, sl_token = invalid_token, sl_ready = False\<rparr>"

definition fd_ops_default :: "'a fd_ops" where
  "fd_ops_default = \<lparr>fo_read = slot_default, fo_write = slot_default, fo_tracked = False\<rparr>"

definition fd_registry_init :: "'a fd_registry" where
  "fd_registry_init = \<lparr>fr_operations = [], fr_next_token = 1, fr_active = 0\<rparr>"

record 'a fd_register_result =
  rr_token :: u64
  rr_replaced :: "'a option"
  rr_ready_now :: "'a option"

section \<open>Operations\<close>

definition slot_for :: "'a fd_ops \<Rightarrow> fd_event_kind \<Rightarrow> 'a slot" where
  "slot_for ops kind = (if kind = Read_event then fo_read ops else fo_write ops)"

text \<open>Writing through the reference that \<open>slot_for\<close> returns.\<close>

definition put_slot :: "fd_event_kind \<Rightarrow> 'a slot \<Rightarrow> 'a fd_ops \<Rightarrow> 'a fd_ops" where
  "put_slot kind s ops = (if kind = Read_event then ops\<lparr>fo_read := s\<rparr> else ops\<lparr>fo_write := s\<rparr>)"

definition fr_resize :: "nat \<Rightarrow> 'a fd_registry \<Rightarrow> 'a fd_registry" where
  "fr_resize n r = r\<lparr>fr_operations :=
     fr_operations r @ replicate (n - length (fr_operations r)) fd_ops_default\<rparr>"

definition fr_register ::
  "int \<Rightarrow> 'a option \<Rightarrow> fd_event_kind \<Rightarrow> 'a fd_registry \<Rightarrow> 'a fd_register_result \<times> 'a fd_registry" where
  "fr_register fd op kind r =
     (if fd < 0 then (\<lparr>rr_token = 0, rr_replaced = None, rr_ready_now = None\<rparr>, r)
      else if length (fr_operations r) \<le> nat fd \<and> op = None then
        (\<lparr>rr_token = 0, rr_replaced = None, rr_ready_now = None\<rparr>, r)
      else
        (let r1 = (if length (fr_operations r) \<le> nat fd then fr_resize (nat fd + 1) r else r);
             ops = (fr_operations r1 ! nat fd)\<lparr>fo_tracked := True\<rparr>;
             slot = slot_for ops kind
         in if op \<noteq> None \<and> sl_ready slot then
              (\<lparr>rr_token = 0, rr_replaced = None, rr_ready_now = op\<rparr>,
               r1\<lparr>fr_operations := (fr_operations r1)[nat fd := put_slot kind (slot\<lparr>sl_ready := False\<rparr>) ops]\<rparr>)
            else
              (let token = (if op \<noteq> None then fr_next_token r1 else 0);
                   slot_token = (if op \<noteq> None then fr_next_token r1 else invalid_token);
                   next = (if op \<noteq> None then fr_next_token r1 + 1 else fr_next_token r1);
                   had_op = (sl_op slot \<noteq> None);
                   active = (if \<not> had_op \<and> op \<noteq> None then fr_active r1 + 1
                             else if had_op \<and> op = None then fr_active r1 - 1 else fr_active r1)
               in (\<lparr>rr_token = token, rr_replaced = sl_op slot, rr_ready_now = None\<rparr>,
                   r1\<lparr>fr_operations := (fr_operations r1)[nat fd :=
                        put_slot kind (slot\<lparr>sl_op := op, sl_token := slot_token\<rparr>) ops],
                      fr_next_token := next, fr_active := active\<rparr>))))"

definition register_read ::
  "int \<Rightarrow> 'a option \<Rightarrow> 'a fd_registry \<Rightarrow> 'a fd_register_result \<times> 'a fd_registry" where
  "register_read fd op r = fr_register fd op Read_event r"

definition register_write ::
  "int \<Rightarrow> 'a option \<Rightarrow> 'a fd_registry \<Rightarrow> 'a fd_register_result \<times> 'a fd_registry" where
  "register_write fd op r = fr_register fd op Write_event r"

definition fr_cancel ::
  "int \<Rightarrow> fd_event_kind \<Rightarrow> u64 \<Rightarrow> 'a fd_registry \<Rightarrow> ('a option \<times> bool) \<times> 'a fd_registry" where
  "fr_cancel fd kind token r =
     (if fd < 0 \<or> length (fr_operations r) \<le> nat fd then ((None, False), r)
      else
        (let ops = fr_operations r ! nat fd; slot = slot_for ops kind
         in if sl_op slot \<noteq> None \<and> sl_token slot = token then
              ((sl_op slot, True),
               r\<lparr>fr_operations := (fr_operations r)[nat fd :=
                    put_slot kind (slot\<lparr>sl_op := None, sl_token := invalid_token\<rparr>) ops],
                 fr_active := fr_active r - 1\<rparr>)
            else ((None, False), r)))"

definition fr_deregister :: "int \<Rightarrow> 'a fd_registry \<Rightarrow> ('a option \<times> 'a option) \<times> 'a fd_registry" where
  "fr_deregister fd r =
     (if 0 \<le> fd \<and> nat fd < length (fr_operations r) then
        (let ops = fr_operations r ! nat fd;
             read = sl_op (fo_read ops);
             write = sl_op (fo_write ops);
             active1 = (if read \<noteq> None then fr_active r - 1 else fr_active r);
             cleared = (\<lambda>s. s\<lparr>sl_op := None, sl_token := invalid_token, sl_ready := False\<rparr>);
             active2 = (if write \<noteq> None then active1 - 1 else active1)
         in ((read, write),
             r\<lparr>fr_operations := (fr_operations r)[nat fd := ops\<lparr>fo_read := cleared (fo_read ops),
                  fo_write := cleared (fo_write ops), fo_tracked := False\<rparr>],
               fr_active := active2\<rparr>))
      else ((None, None), r))"

definition fr_track :: "int \<Rightarrow> 'a fd_registry \<Rightarrow> 'a fd_registry" where
  "fr_track fd r =
     (if fd < 0 then r
      else
        (let r1 = (if length (fr_operations r) \<le> nat fd then fr_resize (nat fd + 1) r else r)
         in r1\<lparr>fr_operations := (fr_operations r1)[nat fd := (fr_operations r1 ! nat fd)\<lparr>fo_tracked := True\<rparr>]\<rparr>))"

text \<open>One of the two branches of \<open>take_ready\<close>: hand the waiter out, or latch the readiness.\<close>

definition take_slot :: "'a slot \<Rightarrow> 'a option \<times> 'a slot" where
  "take_slot s =
     (if sl_op s \<noteq> None then (sl_op s, s\<lparr>sl_op := None, sl_token := invalid_token\<rparr>)
      else (None, s\<lparr>sl_ready := True\<rparr>))"

definition take_ready ::
  "int \<Rightarrow> bool \<Rightarrow> bool \<Rightarrow> 'a fd_registry \<Rightarrow> ('a option \<times> 'a option) \<times> 'a fd_registry" where
  "take_ready fd can_read can_write r =
     (if fd < 0 then ((None, None), r)
      else if length (fr_operations r) \<le> nat fd then ((None, None), r)
      else if \<not> fo_tracked (fr_operations r ! nat fd) then ((None, None), r)
      else
        (let ops = fr_operations r ! nat fd;
             (read, rs) = (if can_read then take_slot (fo_read ops) else (None, fo_read ops));
             active1 = (if read \<noteq> None then fr_active r - 1 else fr_active r);
             (write, ws) = (if can_write then take_slot (fo_write ops) else (None, fo_write ops));
             active2 = (if write \<noteq> None then active1 - 1 else active1)
         in ((read, write),
             r\<lparr>fr_operations := (fr_operations r)[nat fd := ops\<lparr>fo_read := rs, fo_write := ws\<rparr>],
               fr_active := active2\<rparr>)))"

definition fr_empty :: "'a fd_registry \<Rightarrow> bool" where
  "fr_empty r \<longleftrightarrow> fr_active r = 0"

definition had_any :: "'a fd_ops \<Rightarrow> bool" where
  "had_any ops \<longleftrightarrow> fo_tracked ops \<or> sl_op (fo_read ops) \<noteq> None \<or> sl_op (fo_write ops) \<noteq> None \<or>
     sl_ready (fo_read ops) \<or> sl_ready (fo_write ops)"

definition ops_of :: "'a fd_ops \<Rightarrow> 'a list" where
  "ops_of ops = (case sl_op (fo_read ops) of None \<Rightarrow> [] | Some x \<Rightarrow> [x]) @
                (case sl_op (fo_write ops) of None \<Rightarrow> [] | Some x \<Rightarrow> [x])"

definition fr_drain_all :: "'a fd_registry \<Rightarrow> (int list \<times> 'a list) \<times> 'a fd_registry" where
  "fr_drain_all r =
     (if fr_operations r = [] then (([], []), r)
      else ((map int (filter (\<lambda>i. had_any (fr_operations r ! i)) [0..<length (fr_operations r)]),
             concat (map ops_of (fr_operations r))),
            r\<lparr>fr_operations := [], fr_active := 0\<rparr>))"

section \<open>Invariant\<close>

definition fd_ops_mset :: "'a fd_ops \<Rightarrow> 'a multiset" where
  "fd_ops_mset ops = opt_mset (sl_op (fo_read ops)) + opt_mset (sl_op (fo_write ops))"

definition fr_opsm :: "'a fd_registry \<Rightarrow> 'a multiset" where
  "fr_opsm r = (\<Sum>ops\<leftarrow>fr_operations r. fd_ops_mset ops)"

definition slot_ok :: "'a slot \<Rightarrow> bool" where
  "slot_ok s \<longleftrightarrow> (sl_op s \<noteq> None \<longrightarrow> \<not> sl_ready s) \<and> (sl_op s = None \<longrightarrow> sl_token s = invalid_token)"

definition fd_ops_ok :: "'a fd_ops \<Rightarrow> bool" where
  "fd_ops_ok ops \<longleftrightarrow> slot_ok (fo_read ops) \<and> slot_ok (fo_write ops) \<and>
     (\<not> fo_tracked ops \<longrightarrow> fo_read ops = slot_default \<and> fo_write ops = slot_default)"

definition fr_inv :: "'a fd_registry \<Rightarrow> bool" where
  "fr_inv r \<longleftrightarrow> fr_active r = size (fr_opsm r) \<and> (\<forall>ops \<in> set (fr_operations r). fd_ops_ok ops)"

lemma fd_ops_ok_default [simp]: "fd_ops_ok fd_ops_default"
  by (simp add: fd_ops_ok_def fd_ops_default_def slot_ok_def slot_default_def)

lemma fd_ops_mset_default [simp]: "fd_ops_mset fd_ops_default = {#}"
  by (simp add: fd_ops_mset_def fd_ops_default_def slot_default_def)

lemma sum_list_replicate_empty [simp]: "sum_list (replicate n {#}) = {#}"
  by (induction n) auto

lemma sum_list_update_mset:
  fixes f :: "'b \<Rightarrow> 'a multiset"
  shows "i < length xs \<Longrightarrow> (\<Sum>x\<leftarrow>xs[i := y]. f x) + f (xs ! i) = (\<Sum>x\<leftarrow>xs. f x) + f y"
proof (induction xs arbitrary: i)
  case (Cons a xs)
  then show ?case by (cases i) (auto simp: ac_simps)
qed simp

lemma fr_opsm_update:
  "i < length (fr_operations r) \<Longrightarrow>
     fr_opsm (r\<lparr>fr_operations := (fr_operations r)[i := ops]\<rparr>) + fd_ops_mset (fr_operations r ! i)
       = fr_opsm r + fd_ops_mset ops"
  by (simp add: fr_opsm_def sum_list_update_mset)

lemma fr_opsm_truncate [simp]:
  "fr_opsm (r\<lparr>fr_next_token := t\<rparr>) = fr_opsm r" "fr_opsm (r\<lparr>fr_active := a\<rparr>) = fr_opsm r"
  by (simp_all add: fr_opsm_def)

lemma fr_opsm_resize [simp]: "fr_opsm (fr_resize n r) = fr_opsm r"
  by (simp add: fr_opsm_def fr_resize_def)

lemma fr_inv_resize: "fr_inv r \<Longrightarrow> fr_inv (fr_resize n r)"
  by (auto simp: fr_inv_def) (auto simp: fr_resize_def)

lemma length_fr_resize: "length (fr_operations (fr_resize n r)) = max n (length (fr_operations r))"
  by (auto simp: fr_resize_def)

lemma fr_resize_nth:
  "i < length (fr_operations r) \<Longrightarrow> fr_operations (fr_resize n r) ! i = fr_operations r ! i"
  by (simp add: fr_resize_def nth_append)

lemma fr_resize_fields [simp]:
  "fr_next_token (fr_resize n r) = fr_next_token r" "fr_active (fr_resize n r) = fr_active r"
  by (simp_all add: fr_resize_def)

lemma fr_inv_init [inv_intro]: "fr_inv fd_registry_init"
  by (simp add: fr_inv_def fd_registry_init_def fr_opsm_def)

text \<open>Replacing one entry, with the count adjusted to what the entry then owns.\<close>

lemma fr_inv_replace:
  assumes inv: "fr_inv r" and i: "i < length (fr_operations r)" and ok: "fd_ops_ok ops"
    and count: "a + size (fd_ops_mset (fr_operations r ! i)) = fr_active r + size (fd_ops_mset ops)"
  shows "fr_inv (r\<lparr>fr_operations := (fr_operations r)[i := ops], fr_next_token := t, fr_active := a\<rparr>)"
proof -
  let ?r = "r\<lparr>fr_operations := (fr_operations r)[i := ops]\<rparr>"
  have "size (fr_opsm ?r) + size (fd_ops_mset (fr_operations r ! i)) = size (fr_opsm r) + size (fd_ops_mset ops)"
    using fr_opsm_update [OF i, of ops] by (metis size_union)
  moreover have "fr_active r = size (fr_opsm r)" using inv by (simp add: fr_inv_def)
  ultimately have "a = size (fr_opsm ?r)" using count by linarith
  moreover have "\<forall>x \<in> set ((fr_operations r)[i := ops]). fd_ops_ok x"
    using inv ok by (auto simp: fr_inv_def dest!: set_update_subset_insert [THEN subsetD])
  ultimately show ?thesis by (simp add: fr_inv_def fr_opsm_def)
qed

section \<open>Every operation keeps the invariant and conserves the operations\<close>

lemma slot_put_same [simp]: "slot_for (put_slot k s ops) k = s"
  by (simp add: slot_for_def put_slot_def)

lemma slot_put_other: "k' \<noteq> k \<Longrightarrow> slot_for (put_slot k s ops) k' = slot_for ops k'"
  by (cases k; cases k') (auto simp: slot_for_def put_slot_def)

lemma slot_for_tracked [simp]: "slot_for (ops\<lparr>fo_tracked := b\<rparr>) k = slot_for ops k"
  by (simp add: slot_for_def)

lemma fo_tracked_put [simp]: "fo_tracked (put_slot k s ops) = fo_tracked ops"
  by (simp add: put_slot_def)

lemma fd_ops_mset_put:
  "fd_ops_mset (put_slot k s ops) + opt_mset (sl_op (slot_for ops k)) = fd_ops_mset ops + opt_mset (sl_op s)"
  by (simp add: fd_ops_mset_def put_slot_def slot_for_def)

lemma fd_ops_mset_tracked [simp]: "fd_ops_mset (ops\<lparr>fo_tracked := b\<rparr>) = fd_ops_mset ops"
  by (simp add: fd_ops_mset_def)

lemma fd_ops_ok_slot: "fd_ops_ok ops \<Longrightarrow> slot_ok (slot_for ops k)"
  by (simp add: fd_ops_ok_def slot_for_def)

lemma fd_ops_ok_track: "fd_ops_ok ops \<Longrightarrow> fd_ops_ok (ops\<lparr>fo_tracked := True\<rparr>)"
  by (simp add: fd_ops_ok_def)

lemma fd_ops_ok_put:
  "fd_ops_ok ops \<Longrightarrow> slot_ok s \<Longrightarrow> fo_tracked ops \<or> s = slot_default \<Longrightarrow> fd_ops_ok (put_slot k s ops)"
  by (auto simp: fd_ops_ok_def put_slot_def)

lemma fr_inv_nth: "fr_inv r \<Longrightarrow> i < length (fr_operations r) \<Longrightarrow> fd_ops_ok (fr_operations r ! i)"
  by (simp add: fr_inv_def)

lemma fr_inv_op_tracked:
  "fr_inv r \<Longrightarrow> i < length (fr_operations r) \<Longrightarrow> sl_op (slot_for (fr_operations r ! i) k) \<noteq> None \<Longrightarrow>
     fo_tracked (fr_operations r ! i)"
  using fr_inv_nth [of r i] by (auto simp: fd_ops_ok_def slot_for_def slot_default_def split: if_splits)

text \<open>The three ways a registration can go: rejected, completed at once, or stored.\<close>

lemma fr_register_cases:
  assumes "fr_register fd op kind r = (res, r')"
  obtains (rejected) "r' = r" "res = \<lparr>rr_token = 0, rr_replaced = None, rr_ready_now = None\<rparr>"
      "fd < 0 \<or> op = None"
  | (now) r1 ops where "r1 = (if length (fr_operations r) \<le> nat fd then fr_resize (nat fd + 1) r else r)"
      "0 \<le> fd" "op \<noteq> None" "ops = (fr_operations r1 ! nat fd)\<lparr>fo_tracked := True\<rparr>"
      "sl_ready (slot_for ops kind)"
      "res = \<lparr>rr_token = 0, rr_replaced = None, rr_ready_now = op\<rparr>"
      "r' = r1\<lparr>fr_operations := (fr_operations r1)[nat fd :=
              put_slot kind ((slot_for ops kind)\<lparr>sl_ready := False\<rparr>) ops]\<rparr>"
  | (stored) r1 ops where "r1 = (if length (fr_operations r) \<le> nat fd then fr_resize (nat fd + 1) r else r)"
      "0 \<le> fd" "ops = (fr_operations r1 ! nat fd)\<lparr>fo_tracked := True\<rparr>"
      "op \<noteq> None \<longrightarrow> \<not> sl_ready (slot_for ops kind)"
      "res = \<lparr>rr_token = (if op \<noteq> None then fr_next_token r else 0),
              rr_replaced = sl_op (slot_for ops kind), rr_ready_now = None\<rparr>"
      "r' = r1\<lparr>fr_operations := (fr_operations r1)[nat fd :=
              put_slot kind ((slot_for ops kind)\<lparr>sl_op := op,
                sl_token := (if op \<noteq> None then fr_next_token r else invalid_token)\<rparr>) ops],
            fr_next_token := (if op \<noteq> None then fr_next_token r + 1 else fr_next_token r),
            fr_active := (if sl_op (slot_for ops kind) = None \<and> op \<noteq> None then fr_active r + 1
                          else if sl_op (slot_for ops kind) \<noteq> None \<and> op = None then fr_active r - 1
                          else fr_active r)\<rparr>"
proof -
  let ?r1 = "if length (fr_operations r) \<le> nat fd then fr_resize (nat fd + 1) r else r"
  let ?ops = "(fr_operations ?r1 ! nat fd)\<lparr>fo_tracked := True\<rparr>"
  have same: "fr_next_token ?r1 = fr_next_token r" "fr_active ?r1 = fr_active r" by simp_all
  consider (a) "fd < 0 \<or> (length (fr_operations r) \<le> nat fd \<and> op = None)"
    | (b) "0 \<le> fd" "\<not> (length (fr_operations r) \<le> nat fd \<and> op = None)" "op \<noteq> None \<and> sl_ready (slot_for ?ops kind)"
    | (c) "0 \<le> fd" "\<not> (length (fr_operations r) \<le> nat fd \<and> op = None)" "\<not> (op \<noteq> None \<and> sl_ready (slot_for ?ops kind))"
    by linarith
  then show ?thesis
  proof cases
    case a
    then have "fr_register fd op kind r = (\<lparr>rr_token = 0, rr_replaced = None, rr_ready_now = None\<rparr>, r)"
      by (cases "fd < 0") (simp_all add: fr_register_def)
    then show ?thesis using assms a by (intro rejected) auto
  next
    case b
    then show ?thesis using assms by (intro now [OF refl _ _ refl]) (auto simp: fr_register_def Let_def)
  next
    case c
    have "(res, r') = fr_register fd op kind r" using assms by simp
    also have "\<dots> = (\<lparr>rr_token = (if op \<noteq> None then fr_next_token r else 0),
              rr_replaced = sl_op (slot_for ?ops kind), rr_ready_now = None\<rparr>,
        ?r1\<lparr>fr_operations := (fr_operations ?r1)[nat fd :=
              put_slot kind ((slot_for ?ops kind)\<lparr>sl_op := op,
                sl_token := (if op \<noteq> None then fr_next_token r else invalid_token)\<rparr>) ?ops],
            fr_next_token := (if op \<noteq> None then fr_next_token r + 1 else fr_next_token r),
            fr_active := (if sl_op (slot_for ?ops kind) = None \<and> op \<noteq> None then fr_active r + 1
                          else if sl_op (slot_for ?ops kind) \<noteq> None \<and> op = None then fr_active r - 1
                          else fr_active r)\<rparr>)"
      unfolding fr_register_def Let_def same using c by (simp only: if_False not_less [symmetric] not_not)
    finally show ?thesis using c by (intro stored [OF refl _ refl]) auto
  qed
qed

lemma fr_grow:
  assumes "fr_inv r" and "0 \<le> fd"
  defines "r1 \<equiv> if length (fr_operations r) \<le> nat fd then fr_resize (nat fd + 1) r else r"
  shows "fr_inv r1" "nat fd < length (fr_operations r1)" "fr_opsm r1 = fr_opsm r"
    "fr_active r1 = fr_active r" "fr_next_token r1 = fr_next_token r"
    "fd_ops_ok (fr_operations r1 ! nat fd)"
proof -
  show inv: "fr_inv r1" using assms(1) by (simp add: r1_def fr_inv_resize)
  show len: "nat fd < length (fr_operations r1)" by (auto simp: r1_def length_fr_resize)
  show "fr_opsm r1 = fr_opsm r" "fr_active r1 = fr_active r" "fr_next_token r1 = fr_next_token r"
    by (simp_all add: r1_def)
  show "fd_ops_ok (fr_operations r1 ! nat fd)" using inv len by (rule fr_inv_nth)
qed

lemma fr_inv_replace_same_token:
  assumes "fr_inv r" and "i < length (fr_operations r)" and "fd_ops_ok ops"
    and "a + size (fd_ops_mset (fr_operations r ! i)) = fr_active r + size (fd_ops_mset ops)"
  shows "fr_inv (r\<lparr>fr_operations := (fr_operations r)[i := ops], fr_active := a\<rparr>)"
  using fr_inv_replace [OF assms, of "fr_next_token r"] by simp

lemma size_fd_ops_mset_put:
  "size (fd_ops_mset (put_slot k s ops)) + size (opt_mset (sl_op (slot_for ops k)))
     = size (fd_ops_mset ops) + size (opt_mset (sl_op s))"
  using fd_ops_mset_put by (metis size_union)

lemma active_pos:
  assumes "fr_inv r" and "i < length (fr_operations r)"
  shows "size (fd_ops_mset (fr_operations r ! i)) \<le> fr_active r"
proof -
  have "fd_ops_mset (fr_operations r ! i) \<subseteq># fr_opsm r"
    using fr_opsm_update [OF assms(2), of fd_ops_default] by (metis add_0_right fd_ops_mset_default mset_subset_eq_add_right)
  then show ?thesis using assms(1) by (simp add: fr_inv_def size_mset_mono)
qed

lemma fr_inv_register [inv_intro]:
  assumes inv: "fr_inv r" and reg: "fr_register fd op kind r = (res, r')"
  shows "fr_inv r'"
  using reg
proof (cases rule: fr_register_cases)
  case rejected
  then show ?thesis using inv by simp
next
  case (now r1 ops)
  note g = fr_grow [OF inv now(2), folded now(1)]
  have ok: "fd_ops_ok ops" using g(6) by (simp add: now(4) fd_ops_ok_track)
  have "sl_op (slot_for ops kind) = None" using fd_ops_ok_slot [OF ok, of kind] now(5) by (auto simp: slot_ok_def)
  then have ok': "fd_ops_ok (put_slot kind ((slot_for ops kind)\<lparr>sl_ready := False\<rparr>) ops)"
    using ok fd_ops_ok_slot [OF ok, of kind] by (intro fd_ops_ok_put) (auto simp: slot_ok_def now(4))
  show ?thesis
    using fr_inv_replace_same_token [OF g(1,2) ok', of "fr_active r1"]
      size_fd_ops_mset_put [of kind "(slot_for ops kind)\<lparr>sl_ready := False\<rparr>" ops]
    by (simp add: now(4,7))
next
  case (stored r1 ops)
  note g = fr_grow [OF inv stored(2), folded stored(1)]
  let ?s = "(slot_for ops kind)\<lparr>sl_op := op, sl_token := (if op \<noteq> None then fr_next_token r else invalid_token)\<rparr>"
  have ok: "fd_ops_ok ops" using g(6) by (simp add: stored(3) fd_ops_ok_track)
  have ok': "fd_ops_ok (put_slot kind ?s ops)"
    using ok stored(4) by (intro fd_ops_ok_put) (auto simp: slot_ok_def stored(3))
  have "sl_op (slot_for ops kind) \<noteq> None \<Longrightarrow> 0 < size (fd_ops_mset ops)"
    by (auto simp: slot_for_def fd_ops_mset_def split: if_splits)
  moreover have "size (fd_ops_mset ops) \<le> fr_active r" using active_pos [OF g(1,2)] g(4) by (simp add: stored(3))
  ultimately show ?thesis unfolding stored(6)
    using size_fd_ops_mset_put [of kind ?s ops] g(4)
    by (intro fr_inv_replace [OF g(1,2) ok']) (auto simp: stored(3) size_opt_mset split: if_splits)
qed

lemma fr_register_ops [ownership]:
  assumes inv: "fr_inv r" and reg: "fr_register fd op kind r = (res, r')" and "0 \<le> fd"
  shows "fr_opsm r + opt_mset op = fr_opsm r' + opt_mset (rr_replaced res) + opt_mset (rr_ready_now res)"
  using reg
proof (cases rule: fr_register_cases)
  case rejected
  then show ?thesis using assms by simp
next
  case (now r1 ops)
  note g = fr_grow [OF inv now(2), folded now(1)]
  have "fr_opsm r' + fd_ops_mset ops = fr_opsm r1 + fd_ops_mset (put_slot kind ((slot_for ops kind)\<lparr>sl_ready := False\<rparr>) ops)"
    using fr_opsm_update [OF g(2)] by (simp add: now(4,7))
  moreover have "fd_ops_mset (put_slot kind ((slot_for ops kind)\<lparr>sl_ready := False\<rparr>) ops) = fd_ops_mset ops"
    using fd_ops_mset_put [of kind "(slot_for ops kind)\<lparr>sl_ready := False\<rparr>" ops] by simp
  ultimately show ?thesis using g(3) by (simp add: now(6))
next
  case (stored r1 ops)
  note g = fr_grow [OF inv stored(2), folded stored(1)]
  let ?s = "(slot_for ops kind)\<lparr>sl_op := op, sl_token := (if op \<noteq> None then fr_next_token r else invalid_token)\<rparr>"
  have "fr_opsm r' + fd_ops_mset ops = fr_opsm r1 + fd_ops_mset (put_slot kind ?s ops)"
    using fr_opsm_update [OF g(2), of "put_slot kind ?s ops"] by (simp add: stored(3,6))
  then have "fr_opsm r' + fd_ops_mset ops + opt_mset (sl_op (slot_for ops kind)) = fr_opsm r1 + (fd_ops_mset ops + opt_mset op)"
    using fd_ops_mset_put [of kind ?s ops] by (simp add: ac_simps)
  then show ?thesis using g(3) by (simp add: stored(5) ac_simps)
qed

lemma fr_cancel_cases:
  assumes "fr_cancel fd kind tok r = ((op, m), r')"
  obtains (miss) "\<not> m" "op = None" "r' = r"
  | (hit) "m" "0 \<le> fd" "nat fd < length (fr_operations r)" "op \<noteq> None"
      "op = sl_op (slot_for (fr_operations r ! nat fd) kind)"
      "sl_token (slot_for (fr_operations r ! nat fd) kind) = tok"
      "r' = r\<lparr>fr_operations := (fr_operations r)[nat fd :=
           put_slot kind ((slot_for (fr_operations r ! nat fd) kind)\<lparr>sl_op := None, sl_token := invalid_token\<rparr>)
             (fr_operations r ! nat fd)], fr_active := fr_active r - 1\<rparr>"
proof (cases "fd < 0 \<or> length (fr_operations r) \<le> nat fd \<or>
    sl_op (slot_for (fr_operations r ! nat fd) kind) = None \<or>
    sl_token (slot_for (fr_operations r ! nat fd) kind) \<noteq> tok")
  case True
  then have "fr_cancel fd kind tok r = ((None, False), r)" by (auto simp: fr_cancel_def Let_def)
  with assms show ?thesis by (intro miss) auto
next
  case False
  with assms show ?thesis by (intro hit) (auto simp: fr_cancel_def Let_def)
qed

lemma fr_inv_cancel [inv_intro]:
  assumes inv: "fr_inv r" and c: "fr_cancel fd kind tok r = ((op, m), r')"
  shows "fr_inv r'"
  using c
proof (cases rule: fr_cancel_cases)
  case miss
  then show ?thesis using inv by simp
next
  case hit
  let ?ops = "fr_operations r ! nat fd"
  let ?s = "(slot_for ?ops kind)\<lparr>sl_op := None, sl_token := invalid_token\<rparr>"
  have ok: "fd_ops_ok ?ops" using inv hit(3) by (rule fr_inv_nth)
  have "fo_tracked ?ops" using fr_inv_op_tracked [OF inv hit(3), of kind] hit(4,5) by simp
  then have ok': "fd_ops_ok (put_slot kind ?s ?ops)"
    using ok by (intro fd_ops_ok_put) (auto simp: slot_ok_def)
  have "0 < size (fd_ops_mset ?ops)" using hit(4,5) by (auto simp: slot_for_def fd_ops_mset_def split: if_splits)
  then show ?thesis unfolding hit(7)
    using size_fd_ops_mset_put [of kind ?s ?ops] active_pos [OF inv hit(3)] hit(4,5)
    by (intro fr_inv_replace_same_token [OF inv hit(3) ok']) (auto simp: size_opt_mset)
qed

lemma fr_cancel_ops [ownership]:
  assumes c: "fr_cancel fd kind tok r = ((op, m), r')"
  shows "fr_opsm r = fr_opsm r' + opt_mset op"
  using c
proof (cases rule: fr_cancel_cases)
  case hit
  let ?ops = "fr_operations r ! nat fd"
  let ?s = "(slot_for ?ops kind)\<lparr>sl_op := None, sl_token := invalid_token\<rparr>"
  have "fr_opsm r' + fd_ops_mset ?ops = fr_opsm r + fd_ops_mset (put_slot kind ?s ?ops)"
    using fr_opsm_update [OF hit(3)] by (simp add: hit(7))
  moreover have "fd_ops_mset (put_slot kind ?s ?ops) + opt_mset op = fd_ops_mset ?ops"
    using fd_ops_mset_put [of kind ?s ?ops] hit(5) by simp
  ultimately have "fr_opsm r' + (fd_ops_mset (put_slot kind ?s ?ops) + opt_mset op)
      = fr_opsm r + fd_ops_mset (put_slot kind ?s ?ops)" by simp
  then show ?thesis by (simp add: ac_simps)
qed simp

lemma cleared_entry:
  "ops\<lparr>fo_read := (fo_read ops)\<lparr>sl_op := None, sl_token := invalid_token, sl_ready := False\<rparr>,
       fo_write := (fo_write ops)\<lparr>sl_op := None, sl_token := invalid_token, sl_ready := False\<rparr>,
       fo_tracked := False\<rparr> = fd_ops_default"
  by (cases ops) (simp add: fd_ops_default_def slot_default_def)

lemma fr_deregister_cases:
  assumes "fr_deregister fd r = ((rd, wr), r')"
  obtains (miss) "rd = None" "wr = None" "r' = r" "fd < 0 \<or> length (fr_operations r) \<le> nat fd"
  | (hit) "0 \<le> fd" "nat fd < length (fr_operations r)"
      "rd = sl_op (fo_read (fr_operations r ! nat fd))" "wr = sl_op (fo_write (fr_operations r ! nat fd))"
      "r' = r\<lparr>fr_operations := (fr_operations r)[nat fd := fd_ops_default],
             fr_active := fr_active r - size (opt_mset rd) - size (opt_mset wr)\<rparr>"
proof (cases "0 \<le> fd \<and> nat fd < length (fr_operations r)")
  case True
  then show ?thesis using assms
    by (intro hit) (auto simp: fr_deregister_def Let_def cleared_entry size_opt_mset split: if_splits)
next
  case False
  then show ?thesis using assms by (intro miss) (auto simp: fr_deregister_def)
qed

lemma fr_inv_deregister [inv_intro]:
  assumes inv: "fr_inv r" and d: "fr_deregister fd r = ((rd, wr), r')"
  shows "fr_inv r'"
  using d
proof (cases rule: fr_deregister_cases)
  case miss
  then show ?thesis using inv by simp
next
  case hit
  have "size (fd_ops_mset (fr_operations r ! nat fd)) = size (opt_mset rd) + size (opt_mset wr)"
    by (simp add: fd_ops_mset_def hit(3,4))
  then show ?thesis unfolding hit(5) using active_pos [OF inv hit(2)]
    by (intro fr_inv_replace_same_token [OF inv hit(2)]) auto
qed

lemma fr_deregister_ops [ownership]:
  assumes d: "fr_deregister fd r = ((rd, wr), r')"
  shows "fr_opsm r = fr_opsm r' + opt_mset rd + opt_mset wr"
  using d
proof (cases rule: fr_deregister_cases)
  case hit
  then show ?thesis using fr_opsm_update [OF hit(2), of fd_ops_default]
    by (simp add: fd_ops_mset_def [of "fr_operations r ! nat fd"] ac_simps)
qed simp

lemma fr_track_spec:
  assumes "fr_inv r"
  shows "fr_inv (fr_track fd r) \<and> fr_opsm (fr_track fd r) = fr_opsm r \<and> fr_active (fr_track fd r) = fr_active r"
proof (cases "fd < 0")
  case True
  then show ?thesis using assms by (simp add: fr_track_def)
next
  case False
  define r1 where "r1 = (if length (fr_operations r) \<le> nat fd then fr_resize (nat fd + 1) r else r)"
  have "0 \<le> fd" using False by simp
  note g = fr_grow [OF assms this, folded r1_def]
  let ?ops = "(fr_operations r1 ! nat fd)\<lparr>fo_tracked := True\<rparr>"
  have eq: "fr_track fd r = r1\<lparr>fr_operations := (fr_operations r1)[nat fd := ?ops]\<rparr>"
    using False by (simp add: fr_track_def Let_def r1_def)
  show ?thesis unfolding eq
    using fr_inv_replace_same_token [OF g(1,2) fd_ops_ok_track [OF g(6)], of "fr_active r1"]
      fr_opsm_update [OF g(2), of ?ops] g(3,4) by (simp add: fr_inv_def fr_opsm_def)
qed

lemma take_slot_spec:
  assumes "take_slot s = (op, s')" and "slot_ok s"
  shows "slot_ok s'" "op = sl_op s" "sl_op s' = None"
  using assms by (auto simp: take_slot_def slot_ok_def split: if_splits)

lemma take_ready_cases:
  assumes inv: "fr_inv r" and t: "take_ready fd cr cw r = ((rd, wr), r')"
  obtains (miss) "rd = None" "wr = None" "r' = r"
      "fd < 0 \<or> length (fr_operations r) \<le> nat fd \<or> \<not> fo_tracked (fr_operations r ! nat fd)"
  | (hit) ops' where "0 \<le> fd" "nat fd < length (fr_operations r)" "fo_tracked (fr_operations r ! nat fd)"
      "rd = (if cr then sl_op (fo_read (fr_operations r ! nat fd)) else None)"
      "wr = (if cw then sl_op (fo_write (fr_operations r ! nat fd)) else None)"
      "fd_ops_ok ops'" "fo_tracked ops'"
      "fo_read ops' = (if cr then snd (take_slot (fo_read (fr_operations r ! nat fd))) else fo_read (fr_operations r ! nat fd))"
      "fo_write ops' = (if cw then snd (take_slot (fo_write (fr_operations r ! nat fd))) else fo_write (fr_operations r ! nat fd))"
      "fd_ops_mset (fr_operations r ! nat fd) = fd_ops_mset ops' + opt_mset rd + opt_mset wr"
      "r' = r\<lparr>fr_operations := (fr_operations r)[nat fd := ops'],
             fr_active := fr_active r - size (opt_mset rd) - size (opt_mset wr)\<rparr>"
proof (cases "0 \<le> fd \<and> nat fd < length (fr_operations r) \<and> fo_tracked (fr_operations r ! nat fd)")
  case True
  let ?ops = "fr_operations r ! nat fd"
  obtain rd1 rs where rs: "(if cr then take_slot (fo_read ?ops) else (None, fo_read ?ops)) = (rd1, rs)" by fastforce
  obtain wr1 ws where ws: "(if cw then take_slot (fo_write ?ops) else (None, fo_write ?ops)) = (wr1, ws)" by fastforce
  have ok: "slot_ok (fo_read ?ops)" "slot_ok (fo_write ?ops)" using fr_inv_nth [OF inv] True by (auto simp: fd_ops_ok_def)
  have res: "take_ready fd cr cw r = ((rd1, wr1), r\<lparr>fr_operations := (fr_operations r)[nat fd := ?ops\<lparr>fo_read := rs, fo_write := ws\<rparr>],
      fr_active := fr_active r - size (opt_mset rd1) - size (opt_mset wr1)\<rparr>)"
    using True by (cases rd1; cases wr1) (simp_all add: take_ready_def rs ws Let_def)
  note eqs = t [unfolded res prod.inject]
  have eq: "rd1 = rd" "wr1 = wr" using eqs by blast+
  note r' = eqs [THEN conjunct2, symmetric, unfolded eq]
  have rd: "slot_ok rs" "rd = (if cr then sl_op (fo_read ?ops) else None)"
      "opt_mset (sl_op (fo_read ?ops)) = opt_mset (sl_op rs) + opt_mset rd"
      "rs = (if cr then snd (take_slot (fo_read ?ops)) else fo_read ?ops)"
    using rs ok(1) take_slot_spec [of "fo_read ?ops" rd1 rs] eq by (cases cr; auto)+
  have wr: "slot_ok ws" "wr = (if cw then sl_op (fo_write ?ops) else None)"
      "opt_mset (sl_op (fo_write ?ops)) = opt_mset (sl_op ws) + opt_mset wr"
      "ws = (if cw then snd (take_slot (fo_write ?ops)) else fo_write ?ops)"
    using ws ok(2) take_slot_spec [of "fo_write ?ops" wr1 ws] eq by (cases cw; auto)+
  have ok': "fd_ops_ok (?ops\<lparr>fo_read := rs, fo_write := ws\<rparr>)" using rd(1) wr(1) True by (simp add: fd_ops_ok_def)
  have ms: "fd_ops_mset ?ops = fd_ops_mset (?ops\<lparr>fo_read := rs, fo_write := ws\<rparr>) + opt_mset rd + opt_mset wr"
    using rd(3) wr(3) by (simp add: fd_ops_mset_def ac_simps)
  show ?thesis using True rd(4) wr(4)
    by (intro hit [OF _ _ _ rd(2) wr(2) ok' _ _ _ ms r']) simp_all
next
  case False
  then have "take_ready fd cr cw r = ((None, None), r)" by (auto simp: take_ready_def)
  with False t show ?thesis by (intro miss) auto
qed

lemma fr_inv_take_ready [inv_intro]:
  assumes inv: "fr_inv r" and t: "take_ready fd cr cw r = ((rd, wr), r')"
  shows "fr_inv r'"
  using inv t
proof (cases rule: take_ready_cases)
  case miss
  then show ?thesis using inv by simp
next
  case (hit ops')
  have "size (fd_ops_mset (fr_operations r ! nat fd)) = size (fd_ops_mset ops') + size (opt_mset rd) + size (opt_mset wr)"
    using hit(10) by simp
  then show ?thesis unfolding hit(11) using active_pos [OF inv hit(2)]
    by (intro fr_inv_replace_same_token [OF inv hit(2,6)]) auto
qed

lemma take_ready_ops [ownership]:
  assumes inv: "fr_inv r" and t: "take_ready fd cr cw r = ((rd, wr), r')"
  shows "fr_opsm r = fr_opsm r' + opt_mset rd + opt_mset wr"
  using inv t
proof (cases rule: take_ready_cases)
  case (hit ops')
  have "fr_opsm r' + fd_ops_mset (fr_operations r ! nat fd) = fr_opsm r + fd_ops_mset ops'"
    using fr_opsm_update [OF hit(2)] by (simp add: hit(11))
  then show ?thesis using hit(10) by (simp add: ac_simps)
qed simp

lemma mset_ops_of [simp]: "mset (ops_of ops) = fd_ops_mset ops"
  by (auto simp: ops_of_def fd_ops_mset_def split: option.splits)

lemma fr_drain_all_ops [ownership]: "fr_drain_all r = ((fds, out), r') \<Longrightarrow> fr_opsm r = mset out + fr_opsm r'"
  by (auto simp: fr_drain_all_def fr_opsm_def mset_concat comp_def split: if_splits)

lemma fr_inv_drain_all [inv_intro]: "fr_inv r \<Longrightarrow> fr_drain_all r = ((fds, out), r') \<Longrightarrow> fr_inv r'"
  by (auto simp: fr_drain_all_def fr_inv_def fr_opsm_def split: if_splits)

lemma fr_drain_all_empty: "fr_inv r \<Longrightarrow> fr_drain_all r = ((fds, out), r') \<Longrightarrow> fr_empty r' \<and> fr_opsm r' = {#}"
  by (auto simp: fr_drain_all_def fr_inv_def fr_opsm_def fr_empty_def split: if_splits)

lemma fr_empty_iff: "fr_inv r \<Longrightarrow> fr_empty r \<longleftrightarrow> fr_opsm r = {#}"
  by (simp add: fr_empty_def fr_inv_def)

section \<open>Sequences of calls\<close>

datatype 'a fd_call =
    Register int 'a fd_event_kind | Cancel int fd_event_kind u64 | Deregister int | Track int
  | Take_ready int bool bool | Drain

fun fd_apply :: "'a fd_call \<Rightarrow> 'a fd_registry \<Rightarrow> 'a fd_registry" where
  "fd_apply (Register fd op kind) r = snd (fr_register fd (Some op) kind r)"
| "fd_apply (Cancel fd kind tok) r = snd (fr_cancel fd kind tok r)"
| "fd_apply (Deregister fd) r = snd (fr_deregister fd r)"
| "fd_apply (Track fd) r = fr_track fd r"
| "fd_apply (Take_ready fd cr cw) r = snd (take_ready fd cr cw r)"
| "fd_apply Drain r = snd (fr_drain_all r)"

text \<open>The operations a call hands back to its caller: completed, replaced, cancelled or drained.\<close>

fun fd_returned :: "'a fd_call \<Rightarrow> 'a fd_registry \<Rightarrow> 'a multiset" where
  "fd_returned (Register fd op kind) r =
     (let res = fst (fr_register fd (Some op) kind r)
      in opt_mset (rr_replaced res) + opt_mset (rr_ready_now res))"
| "fd_returned (Cancel fd kind tok) r = opt_mset (fst (fst (fr_cancel fd kind tok r)))"
| "fd_returned (Deregister fd) r = (let (rd, wr) = fst (fr_deregister fd r) in opt_mset rd + opt_mset wr)"
| "fd_returned (Track fd) r = {#}"
| "fd_returned (Take_ready fd cr cw) r = (let (rd, wr) = fst (take_ready fd cr cw r) in opt_mset rd + opt_mset wr)"
| "fd_returned Drain r = mset (snd (fst (fr_drain_all r)))"

text \<open>The operations a call takes in. A negative descriptor is refused before.\<close>

fun fd_taken :: "'a fd_call \<Rightarrow> 'a multiset" where
  "fd_taken (Register fd op kind) = (if fd < 0 then {#} else {#op#})"
| "fd_taken _ = {#}"

lemma fd_apply_step:
  assumes inv: "fr_inv r"
  shows "fr_inv (fd_apply c r) \<and> fr_opsm r + fd_taken c = fr_opsm (fd_apply c r) + fd_returned c r"
proof (cases c)
  case (Register fd op kind)
  obtain res r' where reg: "fr_register fd (Some op) kind r = (res, r')" by (metis surj_pair)
  have "fr_opsm r + {#op#} = fr_opsm r' + opt_mset (rr_replaced res) + opt_mset (rr_ready_now res)" if "0 \<le> fd"
    using fr_register_ops [OF inv reg that] by simp
  moreover have "r' = r \<and> rr_replaced res = None \<and> rr_ready_now res = None" if "fd < 0"
    using reg that by (auto simp: fr_register_def)
  ultimately show ?thesis using Register reg fr_inv_register [OF inv reg]
    by (auto simp: ac_simps Let_def)
next
  case (Cancel fd kind tok)
  obtain op m r' where "fr_cancel fd kind tok r = ((op, m), r')" by (metis surj_pair)
  then show ?thesis using Cancel fr_inv_cancel [OF inv] fr_cancel_ops by fastforce
next
  case (Deregister fd)
  obtain rd wr r' where "fr_deregister fd r = ((rd, wr), r')" by (metis surj_pair)
  then show ?thesis using Deregister fr_inv_deregister [OF inv] fr_deregister_ops [of fd r rd wr r']
    by (simp add: Let_def ac_simps)
next
  case (Take_ready fd cr cw)
  obtain rd wr r' where "take_ready fd cr cw r = ((rd, wr), r')" by (metis surj_pair)
  then show ?thesis using Take_ready fr_inv_take_ready [OF inv] take_ready_ops [OF inv, of fd cr cw rd wr r']
    by (simp add: Let_def ac_simps)
next
  case Drain
  obtain fds out r' where "fr_drain_all r = ((fds, out), r')" by (metis surj_pair)
  then show ?thesis using Drain fr_inv_drain_all [OF inv] fr_drain_all_ops [of r fds out r'] by (simp add: ac_simps)
qed (simp add: fr_track_spec inv)

lemma fr_inv_fold: "fr_inv r \<Longrightarrow> fr_inv (fold fd_apply cs r)"
  by (induction cs arbitrary: r) (simp_all add: fd_apply_step)

fun fd_returned_all :: "'a fd_call list \<Rightarrow> 'a fd_registry \<Rightarrow> 'a multiset" where
  "fd_returned_all [] r = {#}"
| "fd_returned_all (c # cs) r = fd_returned c r + fd_returned_all cs (fd_apply c r)"

section \<open>Tokens\<close>

text \<open>The slot of a descriptor; beyond the vector it is the fresh one that growing appends.\<close>

definition slot_at :: "'a fd_registry \<Rightarrow> int \<Rightarrow> fd_event_kind \<Rightarrow> 'a slot" where
  "slot_at r fd kind =
     (if nat fd < length (fr_operations r) then slot_for (fr_operations r ! nat fd) kind else slot_default)"

lemma slot_at_resize [simp]: "slot_at (fr_resize n r) fd kind = slot_at r fd kind"
  by (auto simp: slot_at_def fr_resize_def nth_append slot_for_def fd_ops_default_def)

lemma slot_at_update:
  assumes "nat fd' < length (fr_operations r)" "0 \<le> fd'" "0 \<le> fd"
  shows "slot_at (r\<lparr>fr_operations := (fr_operations r)[nat fd' := ops]\<rparr>) fd kind =
     (if fd = fd' then slot_for ops kind else slot_at r fd kind)"
  using assms by (auto simp: slot_at_def nth_list_update eq_nat_nat_iff)

lemma slot_at_more [simp]:
  "slot_at (r\<lparr>fr_next_token := t\<rparr>) fd kind = slot_at r fd kind"
  "slot_at (r\<lparr>fr_active := a\<rparr>) fd kind = slot_at r fd kind"
  by (simp_all add: slot_at_def)

lemma slot_for_put: "slot_for (put_slot k' s ops) k = (if k = k' then s else slot_for ops k)"
  by (simp add: slot_put_other)

text \<open>How one call can change the registration in a slot: not at all, to none, or to one with the next token.\<close>

definition registration_follows :: "'a fd_registry \<Rightarrow> 'a fd_registry \<Rightarrow> int \<Rightarrow> fd_event_kind \<Rightarrow> bool" where
  "registration_follows r r' fd kind \<longleftrightarrow>
     (let s = slot_at r fd kind; s' = slot_at r' fd kind
      in (sl_op s' = sl_op s \<and> sl_token s' = sl_token s \<or> sl_op s' = None \<or> sl_token s' = fr_next_token r) \<and>
         (fr_next_token r' = fr_next_token r \<or> fr_next_token r' = fr_next_token r + 1) \<and>
         (sl_token s' = fr_next_token r \<and> sl_op s' \<noteq> None \<longrightarrow>
            sl_op s' = sl_op s \<and> sl_token s' = sl_token s \<or> fr_next_token r' = fr_next_token r + 1))"

lemma slot_at_put:
  assumes "nat fd' < length (fr_operations r)" "0 \<le> fd'" "0 \<le> fd"
    and "ops = (fr_operations r ! nat fd')\<lparr>fo_tracked := b\<rparr>"
  shows "slot_at (r\<lparr>fr_operations := (fr_operations r)[nat fd' := put_slot kind' s ops]\<rparr>) fd kind =
     (if fd = fd' \<and> kind = kind' then s else slot_at r fd kind)"
  using assms by (auto simp: slot_at_update slot_for_put) (simp add: slot_at_def)

lemma slot_at_nth: "nat fd < length (fr_operations r) \<Longrightarrow> slot_for (fr_operations r ! nat fd) kind = slot_at r fd kind"
  by (simp add: slot_at_def)

lemma fr_register_follows:
  assumes inv: "fr_inv r" and fd: "0 \<le> fd" and reg: "fr_register fd' op kind' r = (res, r')"
  shows "registration_follows r r' fd kind"
  using reg
proof (cases rule: fr_register_cases)
  case rejected
  then show ?thesis by (simp add: registration_follows_def)
next
  case (now r1 ops)
  have len: "nat fd' < length (fr_operations r1)" and next1: "fr_next_token r1 = fr_next_token r"
    using fr_grow [OF inv \<open>0 \<le> fd'\<close>] now(1) by simp_all
  have same: "slot_at r1 f k = slot_at r f k" for f k using now(1) by simp
  have "slot_for ops kind' = slot_at r fd' kind'" using len by (simp add: now(4) slot_at_nth same)
  then have "slot_at r' fd kind = (if fd = fd' \<and> kind = kind'
      then (slot_at r fd kind)\<lparr>sl_ready := False\<rparr> else slot_at r fd kind)"
    using slot_at_put [OF len now(2) fd now(4)] by (simp add: now(7) same)
  moreover have "fr_next_token r' = fr_next_token r" using now(7) next1 by simp
  ultimately show ?thesis by (simp add: registration_follows_def Let_def)
next
  case (stored r1 ops)
  have len: "nat fd' < length (fr_operations r1)"
    using fr_grow [OF inv \<open>0 \<le> fd'\<close>] stored(1) by simp_all
  have same: "slot_at r1 f k = slot_at r f k" for f k using stored(1) by simp
  have "slot_for ops kind' = slot_at r fd' kind'" using len by (simp add: stored(3) slot_at_nth same)
  then have "slot_at r' fd kind = (if fd = fd' \<and> kind = kind'
      then (slot_at r fd kind)\<lparr>sl_op := op,
        sl_token := (if op \<noteq> None then fr_next_token r else invalid_token)\<rparr> else slot_at r fd kind)"
    using slot_at_put [OF len stored(2) fd stored(3)] by (simp add: stored(6) same)
  moreover have "fr_next_token r' = (if op \<noteq> None then fr_next_token r + 1 else fr_next_token r)"
    using stored(6) by simp
  ultimately show ?thesis by (auto simp: registration_follows_def Let_def)
qed

text \<open>All other calls leave the counter alone and at most empty a slot.\<close>

definition only_clears :: "'a fd_registry \<Rightarrow> 'a fd_registry \<Rightarrow> int \<Rightarrow> fd_event_kind \<Rightarrow> bool" where
  "only_clears r r' fd kind \<longleftrightarrow> fr_next_token r' = fr_next_token r \<and>
     (let s = slot_at r fd kind; s' = slot_at r' fd kind
      in sl_op s' = sl_op s \<and> sl_token s' = sl_token s \<or> sl_op s' = None)"

lemma only_clears_follows: "only_clears r r' fd kind \<Longrightarrow> registration_follows r r' fd kind"
  by (auto simp: only_clears_def registration_follows_def Let_def)

lemma fr_cancel_clears:
  assumes fd: "0 \<le> fd" and c: "fr_cancel fd' kind' tok r = ((op, m), r')"
  shows "only_clears r r' fd kind"
  using c
proof (cases rule: fr_cancel_cases)
  case hit
  then show ?thesis using fd
    by (auto simp: only_clears_def slot_at_update slot_for_put slot_at_nth Let_def)
qed (simp add: only_clears_def)

lemma fr_deregister_clears:
  assumes fd: "0 \<le> fd" and d: "fr_deregister fd' r = ((rd, wr), r')"
  shows "only_clears r r' fd kind"
  using d
proof (cases rule: fr_deregister_cases)
  case hit
  then show ?thesis using fd
    by (auto simp: only_clears_def slot_at_update Let_def fd_ops_default_def slot_for_def slot_default_def)
qed (simp add: only_clears_def)

lemma fr_track_slot:
  assumes "fr_inv r" "0 \<le> fd"
  shows "slot_at (fr_track fd' r) fd kind = slot_at r fd kind" "fr_next_token (fr_track fd' r) = fr_next_token r"
proof -
  define r1 where "r1 = (if length (fr_operations r) \<le> nat fd' then fr_resize (nat fd' + 1) r else r)"
  have "slot_at (r1\<lparr>fr_operations := (fr_operations r1)[nat fd' := (fr_operations r1 ! nat fd')\<lparr>fo_tracked := True\<rparr>]\<rparr>) fd kind
    = slot_at r fd kind" if "0 \<le> fd'"
  proof -
    have len: "nat fd' < length (fr_operations r1)" using fr_grow(2) [OF assms(1) that] by (simp add: r1_def)
    show ?thesis using slot_at_update [OF len that assms(2)] len by (simp add: slot_at_nth) (simp add: r1_def)
  qed
  then show "slot_at (fr_track fd' r) fd kind = slot_at r fd kind"
    by (auto simp: fr_track_def Let_def r1_def)
  show "fr_next_token (fr_track fd' r) = fr_next_token r" by (simp add: fr_track_def Let_def)
qed

lemma take_slot_clears: "sl_op (snd (take_slot s)) = None"
  by (simp add: take_slot_def)

lemma take_ready_clears:
  assumes inv: "fr_inv r" and fd: "0 \<le> fd" and t: "take_ready fd' cr cw r = ((rd, wr), r')"
  shows "only_clears r r' fd kind"
  using inv t
proof (cases rule: take_ready_cases)
  case (hit ops')
  have "slot_at r' fd kind = (if fd = fd' then slot_for ops' kind else slot_at r fd kind)"
    using hit(1,2) fd by (simp add: hit(11) slot_at_update)
  moreover have "sl_op (slot_for ops' kind) = None \<or> slot_for ops' kind = slot_at r fd' kind"
    using hit(2,8,9) by (simp add: slot_for_def slot_at_def take_slot_clears)
  ultimately show ?thesis using hit(11) by (auto simp: only_clears_def Let_def)
qed (simp add: only_clears_def)

lemma fr_drain_all_clears: "0 \<le> fd \<Longrightarrow> only_clears r (snd (fr_drain_all r)) fd kind"
  by (simp add: fr_drain_all_def only_clears_def slot_at_def slot_default_def Let_def)

lemma fd_apply_follows:
  assumes inv: "fr_inv r" and fd: "0 \<le> fd"
  shows "registration_follows r (fd_apply c r) fd kind"
proof (cases c)
  case (Register fd' op kind')
  then show ?thesis using fr_register_follows [OF inv fd] by (metis fd_apply.simps(1) surj_pair snd_conv)
next
  case (Cancel fd' kind' tok)
  then show ?thesis using fr_cancel_clears [OF fd]
    by (metis fd_apply.simps(2) only_clears_follows surj_pair snd_conv)
next
  case (Deregister fd')
  then show ?thesis using fr_deregister_clears [OF fd]
    by (metis fd_apply.simps(3) only_clears_follows surj_pair snd_conv)
next
  case (Track fd')
  then show ?thesis using fr_track_slot [OF inv fd] by (simp add: registration_follows_def Let_def)
next
  case (Take_ready fd' cr cw)
  then show ?thesis using take_ready_clears [OF inv fd]
    by (metis fd_apply.simps(5) only_clears_follows surj_pair snd_conv)
next
  case Drain
  then show ?thesis by (simp add: only_clears_follows fr_drain_all_clears fd)
qed

text \<open>A token once issued for a slot is not issued again before the counter wraps.\<close>

lemma fd_fold_token:
  assumes inv: "fr_inv r" and fd: "0 \<le> fd"
    and tok: "fr_next_token r = tok + 1" "unat tok + 1 + length cs < 2 ^ 64"
    and now: "sl_op (slot_at r fd kind) = Some op"
  shows "unat tok < unat (fr_next_token (fold fd_apply cs r)) \<and>
     unat (fr_next_token (fold fd_apply cs r)) \<le> unat tok + 1 + length cs \<and>
     (sl_token (slot_at (fold fd_apply cs r) fd kind) = tok \<longrightarrow>
      sl_op (slot_at (fold fd_apply cs r) fd kind) \<in> {None, Some op})"
  using tok(2)
proof (induction cs rule: rev_induct)
  case Nil
  then have "unat (tok + 1) = unat tok + 1" by (simp add: unat_word_ariths)
  then show ?case using tok now by simp
next
  case (snoc c cs)
  let ?r = "fold fd_apply cs r"
  let ?n = "fr_next_token ?r"
  have IH: "unat tok < unat ?n" "unat ?n \<le> unat tok + 1 + length cs"
    "sl_token (slot_at ?r fd kind) = tok \<longrightarrow> sl_op (slot_at ?r fd kind) \<in> {None, Some op}"
    using snoc by auto
  have f: "registration_follows ?r (fd_apply c ?r) fd kind"
    using fd_apply_follows [OF fr_inv_fold [OF inv] fd] .
  have "unat (?n + 1) = unat ?n + 1" using IH(2) snoc.prems by (simp add: unat_word_ariths)
  then have "unat tok < unat (fr_next_token (fd_apply c ?r))"
    "unat (fr_next_token (fd_apply c ?r)) \<le> unat tok + 1 + length (cs @ [c])"
    using f IH(1,2) by (auto simp: registration_follows_def Let_def)
  moreover have "tok \<noteq> ?n" using IH(1) by auto
  then have "sl_token (slot_at (fd_apply c ?r) fd kind) = tok \<longrightarrow>
      sl_op (slot_at (fd_apply c ?r) fd kind) \<in> {None, Some op}"
    using f IH(3) by (auto simp: registration_follows_def Let_def)
  ultimately show ?case by simp
qed

lemma fr_cancel_hit:
  assumes "fr_cancel fd kind tok r = ((x, True), r')"
  shows "x \<noteq> None" "x = sl_op (slot_at r fd kind)" "sl_token (slot_at r fd kind) = tok"
  using assms by (auto elim!: fr_cancel_cases simp: slot_at_nth)

section \<open>Readiness latches\<close>

fun call_fd :: "'a fd_call \<Rightarrow> int option" where
  "call_fd (Register fd op kind) = Some fd"
| "call_fd (Cancel fd kind tok) = Some fd"
| "call_fd (Deregister fd) = Some fd"
| "call_fd (Track fd) = Some fd"
| "call_fd (Take_ready fd cr cw) = Some fd"
| "call_fd Drain = None"

lemma fr_register_other:
  assumes inv: "fr_inv r" and fd: "0 \<le> fd" "fd \<noteq> fd'" and reg: "fr_register fd' op kind' r = (res, r')"
  shows "slot_at r' fd kind = slot_at r fd kind"
  using reg
proof (cases rule: fr_register_cases)
  case (now r1 ops)
  then show ?thesis using slot_at_put [OF _ now(2) fd(1) now(4)] fr_grow(2) [OF inv \<open>0 \<le> fd'\<close>] fd(2)
    by simp
next
  case (stored r1 ops)
  then show ?thesis using slot_at_put [OF _ stored(2) fd(1) stored(3)] fr_grow(2) [OF inv \<open>0 \<le> fd'\<close>] fd(2)
    by simp
qed simp

lemma fd_apply_other:
  assumes inv: "fr_inv r" and fd: "0 \<le> fd" and c: "call_fd c \<noteq> None" "call_fd c \<noteq> Some fd"
  shows "slot_at (fd_apply c r) fd kind = slot_at r fd kind"
proof (cases c)
  case (Register fd' op kind')
  then show ?thesis using fr_register_other [OF inv fd] c by (metis fd_apply.simps(1) call_fd.simps(1) surj_pair snd_conv)
next
  case (Cancel fd' kind' tok)
  obtain op m r' where *: "fr_cancel fd' kind' tok r = ((op, m), r')" by (metis surj_pair)
  then have "slot_at r' fd kind = slot_at r fd kind"
    using Cancel c fd by (cases rule: fr_cancel_cases) (auto simp: slot_at_update)
  then show ?thesis using * Cancel by simp
next
  case (Deregister fd')
  obtain rd wr r' where *: "fr_deregister fd' r = ((rd, wr), r')" by (metis surj_pair)
  then have "slot_at r' fd kind = slot_at r fd kind"
    using Deregister c fd by (cases rule: fr_deregister_cases) (auto simp: slot_at_update)
  then show ?thesis using * Deregister by simp
next
  case (Take_ready fd' cr cw)
  obtain rd wr r' where *: "take_ready fd' cr cw r = ((rd, wr), r')" by (metis surj_pair)
  from inv * have "slot_at r' fd kind = slot_at r fd kind"
    using Take_ready c fd by (cases rule: take_ready_cases) (auto simp: slot_at_update)
  then show ?thesis using * Take_ready by simp
qed (use c fr_track_slot [OF inv fd] in auto)

lemma fd_fold_other:
  assumes "fr_inv r" "0 \<le> fd" "\<forall>c \<in> set cs. call_fd c \<noteq> None \<and> call_fd c \<noteq> Some fd"
  shows "slot_at (fold fd_apply cs r) fd kind = slot_at r fd kind"
  using assms
proof (induction cs arbitrary: r)
  case (Cons c cs)
  then show ?case using fd_apply_step [of r c] fd_apply_other [of r fd c] by simp
qed simp

lemma fr_register_latched:
  assumes "0 \<le> fd" "sl_ready (slot_at r fd kind)"
  shows "rr_ready_now (fst (fr_register fd (Some op) kind r)) = Some op"
    "rr_replaced (fst (fr_register fd (Some op) kind r)) = None"
    "\<not> sl_ready (slot_at (snd (fr_register fd (Some op) kind r)) fd kind)"
proof -
  have len: "nat fd < length (fr_operations r)" and rdy: "sl_ready (slot_for (fr_operations r ! nat fd) kind)"
    using assms(2) by (auto simp: slot_at_def slot_default_def split: if_splits)
  then show "rr_ready_now (fst (fr_register fd (Some op) kind r)) = Some op"
    "rr_replaced (fst (fr_register fd (Some op) kind r)) = None"
    "\<not> sl_ready (slot_at (snd (fr_register fd (Some op) kind r)) fd kind)"
    using assms(1) by (simp_all add: fr_register_def Let_def slot_at_def)
qed

section \<open>Properties\<close>

text \<open>
  Under every sequence of calls the active count is exactly the number of waiting
  operations (so its decrements never underflow and \<open>empty()\<close> is right), no slot holds
  both a waiter and a readiness latch, an empty slot has no token, and an untracked
  descriptor has neither waiters nor latches.
\<close>

lemma fd_registry_invariant:
  "fr_inv (fold fd_apply cs fd_registry_init) \<and>
   (fr_empty (fold fd_apply cs fd_registry_init) \<longleftrightarrow> fr_opsm (fold fd_apply cs fd_registry_init) = {#})"
  using fr_inv_fold [OF fr_inv_init] fr_empty_iff by blast

text \<open>
  (C21) No operation is lost or handed out twice: over every sequence of calls, the
  operations registered are, as multisets, those handed back (completed, replaced,
  cancelled, deregistered or drained) together with those still waiting.
\<close>

theorem fd_registry_conserves:
  "sum_list (map fd_taken cs) = fd_returned_all cs fd_registry_init + fr_opsm (fold fd_apply cs fd_registry_init)"
proof -
  have "fr_opsm r + sum_list (map fd_taken cs) = fd_returned_all cs r + fr_opsm (fold fd_apply cs r)"
    if "fr_inv r" for r
    using that
  proof (induction cs arbitrary: r)
    case (Cons c cs)
    have s: "fr_inv (fd_apply c r)" "fr_opsm r + fd_taken c = fr_opsm (fd_apply c r) + fd_returned c r"
      using fd_apply_step [OF Cons.prems, of c] by auto
    show ?case using Cons.IH [OF s(1)] s(2) by (simp add: add.assoc [symmetric])
  qed simp
  from this [OF fr_inv_init] show ?thesis by (simp add: fd_registry_init_def fr_opsm_def)
qed

text \<open>
  A stale descriptor token is harmless: the token returned by a registration that has
  to wait cancels only that registration. After any sequence of further calls, as long as
  the 64-bit counter has not wrapped, a \<open>cancel\<close> of the same descriptor and kind with this
  token that succeeds hands back this very operation.
\<close>

lemma fd_token_not_reused:
  assumes inv: "fr_inv r" and fd: "0 \<le> fd" and reg: "fr_register fd (Some op) kind r = (res, r0)"
    and waits: "rr_ready_now res = None" and len: "unat (rr_token res) + 1 + length cs < 2 ^ 64"
    and cancel: "fr_cancel fd kind (rr_token res) (fold fd_apply cs r0) = ((x, True), r2)"
  shows "x = Some op"
proof -
  have inv0: "fr_inv r0" using inv reg by (rule fr_inv_register)
  from reg have "fr_next_token r0 = rr_token res + 1 \<and> sl_op (slot_at r0 fd kind) = Some op"
  proof (cases rule: fr_register_cases)
    case (stored r1 ops)
    have lt: "nat fd < length (fr_operations r1)" using fr_grow(2) [OF inv fd] stored(1) by simp
    show ?thesis using slot_at_put [OF lt fd fd stored(3)] by (simp add: stored(5,6))
  qed (use fd waits in auto)
  then have "sl_token (slot_at (fold fd_apply cs r0) fd kind) = rr_token res \<longrightarrow>
      sl_op (slot_at (fold fd_apply cs r0) fd kind) \<in> {None, Some op}"
    using fd_fold_token [OF inv0 fd _ len] by auto
  with fr_cancel_hit [OF cancel] show ?thesis by auto
qed

definition fd_example :: "nat fd_registry" where
  "fd_example = fold fd_apply [Register 3 1 Read_event, Track 5, Take_ready 5 True False] fd_registry_init"

lemma fr_inv_fd_example: "fr_inv fd_example"
  unfolding fd_example_def by (rule fr_inv_fold) (rule fr_inv_init)

lemma fd_token_not_reused_witness:
  "fst (fr_cancel 3 Write_event (rr_token (fst (fr_register 3 (Some 7) Write_event fd_example)))
     (fold fd_apply [Cancel 3 Read_event 1, Register 3 8 Read_event] (snd (fr_register 3 (Some 7) Write_event fd_example))))
   = (Some 7, True)"
proof -
  let ?res = "fst (fr_register 3 (Some 7) Write_event fd_example)"
  let ?r0 = "snd (fr_register 3 (Some 7) Write_event fd_example)"
  let ?cs = "[Cancel 3 Read_event 1, Register 3 8 Read_event]"
  have w: "rr_ready_now ?res = None" "rr_token ?res = 2" by code_simp+
  have "snd (fst (fr_cancel 3 Write_event (rr_token ?res) (fold fd_apply ?cs ?r0)))" by code_simp
  then obtain x r2 where c: "fr_cancel 3 Write_event (rr_token ?res) (fold fd_apply ?cs ?r0) = ((x, True), r2)"
    by (cases "fr_cancel 3 Write_event (rr_token ?res) (fold fd_apply ?cs ?r0)") auto
  have "x = Some 7"
    by (rule fd_token_not_reused [OF fr_inv_fd_example _ prod.collapse [symmetric] w(1) _ c]) (simp_all add: w)
  then show ?thesis using c by simp
qed

text \<open>
  Edge-triggered readiness is not lost: when the kernel reports a tracked descriptor
  ready and nobody waits on that side, then, whatever happens on other descriptors in
  between, the next operation registered on that side completes at once, displacing
  nobody, and it uses the readiness up: the one after it has to wait.
\<close>

lemma fd_readiness_latched:
  assumes inv: "fr_inv r" and fd: "0 \<le> fd" "nat fd < length (fr_operations r)"
    and tracked: "fo_tracked (fr_operations r ! nat fd)"
    and nobody: "sl_op (slot_for (fr_operations r ! nat fd) kind) = None"
    and flag: "if kind = Read_event then can_read else can_write"
    and others: "\<forall>c \<in> set cs. call_fd c \<noteq> None \<and> call_fd c \<noteq> Some fd"
    and r1: "r1 = fold fd_apply cs (snd (take_ready fd can_read can_write r))"
  shows "rr_ready_now (fst (fr_register fd (Some op) kind r1)) = Some op \<and>
     rr_replaced (fst (fr_register fd (Some op) kind r1)) = None \<and>
     rr_ready_now (fst (fr_register fd (Some op2) kind (snd (fr_register fd (Some op) kind r1)))) = None"
proof -
  obtain rd wr r0 where t: "take_ready fd can_read can_write r = ((rd, wr), r0)" by (metis surj_pair)
  from inv t have "sl_ready (slot_at r0 fd kind)"
  proof (cases rule: take_ready_cases)
    case (hit ops')
    then show ?thesis using flag nobody fd
      by (auto simp: slot_at_update slot_for_def take_slot_def split: if_splits)
  qed (use fd tracked in auto)
  moreover have "fr_inv r0" using inv t by (rule fr_inv_take_ready)
  ultimately have "sl_ready (slot_at r1 fd kind)" using r1 t fd_fold_other [OF _ fd(1) others] by simp
  note l = fr_register_latched [OF fd(1) this]
  have "rr_ready_now (fst (fr_register fd (Some op2) kind r2)) = None" if "\<not> sl_ready (slot_at r2 fd kind)" for r2
    using that fd(1) by (auto simp: fr_register_def Let_def slot_at_def fr_resize_def nth_append
        fd_ops_default_def slot_for_def slot_default_def split: if_splits)
  then show ?thesis using l by simp
qed

lemma fd_readiness_latched_witness:
  "rr_ready_now (fst (fr_register 3 (Some 9) Write_event
     (fold fd_apply [Register 4 2 Read_event] (snd (take_ready 3 False True fd_example))))) = Some 9"
  by (rule fd_readiness_latched [of fd_example 3 Write_event False True "[Register 4 2 Read_event]", THEN conjunct1,
        OF fr_inv_fd_example _ _ _ _ _ _ refl]) (simp_all, code_simp+)

end
