(* ===== verification/PostedQueue.thy ===== *)
theory PostedQueue
  imports Prelude
begin

text \<open>
  \<open>detail/posted_queue.hpp\<close> and \<open>detail/work_guard_counter.hpp\<close>. A posted callable may
  be empty, so the queue holds options. \<open>process\<close> swaps the queue into a local one and
  runs the callables; they may post again through the object that owns the queue, so the
  model is over a state \<open>'s\<close> of which the queue is a part (\<open>get\<close>, \<open>put\<close>) and takes the
  effect of a callable as \<open>exec\<close>: the new state and whether it threw, or \<open>None\<close> when a
  failed \<open>IOCORO_ENSURE\<close> ended the process. The locale \<open>posted_client\<close> is what the
  queue needs of its owner.
\<close>

record 'a posted_queue =
  pq_queue :: "'a option list"
  pq_pending :: nat

definition posted_queue_init :: "'a posted_queue" where
  "posted_queue_init = \<lparr>pq_queue = [], pq_pending = 0\<rparr>"

definition pq_post :: "'a option \<Rightarrow> 'a posted_queue \<Rightarrow> 'a posted_queue" where
  "pq_post f q = \<lparr>pq_queue = pq_queue q @ [f], pq_pending = pq_pending q + 1\<rparr>"

definition has_pending_tasks :: "'a posted_queue \<Rightarrow> bool" where
  "has_pending_tasks q \<longleftrightarrow> pq_pending q > 0"

fun pq_run ::
  "('s \<Rightarrow> 'a posted_queue) \<Rightarrow> ('a posted_queue \<Rightarrow> 's \<Rightarrow> 's) \<Rightarrow> ('a \<Rightarrow> 's \<Rightarrow> ('s \<times> bool) option) \<Rightarrow>
     'a option list \<Rightarrow> nat \<Rightarrow> 's \<Rightarrow> ('s \<times> nat \<times> bool) option" where
  "pq_run get put exec [] n s = Some (s, n, False)"
| "pq_run get put exec (f # local) n s =
     (let s1 = put ((get s)\<lparr>pq_pending := pq_pending (get s) - 1\<rparr>) s
      in case f of
           None \<Rightarrow> pq_run get put exec local (n + 1) s1
         | Some t \<Rightarrow>
             (case exec t s1 of
                None \<Rightarrow> None
              | Some (s2, threw) \<Rightarrow>
                  if threw then
                    Some (put ((get s2)\<lparr>pq_queue := pq_queue (get s2) @ local\<rparr>) s2, n, True)
                  else pq_run get put exec local (n + 1) s2))"

definition pq_process ::
  "('s \<Rightarrow> 'a posted_queue) \<Rightarrow> ('a posted_queue \<Rightarrow> 's \<Rightarrow> 's) \<Rightarrow> ('a \<Rightarrow> 's \<Rightarrow> ('s \<times> bool) option) \<Rightarrow>
     's \<Rightarrow> ('s \<times> nat \<times> bool) option" where
  "pq_process get put exec s =
     (let local = pq_queue (get s);
          s1 = put ((get s)\<lparr>pq_queue := []\<rparr>) s
      in if local = [] then Some (s1, 0, False) else pq_run get put exec local 0 s1)"

section \<open>Work guards\<close>

text \<open>\<open>remove\<close> returns the old count; without a matching \<open>add\<close> the check fails.\<close>

definition wg_add :: "nat \<Rightarrow> nat" where
  "wg_add c = c + 1"

definition wg_remove :: "nat \<Rightarrow> (nat \<times> nat) option" where
  "wg_remove c = (if c > 0 then Some (c, c - 1) else None)"

definition wg_has_work :: "nat \<Rightarrow> bool" where
  "wg_has_work c \<longleftrightarrow> c > 0"

section \<open>Invariant\<close>

text \<open>
  \<open>pq_over n q\<close>: the counter exceeds the queue's length by the \<open>n\<close> callables that
  \<open>process\<close> still holds locally. With \<open>n = 0\<close> this is the invariant between calls.
\<close>

definition pq_over :: "nat \<Rightarrow> 'a posted_queue \<Rightarrow> bool" where
  "pq_over n q \<longleftrightarrow> pq_pending q = length (pq_queue q) + n"

abbreviation pq_inv :: "'a posted_queue \<Rightarrow> bool" where
  "pq_inv q \<equiv> pq_over 0 q"

lemma pq_inv_init [inv_intro]: "pq_inv posted_queue_init"
  by (simp add: pq_over_def posted_queue_init_def)

lemma pq_over_post [inv_intro]: "pq_over n q \<Longrightarrow> pq_over n (pq_post f q)"
  by (simp add: pq_over_def pq_post_def)

lemma has_pending_iff: "pq_inv q \<Longrightarrow> has_pending_tasks q \<longleftrightarrow> pq_queue q \<noteq> []"
  by (simp add: pq_over_def has_pending_tasks_def)

locale posted_client =
  fixes get :: "'s \<Rightarrow> 'a posted_queue"
    and put :: "'a posted_queue \<Rightarrow> 's \<Rightarrow> 's"
    and exec :: "'a \<Rightarrow> 's \<Rightarrow> ('s \<times> bool) option"
    and inv :: "'s \<Rightarrow> bool"
  assumes get_put: "get (put q s) = q"
    and inv_put: "inv s \<Longrightarrow> inv (put q s)"
    and exec_inv: "inv s \<Longrightarrow> exec t s = Some (s', threw) \<Longrightarrow> inv s'"
    and exec_posts: "inv s \<Longrightarrow> exec t s = Some (s', threw) \<Longrightarrow>
      \<exists>ts. get s' = \<lparr>pq_queue = pq_queue (get s) @ ts, pq_pending = pq_pending (get s) + length ts\<rparr>"
begin

text \<open>A callable may only append, so the queue afterwards extends the one before.\<close>

lemma run_queue:
  assumes "pq_run get put exec local n s = Some (s', m, threw)"
    and "pq_over (length local) (get s)" and "inv s"
  shows "pq_inv (get s') \<and> n \<le> m \<and> (\<exists>new rest. pq_queue (get s') = pq_queue (get s) @ new @ rest \<and>
     (if threw then \<exists>ran. local = ran @ rest \<and> length ran = Suc (m - n) else rest = [] \<and> m = n + length local))"
  using assms
proof (induction local arbitrary: n s)
  case Nil
  then show ?case by auto
next
  case (Cons f local)
  let ?s1 = "put ((get s)\<lparr>pq_pending := pq_pending (get s) - 1\<rparr>) s"
  have s1: "pq_over (length local) (get ?s1)" "pq_queue (get ?s1) = pq_queue (get s)"
    using Cons.prems(2) by (simp_all add: get_put pq_over_def)
  have i1: "inv ?s1" using Cons.prems(3) by (rule inv_put)
  have step: ?case if r: "pq_run get put exec local (n + 1) s2 = Some (s', m, threw)"
    and o: "pq_over (length local) (get s2)" and i: "inv s2" and q: "pq_queue (get s2) = pq_queue (get s) @ ts" for s2 ts
  proof -
    obtain new rest where nr: "pq_inv (get s')" "n + 1 \<le> m" "pq_queue (get s') = pq_queue (get s2) @ new @ rest"
      "if threw then \<exists>ran. local = ran @ rest \<and> length ran = Suc (m - (n + 1)) else rest = [] \<and> m = n + 1 + length local"
      using Cons.IH [OF r o i] by blast
    have "if threw then \<exists>ran. f # local = ran @ rest \<and> length ran = Suc (m - n) else rest = [] \<and> m = n + length (f # local)"
    proof (cases threw)
      case True
      then obtain ran where "local = ran @ rest" "length ran = Suc (m - (n + 1))" using nr(4) by auto
      then show ?thesis using True nr(2) by (auto intro!: exI [of _ "f # ran"])
    qed (use nr(4) in simp)
    then show ?thesis using nr(1-3) q by (intro conjI exI [of _ "ts @ new"] exI [of _ rest]) auto
  qed
  show ?case
  proof (cases f)
    case None
    then show ?thesis using Cons.prems(1) s1 i1 by (intro step [of ?s1 "[]"]) (auto simp: Let_def)
  next
    case (Some t)
    then obtain s2 b where x: "exec t ?s1 = Some (s2, b)"
      using Cons.prems(1) by (auto simp: Let_def split: option.splits)
    then obtain ts where ts: "get s2 = \<lparr>pq_queue = pq_queue (get ?s1) @ ts, pq_pending = pq_pending (get ?s1) + length ts\<rparr>"
      using exec_posts [OF i1] by blast
    show ?thesis
    proof (cases b)
      case True
      then have "s' = put ((get s2)\<lparr>pq_queue := pq_queue (get s2) @ local\<rparr>) s2" "m = n" "threw"
        using Cons.prems(1) Some x by (auto simp: Let_def)
      moreover have "\<exists>ran. f # local = ran @ local \<and> length ran = Suc 0" by (rule exI [of _ "[f]"]) simp
      ultimately show ?thesis using ts s1
        by (intro conjI exI [of _ ts] exI [of _ local]) (auto simp: get_put pq_over_def)
    next
      case False
      then show ?thesis using Cons.prems(1) Some x ts s1 exec_inv [OF i1 x]
        by (intro step [of s2 ts]) (auto simp: Let_def pq_over_def)
    qed
  qed
qed

lemma process_queue:
  assumes "pq_process get put exec s = Some (s', m, threw)" and "pq_inv (get s)" and "inv s"
  shows "pq_inv (get s') \<and> (\<exists>new rest. pq_queue (get s') = new @ rest \<and>
     (if threw then \<exists>ran. pq_queue (get s) = ran @ rest \<and> length ran = Suc m
      else rest = [] \<and> m = length (pq_queue (get s))))"
proof (cases "pq_queue (get s) = []")
  case True
  then show ?thesis using assms by (auto simp: pq_process_def Let_def get_put pq_over_def)
next
  case False
  then have "pq_run get put exec (pq_queue (get s)) 0 (put ((get s)\<lparr>pq_queue := []\<rparr>) s) = Some (s', m, threw)"
    using assms(1) by (simp add: pq_process_def Let_def)
  from run_queue [OF this] inv_put [OF assms(3)] assms(2) show ?thesis
    by (cases threw) (simp_all add: get_put pq_over_def)
qed

lemma run_preserves: "pq_run get put exec local n s = Some (s', m, threw) \<Longrightarrow> inv s \<Longrightarrow> inv s'"
proof (induction local arbitrary: n s)
  case (Cons f local)
  have "inv (put ((get s)\<lparr>pq_pending := pq_pending (get s) - 1\<rparr>) s)" using Cons.prems(2) by (rule inv_put)
  then show ?case
    using Cons.prems(1) Cons.IH inv_put exec_inv by (cases f) (auto simp: Let_def split: option.splits if_splits)
qed auto

lemma process_preserves: "pq_process get put exec s = Some (s', m, threw) \<Longrightarrow> inv s \<Longrightarrow> inv s'"
  by (auto simp: pq_process_def Let_def inv_put split: if_splits elim: run_preserves)

end

text \<open>
  A client whose callables never fail a check as long as they satisfy \<open>ok\<close>, and only post
  such callables: then neither does \<open>process\<close>.
\<close>

locale total_client = posted_client +
  fixes ok :: "'b \<Rightarrow> bool"
  assumes exec_total: "inv s \<Longrightarrow> ok t \<Longrightarrow> \<exists>s' b ts. exec t s = Some (s', b) \<and> (\<forall>t \<in> set ts. ok t) \<and>
      get s' = \<lparr>pq_queue = pq_queue (get s) @ map Some ts, pq_pending = pq_pending (get s) + length ts\<rparr>"
begin

abbreviation all_ok :: "'b option list \<Rightarrow> bool" where
  "all_ok q \<equiv> (\<forall>f \<in> set q. pred_option ok f)"

lemma run_total:
  assumes "inv s" "all_ok local" "all_ok (pq_queue (get s))"
  shows "\<exists>s' m threw. pq_run get put exec local n s = Some (s', m, threw) \<and> all_ok (pq_queue (get s'))"
  using assms
proof (induction local arbitrary: n s)
  case (Cons f local)
  let ?s1 = "put ((get s)\<lparr>pq_pending := pq_pending (get s) - 1\<rparr>) s"
  have i1: "inv ?s1" using Cons.prems(1) by (rule inv_put)
  have q1: "all_ok (pq_queue (get ?s1))" using Cons.prems(3) by (simp add: get_put)
  show ?case
  proof (cases f)
    case None
    then show ?thesis using Cons.IH [OF i1 _ q1] Cons.prems(2) by (simp add: Let_def)
  next
    case (Some t)
    then obtain s2 b ts where x: "exec t ?s1 = Some (s2, b)" "\<forall>t \<in> set ts. ok t"
        "pq_queue (get s2) = pq_queue (get ?s1) @ map Some ts"
      using exec_total [OF i1, of t] Cons.prems(2) by auto
    then have q2: "all_ok (pq_queue (get s2))" using q1 by auto
    show ?thesis
    proof (cases b)
      case True
      then show ?thesis using Some x q2 Cons.prems(2) by (auto simp: Let_def get_put)
    next
      case False
      then show ?thesis using Some x q2 Cons.prems(2) Cons.IH [OF exec_inv [OF i1 x(1)]] by (simp add: Let_def)
    qed
  qed
qed auto

lemma process_total:
  assumes "inv s" "all_ok (pq_queue (get s))"
  shows "\<exists>s' m threw. pq_process get put exec s = Some (s', m, threw) \<and> all_ok (pq_queue (get s'))"
proof (cases "pq_queue (get s) = []")
  case True
  then show ?thesis by (auto simp: pq_process_def get_put)
next
  case False
  then show ?thesis using run_total [OF inv_put [OF assms(1)] assms(2)] by (simp add: pq_process_def Let_def get_put)
qed

end

end
