(* ===== verification/WakeProtocol.thy ===== *)
theory WakeProtocol
  imports Prelude
begin

text \<open>
  \<open>detail/wake_state.hpp\<close> and the way the reactor thread and posting threads use it
  (\<open>io_context_impl::run\<close>, \<open>post\<close>, \<open>process_events\<close>, \<open>backend_epoll::wait\<close>,
  \<open>wakeup\<close>). Every method of \<open>wake_state\<close> is one atomic step: its compare-exchange loop
  retries until the exchange succeeds or the guard fails. The interleaving of one reactor
  thread with any number of posting threads is a step relation; the blocking
  \<open>epoll_wait\<close> leaves its sleep when the event descriptor is readable or another
  descriptor is ready, and an infinite timeout stands for a context without timers.
\<close>

section \<open>The atomic phase\<close>

datatype phase = Running | Waiting | Notified

definition begin_wait :: "phase \<Rightarrow> phase" where
  "begin_wait p = (if p = Running then Waiting else p)"

definition notify :: "phase \<Rightarrow> bool \<times> phase" where
  "notify p = (if p \<noteq> Waiting then (False, p) else (True, Notified))"

definition notify_failed :: "phase \<Rightarrow> phase" where
  "notify_failed p = Waiting"

definition consume_notification :: "phase \<Rightarrow> phase" where
  "consume_notification p = Running"

definition finish_wait :: "phase \<Rightarrow> phase" where
  "finish_wait p = (if p = Waiting then Running else p)"

section \<open>Threads\<close>

text \<open>
  Program counters. Reactor: \<open>R_check\<close> before \<open>has_pending_tasks()\<close> decides the
  timeout; \<open>R_prepare\<close> before \<open>prepare_wait()\<close> of a blocking wait; \<open>R_sleep\<close> in the
  blocking \<open>epoll_wait\<close>; \<open>R_poll\<close> in an \<open>epoll_wait\<close> with timeout 0; \<open>R_drain\<close> with
  the event descriptor reported ready, \<open>R_consume\<close> after draining it; \<open>R_finish\<close> before
  the scope guard's \<open>finish_wait()\<close>; \<open>R_posted\<close> before \<open>process_posted()\<close>.
  Poster: \<open>P_idle\<close>; \<open>P_notify\<close> after queueing, before \<open>notify()\<close>; \<open>P_write\<close> before
  writing the event descriptor.
\<close>

datatype reactor_pc = R_check | R_prepare | R_sleep | R_poll | R_drain | R_consume | R_finish | R_posted

datatype poster_pc = P_idle | P_notify | P_write

record wake_sys =
  ws_phase :: phase
  ws_eventfd :: nat
  ws_queued :: nat
  ws_reactor :: reactor_pc
  ws_poster :: "nat \<Rightarrow> poster_pc"

definition wake_init :: "wake_sys \<Rightarrow> bool" where
  "wake_init s \<longleftrightarrow> ws_phase s = Running \<and> ws_eventfd s = 0 \<and> ws_reactor s = R_posted \<and>
     (\<forall>i. ws_poster s i = P_idle)"

inductive wake_step :: "wake_sys \<Rightarrow> wake_sys \<Rightarrow> bool" where
  process: "ws_reactor s = R_posted \<Longrightarrow> wake_step s (s\<lparr>ws_queued := 0, ws_reactor := R_check\<rparr>)"
| check_pending: "ws_reactor s = R_check \<Longrightarrow> 0 < ws_queued s \<Longrightarrow> wake_step s (s\<lparr>ws_reactor := R_poll\<rparr>)"
| check_empty: "ws_reactor s = R_check \<Longrightarrow> ws_queued s = 0 \<Longrightarrow> wake_step s (s\<lparr>ws_reactor := R_prepare\<rparr>)"
| prepare: "ws_reactor s = R_prepare \<Longrightarrow>
    wake_step s (s\<lparr>ws_phase := begin_wait (ws_phase s), ws_reactor := R_sleep\<rparr>)"
| woken: "ws_reactor s = R_sleep \<or> ws_reactor s = R_poll \<Longrightarrow> 0 < ws_eventfd s \<Longrightarrow>
    wake_step s (s\<lparr>ws_reactor := R_drain\<rparr>)"
| other_fd: "ws_reactor s = R_sleep \<or> ws_reactor s = R_poll \<Longrightarrow> wake_step s (s\<lparr>ws_reactor := R_finish\<rparr>)"
| drain: "ws_reactor s = R_drain \<Longrightarrow> wake_step s (s\<lparr>ws_eventfd := 0, ws_reactor := R_consume\<rparr>)"
| consume: "ws_reactor s = R_consume \<Longrightarrow>
    wake_step s (s\<lparr>ws_phase := consume_notification (ws_phase s), ws_reactor := R_finish\<rparr>)"
| finish: "ws_reactor s = R_finish \<Longrightarrow>
    wake_step s (s\<lparr>ws_phase := finish_wait (ws_phase s), ws_reactor := R_posted\<rparr>)"
| post: "ws_poster s i = P_idle \<Longrightarrow>
    wake_step s (s\<lparr>ws_queued := Suc (ws_queued s), ws_poster := (ws_poster s)(i := P_notify)\<rparr>)"
| notify_won: "ws_poster s i = P_notify \<Longrightarrow> notify (ws_phase s) = (True, p) \<Longrightarrow>
    wake_step s (s\<lparr>ws_phase := p, ws_poster := (ws_poster s)(i := P_write)\<rparr>)"
| notify_lost: "ws_poster s i = P_notify \<Longrightarrow> notify (ws_phase s) = (False, p) \<Longrightarrow>
    wake_step s (s\<lparr>ws_phase := p, ws_poster := (ws_poster s)(i := P_idle)\<rparr>)"
| write_ok: "ws_poster s i = P_write \<Longrightarrow>
    wake_step s (s\<lparr>ws_eventfd := Suc (ws_eventfd s), ws_poster := (ws_poster s)(i := P_idle)\<rparr>)"
| write_failed: "ws_poster s i = P_write \<Longrightarrow>
    wake_step s (s\<lparr>ws_phase := notify_failed (ws_phase s), ws_poster := (ws_poster s)(i := P_idle)\<rparr>)"

inductive_cases wake_step_cases: "wake_step s t"

lemmas phase_defs = begin_wait_def notify_def notify_failed_def consume_notification_def finish_wait_def

section \<open>Inside the wait window a notification leaves a token\<close>

definition wake_inv :: "wake_sys \<Rightarrow> bool" where
  "wake_inv s \<longleftrightarrow>
     (ws_phase s = Notified \<longrightarrow> 0 < ws_eventfd s \<or> (\<exists>i. ws_poster s i = P_write) \<or> ws_reactor s = R_consume) \<and>
     (ws_reactor s = R_sleep \<longrightarrow> ws_phase s \<noteq> Running)"

lemma wake_inv_step: "wake_inv s \<Longrightarrow> wake_step s t \<Longrightarrow> wake_inv t"
  by (erule wake_step_cases; auto simp: wake_inv_def phase_defs split: if_splits; metis poster_pc.distinct)

interpretation wake: inductive_invariant wake_init wake_step wake_inv
proof
  show "wake_init s \<Longrightarrow> wake_inv s" for s by (simp add: wake_init_def wake_inv_def)
qed (rule wake_inv_step)


lemma reach_steps: "reach start step s \<Longrightarrow> step\<^sup>*\<^sup>* s t \<Longrightarrow> reach start step t"
  by (rotate_tac, induction rule: rtranclp_induct) (auto intro: reach_step)

definition wake_ex :: wake_sys where
  "wake_ex = \<lparr>ws_phase = Running, ws_eventfd = 0, ws_queued = 0, ws_reactor = R_posted, ws_poster = (\<lambda>_. P_idle)\<rparr>"

lemma reach_prepared: "reach wake_init wake_step (wake_ex\<lparr>ws_reactor := R_prepare\<rparr>)"
proof -
  have "reach wake_init wake_step wake_ex" by (rule reach_start) (simp add: wake_init_def wake_ex_def)
  moreover have "wake_step wake_ex (wake_ex\<lparr>ws_reactor := R_check\<rparr>)"
    using wake_step.process [of wake_ex] by (simp add: wake_ex_def)
  moreover have "wake_step (wake_ex\<lparr>ws_reactor := R_check\<rparr>) (wake_ex\<lparr>ws_reactor := R_prepare\<rparr>)"
    using wake_step.check_empty [of "wake_ex\<lparr>ws_reactor := R_check\<rparr>"] by (simp add: wake_ex_def)
  ultimately show ?thesis by (metis reach_step)
qed


section \<open>The window before \<open>prepare_wait()\<close>\<close>

text \<open>
  Between the test of \<open>has_pending_tasks()\<close> in \<open>run()\<close> and \<open>prepare_wait()\<close> the
  phase is \<open>running\<close>, so a thread that posts there writes nothing; the reactor then sleeps
  without a timeout although a task is queued, no token is in the event descriptor and no
  other thread is on its way to write one.
\<close>

lemma lost_wakeup_reachable:
  "\<exists>s. reach wake_init wake_step s \<and> ws_reactor s = R_sleep \<and> 0 < ws_queued s \<and>
     ws_eventfd s = 0 \<and> (\<forall>i. ws_poster s i = P_idle)"
proof -
  let ?a = "wake_ex\<lparr>ws_reactor := R_prepare\<rparr>"
  let ?b = "?a\<lparr>ws_queued := 1, ws_poster := (\<lambda>_. P_idle)(0 := P_notify)\<rparr>"
  let ?c = "?a\<lparr>ws_queued := 1\<rparr>"
  let ?d = "?c\<lparr>ws_phase := Waiting, ws_reactor := R_sleep\<rparr>"
  have "wake_step ?a ?b" using wake_step.post [of ?a 0] by (simp add: wake_ex_def)
  moreover have "wake_step ?b ?c"
    using wake_step.notify_lost [of ?b 0 Running] by (simp add: wake_ex_def notify_def fun_upd_idem)
  moreover have "wake_step ?c ?d" using wake_step.prepare [of ?c] by (simp add: wake_ex_def begin_wait_def)
  ultimately have "reach wake_init wake_step ?d" using reach_prepared by (metis reach_step)
  then show ?thesis by (intro exI [of _ ?d]) (simp add: wake_ex_def)
qed

end
