(* ===== verification/EpollBackend.thy ===== *)
theory EpollBackend
  imports ReactorTypes WakeProtocol
begin

unbundle bit_operations_syntax

text \<open>
  \<open>detail/reactor_backend.hpp\<close> and \<open>impl/backends/epoll.ipp\<close>. The kernel is a
  parameter: the results of \<open>epoll_ctl\<close> and \<open>epoll_wait\<close> are arguments of the
  definitions that make the calls. An event carries the 64-bit word that was registered
  with the descriptor: its number in the low half and a generation in the high half. The
  event mask is a 32-bit word with the constants of \<open>sys/epoll.h\<close>.
\<close>

record backend_event =
  be_fd :: int
  be_can_read :: bool
  be_can_write :: bool
  be_is_error :: bool
  be_ec :: error_code

record epoll_event =
  ev_events :: u32
  ev_data :: u64

abbreviation (input) EPOLLIN :: u32 where "EPOLLIN \<equiv> 1"
abbreviation (input) EPOLLOUT :: u32 where "EPOLLOUT \<equiv> 4"
abbreviation (input) EPOLLERR :: u32 where "EPOLLERR \<equiv> 8"
abbreviation (input) EPOLLHUP :: u32 where "EPOLLHUP \<equiv> 16"
abbreviation (input) EPOLLRDHUP :: u32 where "EPOLLRDHUP \<equiv> 0x2000"
abbreviation (input) EPOLLET :: u32 where "EPOLLET \<equiv> 0x80000000"

record epoll_backend =
  ep_epoll_fd :: int
  ep_eventfd :: int
  ep_capacity :: nat
  ep_generations :: "u32 list"
  ep_active :: "bool list"
  ep_wakeup :: phase

section \<open>Packing\<close>

definition pack_fd_gen :: "int \<Rightarrow> u32 \<Rightarrow> u64" where
  "pack_fd_gen fd gen = push_bit 32 (ucast gen) OR ucast (word_of_int fd :: u32)"

definition unpack_fd :: "u64 \<Rightarrow> int" where
  "unpack_fd data = sint (ucast (data AND 0xFFFFFFFF) :: u32)"

definition unpack_gen :: "u64 \<Rightarrow> u32" where
  "unpack_gen data = ucast (drop_bit 32 data)"

section \<open>Descriptors\<close>

text \<open>\<open>RLIMIT_NOFILE\<close>, when it can be read, is finite and positive.\<close>

definition fd_capacity :: "nat option \<Rightarrow> nat" where
  "fd_capacity rlim = (case rlim of Some n \<Rightarrow> (if n > 0 then n else 65536) | None \<Rightarrow> 65536)"

text \<open>
  The constructor, given what \<open>epoll_create1\<close>, \<open>eventfd\<close> and \<open>epoll_ctl\<close> answer (\<open>Inl\<close> an
  \<open>errno\<close>, or a non-zero \<open>errno\<close> for the last). The list holds the descriptors closed on
  the way out.
\<close>

definition epoll_init ::
  "int + int \<Rightarrow> int + int \<Rightarrow> int \<Rightarrow> nat option \<Rightarrow> epoll_backend result \<times> int list" where
  "epoll_init create event ctl rlim =
     (case create of
        Inl errno \<Rightarrow> (Inl (generic_error errno), [])
      | Inr epoll_fd \<Rightarrow>
          (case event of
             Inl errno \<Rightarrow> (Inl (generic_error errno), [epoll_fd])
           | Inr eventfd \<Rightarrow>
               if ctl \<noteq> 0 then (Inl (generic_error ctl), [eventfd, epoll_fd])
               else (let cap = fd_capacity rlim
                     in (Inr \<lparr>ep_epoll_fd = epoll_fd, ep_eventfd = eventfd, ep_capacity = cap,
                              ep_generations = replicate cap 0, ep_active = replicate cap False,
                              ep_wakeup = Running\<rparr>, []))))"

definition bump_generation :: "u32 \<Rightarrow> u32" where
  "bump_generation g = (if g + 1 = 0 then g + 1 + 1 else g + 1)"

text \<open>
  Results of the two \<open>epoll_ctl\<close> calls of \<open>add_fd\<close>: 0 for success, else the \<open>errno\<close>.
  The thrown \<open>std::system_error\<close> carries an error code.
\<close>

definition epoll_add_fd ::
  "int \<Rightarrow> int \<Rightarrow> int \<Rightarrow> epoll_backend \<Rightarrow> unit result \<times> epoll_event option \<times> epoll_backend" where
  "epoll_add_fd ctl_mod ctl_add fd b =
     (if fd < 0 \<or> ep_capacity b \<le> nat fd then (Inl (generic_error 22), None, b)
      else
        (let gen = bump_generation (ep_generations b ! nat fd);
             b1 = b\<lparr>ep_generations := (ep_generations b)[nat fd := gen],
                    ep_active := (ep_active b)[nat fd := True]\<rparr>;
             ev = \<lparr>ev_events = EPOLLET OR EPOLLIN OR EPOLLOUT OR EPOLLERR OR EPOLLHUP OR EPOLLRDHUP,
                   ev_data = pack_fd_gen fd gen\<rparr>
         in if ctl_mod = 0 then (Inr (), Some ev, b1)
            else if ctl_mod = ENOENT then
              (if ctl_add = 0 then (Inr (), Some ev, b1) else (Inl (generic_error ctl_add), None, b1))
            else (Inl (generic_error ctl_mod), None, b1)))"

definition epoll_remove_fd :: "int \<Rightarrow> epoll_backend \<Rightarrow> epoll_backend" where
  "epoll_remove_fd fd b =
     (if ep_epoll_fd b < 0 \<or> fd < 0 then b
      else if nat fd < ep_capacity b then b\<lparr>ep_active := (ep_active b)[nat fd := False]\<rparr>
      else b)"

section \<open>Waiting\<close>

text \<open>\<open>static_cast<int>(timeout->count())\<close>: the count of milliseconds narrowed to 32 bits.\<close>

definition timeout_ms :: "int option \<Rightarrow> int" where
  "timeout_ms timeout = (case timeout of None \<Rightarrow> -1 | Some t \<Rightarrow> sint (word_of_int t :: u32))"

definition translate :: "int \<Rightarrow> u32 \<Rightarrow> backend_event" where
  "translate fd ev =
     (let has_error = (ev AND EPOLLERR \<noteq> 0);
          has_hup = (ev AND (EPOLLHUP OR EPOLLRDHUP) \<noteq> 0);
          has_read = (ev AND EPOLLIN \<noteq> 0);
          has_write = (ev AND EPOLLOUT \<noteq> 0)
      in \<lparr>be_fd = fd,
          be_can_read = (has_error \<or> has_hup \<or> has_read),
          be_can_write = (has_error \<or> has_hup \<or> has_write),
          be_is_error = has_error,
          be_ec = (if has_error then make_error_code connection_reset else no_error)\<rparr>)"

fun epoll_collect :: "epoll_event list \<Rightarrow> epoll_backend \<Rightarrow> backend_event list \<Rightarrow> backend_event list \<times> epoll_backend" where
  "epoll_collect [] b out = (out, b)"
| "epoll_collect (e # es) b out =
     (let fd = unpack_fd (ev_data e); gen = unpack_gen (ev_data e)
      in if fd = ep_eventfd b then
           epoll_collect es (b\<lparr>ep_wakeup := consume_notification (ep_wakeup b)\<rparr>) out
         else if fd < 0 \<or> ep_capacity b \<le> nat fd then epoll_collect es b out
         else if \<not> ep_active b ! nat fd then epoll_collect es b out
         else if ep_generations b ! nat fd \<noteq> gen then epoll_collect es b out
         else epoll_collect es b (out @ [translate fd (ev_events e)]))"

text \<open>
  \<open>wait\<close>: \<open>Inl errno\<close> is a failed \<open>epoll_wait\<close>. The vector \<open>out\<close> is the caller's, and is
  only cleared once the call succeeded; \<open>finish_wait\<close> runs on every way out.
\<close>

definition epoll_wait ::
  "int + epoll_event list \<Rightarrow> backend_event list \<Rightarrow> epoll_backend \<Rightarrow>
     unit result \<times> backend_event list \<times> epoll_backend" where
  "epoll_wait k out b =
     (case k of
        Inl errno \<Rightarrow>
          (if errno = EINTR then Inr () else Inl (generic_error errno), out,
           b\<lparr>ep_wakeup := finish_wait (ep_wakeup b)\<rparr>)
      | Inr events \<Rightarrow>
          (let (out', b') = epoll_collect events b []
           in (Inr (), out', b'\<lparr>ep_wakeup := finish_wait (ep_wakeup b')\<rparr>)))"

definition epoll_prepare_wait :: "epoll_backend \<Rightarrow> epoll_backend" where
  "epoll_prepare_wait b = b\<lparr>ep_wakeup := begin_wait (ep_wakeup b)\<rparr>"

text \<open>\<open>wakeup\<close>: writes the event descriptor or not (second component), given whether the
  write, retried while interrupted, succeeds.\<close>

definition epoll_wakeup :: "bool \<Rightarrow> epoll_backend \<Rightarrow> epoll_backend \<times> bool" where
  "epoll_wakeup write_ok b =
     (let (won, p) = notify (ep_wakeup b)
      in if \<not> won then (b\<lparr>ep_wakeup := p\<rparr>, False)
         else if write_ok then (b\<lparr>ep_wakeup := p\<rparr>, True)
         else (b\<lparr>ep_wakeup := notify_failed p\<rparr>, False))"

section \<open>Round trips\<close>

lemma unpack_gen_pack: "unpack_gen (pack_fd_gen fd gen) = gen"
  by (rule bit_word_eqI)
     (auto simp: unpack_gen_def pack_fd_gen_def bit_simps)

lemma unpack_word_pack: "(ucast (pack_fd_gen fd gen AND 0xFFFFFFFF) :: u32) = word_of_int fd"
proof -
  have m: "(0xFFFFFFFF :: u64) = mask 32" by (simp add: mask_eq_exp_minus_1)
  show ?thesis
    unfolding m by (intro bit_word_eqI) (auto simp: pack_fd_gen_def bit_simps)
qed

lemma sint_word_of_int_range: "- (2 ^ 31) \<le> fd \<Longrightarrow> fd < 2 ^ 31 \<Longrightarrow> sint (word_of_int fd :: u32) = fd"
  by (simp add: signed_of_int signed_take_bit_int_eq_self)

lemma unpack_fd_pack: "- (2 ^ 31) \<le> fd \<Longrightarrow> fd < 2 ^ 31 \<Longrightarrow> unpack_fd (pack_fd_gen fd gen) = fd"
  by (simp add: unpack_fd_def unpack_word_pack sint_word_of_int_range)

section \<open>Generations\<close>

text \<open>The arrays always have the capacity's length.\<close>

definition ep_inv :: "epoll_backend \<Rightarrow> bool" where
  "ep_inv b \<longleftrightarrow> length (ep_generations b) = ep_capacity b \<and> length (ep_active b) = ep_capacity b"

lemma ep_inv_init: "epoll_init c e k r = (Inr b, cl) \<Longrightarrow> ep_inv b"
  by (auto simp: epoll_init_def ep_inv_def Let_def split: sum.splits if_splits)

lemma epoll_add_fd_frame:
  assumes "epoll_add_fd m a fd b = (res, ev, b')"
  shows "ep_capacity b' = ep_capacity b" "ep_eventfd b' = ep_eventfd b" "ep_inv b \<Longrightarrow> ep_inv b'"
  using assms by (auto simp: epoll_add_fd_def Let_def ep_inv_def split: if_splits)

lemma epoll_remove_fd_frame:
  "ep_capacity (epoll_remove_fd fd b) = ep_capacity b" "ep_eventfd (epoll_remove_fd fd b) = ep_eventfd b"
  "ep_generations (epoll_remove_fd fd b) = ep_generations b"
  "ep_inv b \<Longrightarrow> ep_inv (epoll_remove_fd fd b)"
  by (auto simp: epoll_remove_fd_def ep_inv_def)

lemma bump_generation_skip: "bump_generation = skip_zero"
  by (simp add: fun_eq_iff bump_generation_def skip_zero_def)

lemma bump_generation_nonzero: "bump_generation g \<noteq> 0"
  by (simp add: bump_generation_skip skip_zero_nonzero)

lemma bump_funpow_neq: "g \<noteq> 0 \<Longrightarrow> 0 < k \<Longrightarrow> k < 2 ^ 32 - 1 \<Longrightarrow> (bump_generation ^^ k) g \<noteq> g"
  using skip_zero_funpow_neq [of g k] by (simp add: bump_generation_skip)

section \<open>Which events are delivered\<close>

definition live :: "epoll_backend \<Rightarrow> epoll_event \<Rightarrow> bool" where
  "live b e \<longleftrightarrow>
     (let fd = unpack_fd (ev_data e)
      in fd \<noteq> ep_eventfd b \<and> 0 \<le> fd \<and> nat fd < ep_capacity b \<and> ep_active b ! nat fd \<and>
         ep_generations b ! nat fd = unpack_gen (ev_data e))"

definition delivered :: "epoll_event \<Rightarrow> backend_event" where
  "delivered e = translate (unpack_fd (ev_data e)) (ev_events e)"

lemma live_wakeup [simp]: "live (b\<lparr>ep_wakeup := p\<rparr>) e = live b e"
  by (simp add: live_def)

lemma epoll_collect_spec:
  "epoll_collect es b out =
     (out @ map delivered (filter (live b) es),
      if \<exists>e\<in>set es. unpack_fd (ev_data e) = ep_eventfd b then b\<lparr>ep_wakeup := Running\<rparr> else b)"
proof (induction es b out rule: epoll_collect.induct)
  case (2 e es b out)
  then show ?case
    by (cases "unpack_fd (ev_data e) = ep_eventfd b")
       (auto simp: Let_def live_def delivered_def consume_notification_def cong: filter_cong)
qed simp

text \<open>
  The registrations of a descriptor over time: any sequence of \<open>add_fd\<close> and \<open>remove_fd\<close>
  calls, with any answers of the kernel.
\<close>

datatype epoll_op = Add int int int | Remove int

fun epoll_apply :: "epoll_op \<Rightarrow> epoll_backend \<Rightarrow> epoll_backend" where
  "epoll_apply (Add ctl_mod ctl_add fd) b = snd (snd (epoll_add_fd ctl_mod ctl_add fd b))"
| "epoll_apply (Remove fd) b = epoll_remove_fd fd b"

fun adds :: "int \<Rightarrow> epoll_op list \<Rightarrow> nat" where
  "adds fd [] = 0"
| "adds fd (Add _ _ fd' # ops) = (if fd' = fd then 1 else 0) + adds fd ops"
| "adds fd (Remove _ # ops) = adds fd ops"

lemma epoll_apply_frame:
  "ep_capacity (epoll_apply c b) = ep_capacity b" "ep_eventfd (epoll_apply c b) = ep_eventfd b"
  "ep_inv b \<Longrightarrow> ep_inv (epoll_apply c b)"
  by (cases c; simp add: epoll_remove_fd_frame;
      metis epoll_add_fd_frame prod.collapse)+

lemma epoll_apply_generation:
  assumes "ep_inv b" "0 \<le> fd" "nat fd < ep_capacity b"
  shows "ep_generations (epoll_apply c b) ! nat fd =
         (bump_generation ^^ adds fd [c]) (ep_generations b ! nat fd)"
  using assms
  by (cases c)
     (auto simp: epoll_add_fd_def epoll_remove_fd_frame Let_def ep_inv_def nth_list_update eq_nat_nat_iff)

lemma epoll_fold_generation:
  assumes "ep_inv b" "0 \<le> fd" "nat fd < ep_capacity b"
  shows "ep_inv (fold epoll_apply cs b) \<and> ep_capacity (fold epoll_apply cs b) = ep_capacity b \<and>
         ep_eventfd (fold epoll_apply cs b) = ep_eventfd b \<and>
         ep_generations (fold epoll_apply cs b) ! nat fd =
         (bump_generation ^^ adds fd cs) (ep_generations b ! nat fd)"
  using assms
proof (induction cs arbitrary: b)
  case (Cons c cs)
  have "adds fd (c # cs) = adds fd cs + adds fd [c]" by (cases c) auto
  with Cons.IH [of "epoll_apply c b"] Cons.prems epoll_apply_generation [OF Cons.prems, of c]
  show ?case by (simp add: epoll_apply_frame funpow_add)
qed simp

lemma epoll_add_fd_event:
  assumes "epoll_add_fd ctl_mod ctl_add fd b = (Inr (), Some ev, b1)" "ep_inv b" "fd < 2 ^ 31"
  shows "0 \<le> fd" "nat fd < ep_capacity b1" "unpack_fd (ev_data ev) = fd"
    "unpack_gen (ev_data ev) = ep_generations b1 ! nat fd" "ep_generations b1 ! nat fd \<noteq> 0"
    "ep_active b1 ! nat fd"
  using assms
  by (auto simp: epoll_add_fd_def Let_def ep_inv_def unpack_gen_pack bump_generation_nonzero
        unpack_fd_pack split: if_splits)

section \<open>Properties\<close>

text \<open>
  The word registered with the kernel identifies the registration: from the packed
  value, \<open>unpack_fd\<close> recovers every descriptor in the range of an \<open>int\<close> and \<open>unpack_gen\<close>
  recovers the generation, whatever the other half holds.
\<close>

lemma epoll_pack_roundtrip:
  assumes "- (2 ^ 31) \<le> fd" "fd < 2 ^ 31"
  shows "unpack_fd (pack_fd_gen fd gen) = fd \<and> unpack_gen (pack_fd_gen fd gen) = gen"
  using assms by (simp add: unpack_fd_pack unpack_gen_pack)

lemma epoll_pack_roundtrip_witness:
  "unpack_fd (pack_fd_gen 7 0xFFFFFFFF) = 7 \<and> unpack_gen (pack_fd_gen 7 0xFFFFFFFF) = 0xFFFFFFFF"
  by (rule epoll_pack_roundtrip) simp_all


text \<open>
  An event that a replaced registration left in flight is never delivered for its
  successor: once \<open>add_fd\<close> registered a descriptor, after any further sequence of
  \<open>add_fd\<close> and \<open>remove_fd\<close> calls that registers this descriptor again at least once and
  fewer than \<open>2 ^ 32 - 1\<close> times, an event with the old data is dropped, whatever its mask.
\<close>

lemma epoll_stale_event_dropped:
  assumes inv: "ep_inv b" and fd: "fd < 2 ^ 31"
    and add: "epoll_add_fd ctl_mod ctl_add fd b = (Inr (), Some ev, b1)"
    and again: "0 < adds fd cs" and bound: "adds fd cs < 2 ^ 32 - 1"
    and b2: "b2 = fold epoll_apply cs b1"
  shows "fst (snd (epoll_wait (Inr [\<lparr>ev_events = m, ev_data = ev_data ev\<rparr>]) out b2)) = []"
proof -
  note e = epoll_add_fd_event [OF add inv fd]
  have inv1: "ep_inv b1" using epoll_add_fd_frame(3) [OF add] inv by blast
  have "ep_generations b2 ! nat fd = (bump_generation ^^ adds fd cs) (ep_generations b1 ! nat fd)"
    using epoll_fold_generation [OF inv1 e(1,2), of cs] b2 by simp
  then have "ep_generations b2 ! nat fd \<noteq> unpack_gen (ev_data ev)"
    using bump_funpow_neq [OF e(5) again bound] e(4) by simp
  then show ?thesis by (simp add: epoll_wait_def epoll_collect_spec live_def Let_def e(3))
qed

definition epoll_example :: epoll_backend where
  "epoll_example = \<lparr>ep_epoll_fd = 3, ep_eventfd = 4, ep_capacity = 8, ep_generations = replicate 8 0,
     ep_active = replicate 8 False, ep_wakeup = Running\<rparr>"

definition event_example :: epoll_event where
  "event_example = \<lparr>ev_events = EPOLLET OR EPOLLIN OR EPOLLOUT OR EPOLLERR OR EPOLLHUP OR EPOLLRDHUP,
     ev_data = pack_fd_gen 5 1\<rparr>"

lemma epoll_stale_event_dropped_witness:
  "fst (snd (epoll_wait (Inr [\<lparr>ev_events = 1, ev_data = ev_data event_example\<rparr>]) []
     (fold epoll_apply [Remove 5, Add ENOENT 0 5] (snd (snd (epoll_add_fd ENOENT 0 5 epoll_example)))))) = []"
proof (rule epoll_stale_event_dropped [where cs = "[Remove 5, Add ENOENT 0 5]"])
  show "ep_inv epoll_example" by (simp add: epoll_example_def ep_inv_def)
  show "epoll_add_fd ENOENT 0 5 epoll_example =
    (Inr (), Some event_example, snd (snd (epoll_add_fd ENOENT 0 5 epoll_example)))"
    by (simp add: epoll_example_def event_example_def epoll_add_fd_def Let_def bump_generation_def)
qed simp_all

text \<open>
  An interrupted \<open>epoll_wait\<close> leaves the caller's vector as it was: the events of the
  wait before are handed out a second time, including those of a descriptor that has been
  removed since.
\<close>

lemma epoll_wait_interrupted_keeps_events:
  "fst (snd (epoll_wait (Inl EINTR) out b)) = out \<and> fst (epoll_wait (Inl EINTR) out b) = Inr ()"
  by (simp add: epoll_wait_def)

text \<open>
  The narrowing of the timeout keeps every number of milliseconds below \<open>2 ^ 31\<close>; at
  \<open>2 ^ 31\<close> (a timer 24.9 days away) the value becomes negative, which \<open>epoll_wait\<close>
  takes as no timeout at all.
\<close>

lemma timeout_ms_narrowing:
  "(0 \<le> t \<and> t < 2 ^ 31 \<longrightarrow> timeout_ms (Some t) = t) \<and> timeout_ms (Some (2 ^ 31)) = - (2 ^ 31)"
  by (auto simp: timeout_ms_def sint_word_of_int_range)

lemma timeout_ms_narrowing_witness:
  "timeout_ms (Some 1500) = 1500 \<and> timeout_ms (Some (2 ^ 31)) < 0"
  using timeout_ms_narrowing [of 1500] by simp

end
