(* ===== verification/IoContext.thy ===== *)
theory IoContext
  imports TimerRegistry FdRegistry PostedQueue EpollBackend
begin

text \<open>
  \<open>detail/io_context_impl.hpp\<close>, \<open>impl/io_context_impl.ipp\<close> and
  \<open>detail/operation_awaiter.hpp\<close>: the event loop, which owns the registries and the
  queue of posted callables, and the bridge from a reactor operation to the resumption of
  a coroutine.

  An operation is the number of its \<open>operation_wait_state\<close> in \<open>ioc_ops\<close>. What a callable
  or a resumed coroutine does is a list of calls of the context's interface. The thread a
  call is made on is an argument (\<open>me\<close>, the thread token, never 0). The world outside is
  the record \<open>env\<close>: clock readings, the backend's answers, the calls that other threads
  make while the reactor thread waits, and what each coroutine does when it is resumed. A
  failed \<open>IOCORO_ENSURE\<close> ends the process: the value is \<open>None\<close>. The lists \<open>ioc_log\<close>,
  \<open>ioc_resumed\<close> and \<open>ioc_dropped\<close> only record what happened.
\<close>

section \<open>Data\<close>

datatype executor = This_context | Other_executor nat

record operation_wait_state =
  ow_h :: "nat option"
  ow_ex :: "executor option"
  ow_ec :: error_code
  ow_done :: bool
  ow_stop_cb :: "event_handle option"

datatype stop_token = No_token | Stop_possible | Stop_requested

text \<open>The functions handed to \<open>dispatch_reactor\<close>.\<close>

datatype reactor_fn =
    Track_fd int | Remove_fd_impl int | Cancel_fd int fd_event_kind u64 | Cancel_tm nat u64

datatype basic_call =
    Await_timer int nat "executor option" stop_token
  | Await_fd fd_event_kind int nat "executor option" stop_token
  | Add_fd int
  | Remove_fd int
  | Cancel_event event_handle
  | Request_stop nat
  | Stop
  | Restart
  | Add_work_guard
  | Remove_work_guard

datatype api_call = Call basic_call | Post "api_call list" bool | Dispatch "api_call list" bool

datatype task = Resume nat | User "api_call list" bool | React reactor_fn

datatype backend_call = B_add int | B_remove int | B_wakeup | B_prepare | B_wait "int option"

datatype wait_answer = Wait_events "backend_event list" | Wait_unchanged | Wait_throws

record env =
  en_clk :: "nat \<Rightarrow> int"
  en_add_ok :: "int \<Rightarrow> bool"
  en_wait :: "nat \<Rightarrow> wait_answer"
  en_others :: "nat \<Rightarrow> (nat \<times> api_call list) list"
  en_resume :: "nat \<Rightarrow> api_call list"

record ioc =
  ioc_self :: nat
  ioc_stopped :: bool
  ioc_running :: bool
  ioc_thread :: nat
  ioc_fds :: "nat fd_registry"
  ioc_timers :: "nat timer_registry"
  ioc_posted :: "task posted_queue"
  ioc_guard :: nat
  ioc_events :: "backend_event list"
  ioc_backend :: "backend_call list"
  ioc_ops :: "operation_wait_state list"
  ioc_clock :: nat
  ioc_waits :: nat
  ioc_foreign :: "(nat \<times> nat) list"
  ioc_log :: "nat callback list"
  ioc_resumed :: "nat list"
  ioc_dropped :: "nat list"

definition ioc_init :: "nat \<Rightarrow> ioc" where
  "ioc_init self = \<lparr>ioc_self = self, ioc_stopped = False, ioc_running = False, ioc_thread = 0,
     ioc_fds = fd_registry_init, ioc_timers = timer_registry_init, ioc_posted = posted_queue_init,
     ioc_guard = 0, ioc_events = [], ioc_backend = [], ioc_ops = [], ioc_clock = 0, ioc_waits = 0,
     ioc_foreign = [], ioc_log = [], ioc_resumed = [], ioc_dropped = []\<rparr>"

section \<open>Threads, queue, wake-up\<close>

definition running_in_this_thread :: "nat \<Rightarrow> ioc \<Rightarrow> bool" where
  "running_in_this_thread me s \<longleftrightarrow> ioc_running s \<and> ioc_thread s = me"

definition ioc_backend_call :: "backend_call \<Rightarrow> ioc \<Rightarrow> ioc" where
  "ioc_backend_call c s = s\<lparr>ioc_backend := ioc_backend s @ [c]\<rparr>"

definition ioc_wakeup :: "ioc \<Rightarrow> ioc" where
  "ioc_wakeup s = ioc_backend_call B_wakeup s"

definition ioc_post :: "nat \<Rightarrow> task \<Rightarrow> ioc \<Rightarrow> ioc" where
  "ioc_post me f s =
     (let s1 = s\<lparr>ioc_posted := pq_post (Some f) (ioc_posted s)\<rparr>
      in if \<not> running_in_this_thread me s1 then ioc_wakeup s1 else s1)"

definition ioc_stop :: "ioc \<Rightarrow> ioc" where
  "ioc_stop s = ioc_wakeup (s\<lparr>ioc_stopped := True\<rparr>)"

definition ioc_restart :: "ioc \<Rightarrow> ioc" where
  "ioc_restart s = s\<lparr>ioc_stopped := False\<rparr>"

definition has_work :: "ioc \<Rightarrow> bool" where
  "has_work s \<longleftrightarrow> wg_has_work (ioc_guard s) \<or> has_pending_tasks (ioc_posted s) \<or>
     \<not> tr_empty (ioc_timers s) \<or> \<not> fr_empty (ioc_fds s)"

section \<open>Completion of an operation\<close>

definition executor_post :: "nat \<Rightarrow> executor \<Rightarrow> nat \<Rightarrow> ioc \<Rightarrow> ioc" where
  "executor_post me ex h s =
     (case ex of
        This_context \<Rightarrow> ioc_post me (Resume h) s
      | Other_executor e \<Rightarrow> s\<lparr>ioc_foreign := ioc_foreign s @ [(e, h)]\<rparr>)"

text \<open>\<open>reactor_wait_op_state::complete\<close>\<close>

definition complete :: "nat \<Rightarrow> nat \<Rightarrow> error_code \<Rightarrow> ioc \<Rightarrow> ioc option" where
  "complete me op ec s =
     (let st = ioc_ops s ! op
      in if ow_done st then Some s
         else
           (let s1 = s\<lparr>ioc_ops := (ioc_ops s)[op :=
                        st\<lparr>ow_done := True, ow_ec := ec, ow_stop_cb := None, ow_h := None\<rparr>]\<rparr>
            in case ow_h st of
                 None \<Rightarrow> Some s1
               | Some h \<Rightarrow>
                   (case ow_ex st of
                      None \<Rightarrow> None
                    | Some ex \<Rightarrow>
                        Some (executor_post me ex h (s1\<lparr>ioc_resumed := ioc_resumed s1 @ [op]\<rparr>)))))"

text \<open>Calling an entry of the vtable; \<open>on_complete\<close> completes with no error.\<close>

definition cb_code :: "'a callback \<Rightarrow> error_code" where
  "cb_code cb = (case cb of On_complete _ \<Rightarrow> no_error | On_abort _ ec \<Rightarrow> ec)"

definition run_callback :: "nat \<Rightarrow> nat callback \<Rightarrow> ioc \<Rightarrow> ioc option" where
  "run_callback me cb s =
     complete me (cb_op cb) (cb_code cb) (s\<lparr>ioc_log := ioc_log s @ [cb]\<rparr>)"

fun run_callbacks :: "nat \<Rightarrow> nat callback list \<Rightarrow> ioc \<Rightarrow> ioc option" where
  "run_callbacks me [] s = Some s"
| "run_callbacks me (cb # cbs) s =
     (case run_callback me cb s of None \<Rightarrow> None | Some s1 \<Rightarrow> run_callbacks me cbs s1)"

definition abort_op :: "nat \<Rightarrow> nat option \<Rightarrow> error_code \<Rightarrow> ioc \<Rightarrow> ioc option" where
  "abort_op me op ec s = (case op of None \<Rightarrow> Some s | Some x \<Rightarrow> run_callback me (On_abort x ec) s)"

section \<open>The reactor's interface\<close>

definition remove_fd_impl :: "nat \<Rightarrow> int \<Rightarrow> ioc \<Rightarrow> ioc option" where
  "remove_fd_impl me fd s =
     (let ((read, write), r) = fr_deregister fd (ioc_fds s)
      in case abort_op me read (make_error_code operation_aborted) (s\<lparr>ioc_fds := r\<rparr>) of
           None \<Rightarrow> None
         | Some s1 \<Rightarrow>
             (case abort_op me write (make_error_code operation_aborted) s1 of
                None \<Rightarrow> None
              | Some s2 \<Rightarrow> Some (ioc_backend_call (B_remove fd) s2)))"

definition run_reactor_fn :: "nat \<Rightarrow> reactor_fn \<Rightarrow> ioc \<Rightarrow> ioc option" where
  "run_reactor_fn me f s =
     (case f of
        Track_fd fd \<Rightarrow> Some (s\<lparr>ioc_fds := fr_track fd (ioc_fds s)\<rparr>)
      | Remove_fd_impl fd \<Rightarrow> remove_fd_impl me fd s
      | Cancel_fd fd kind token \<Rightarrow>
          (let ((removed, matched), r) = fr_cancel fd kind token (ioc_fds s)
           in if \<not> matched then Some (s\<lparr>ioc_fds := r\<rparr>)
              else map_option ioc_wakeup
                     (abort_op me removed (make_error_code operation_aborted) (s\<lparr>ioc_fds := r\<rparr>)))
      | Cancel_tm index token \<Rightarrow>
          (let ((op, cancelled), r) = tr_cancel index token (ioc_timers s)
           in abort_op me op (make_error_code operation_aborted) (s\<lparr>ioc_timers := r\<rparr>)))"

definition dispatch_reactor :: "nat \<Rightarrow> reactor_fn \<Rightarrow> ioc \<Rightarrow> ioc option" where
  "dispatch_reactor me f s =
     (if running_in_this_thread me s then run_reactor_fn me f s else Some (ioc_post me (React f) s))"

definition cancel_timer :: "nat \<Rightarrow> nat \<Rightarrow> u64 \<Rightarrow> ioc \<Rightarrow> ioc option" where
  "cancel_timer me index token s = dispatch_reactor me (Cancel_tm index token) s"

definition cancel_fd_event :: "nat \<Rightarrow> int \<Rightarrow> fd_event_kind \<Rightarrow> u64 \<Rightarrow> ioc \<Rightarrow> ioc option" where
  "cancel_fd_event me fd kind token s = dispatch_reactor me (Cancel_fd fd kind token) s"

text \<open>\<open>event_handle::cancel\<close> and \<open>cancel_event\<close>. A handle of another context is that context's.\<close>

definition cancel_event :: "nat \<Rightarrow> event_handle \<Rightarrow> ioc \<Rightarrow> ioc option" where
  "cancel_event me h s =
     (if \<not> valid (\<lambda>i. i = ioc_self s) h then Some s
      else if eh_type h = Kind_fd then cancel_fd_event me (eh_fd h) (eh_fd_kind h) (eh_fd_token h) s
      else if eh_type h = Kind_timer then cancel_timer me (eh_timer_index h) (eh_timer_token h) s
      else Some s)"

definition ioc_add_timer :: "nat \<Rightarrow> int \<Rightarrow> nat option \<Rightarrow> ioc \<Rightarrow> (event_handle \<times> ioc) option" where
  "ioc_add_timer me expiry op s =
     (if ioc_running s \<and> \<not> running_in_this_thread me s then None
      else (let ((index, token), r) = tr_add_timer expiry op (ioc_timers s)
            in Some (make_timer (ioc_self s) index token, s\<lparr>ioc_timers := r\<rparr>)))"

definition register_fd_impl ::
  "nat \<Rightarrow> int \<Rightarrow> nat option \<Rightarrow> fd_event_kind \<Rightarrow> ioc \<Rightarrow> (event_handle \<times> ioc) option" where
  "register_fd_impl me fd op kind s =
     (if ioc_running s \<and> \<not> running_in_this_thread me s then None
      else
        (let (res, r) = (if kind = Read_event then register_read fd op (ioc_fds s)
                         else register_write fd op (ioc_fds s));
             s0 = s\<lparr>ioc_fds := r,
                    ioc_dropped := ioc_dropped s @ (if fd < 0 then (case op of None \<Rightarrow> [] | Some x \<Rightarrow> [x]) else [])\<rparr>
         in case abort_op me (rr_replaced res) (make_error_code operation_aborted) s0 of
              None \<Rightarrow> None
            | Some s1 \<Rightarrow>
                (case (case rr_ready_now res of None \<Rightarrow> Some s1 | Some x \<Rightarrow> run_callback me (On_complete x) s1) of
                   None \<Rightarrow> None
                 | Some s2 \<Rightarrow>
                     Some (if rr_token res = invalid_token then invalid_handle
                           else make_fd (ioc_self s) fd kind (rr_token res), s2))))"

definition ioc_add_fd :: "(int \<Rightarrow> bool) \<Rightarrow> nat \<Rightarrow> int \<Rightarrow> ioc \<Rightarrow> (bool \<times> ioc) option" where
  "ioc_add_fd add_ok me fd s =
     (if fd < 0 then Some (False, s)
      else if \<not> add_ok fd then Some (False, ioc_backend_call (B_add fd) s)
      else
        (let s1 = ioc_backend_call (B_add fd) s
         in case (if ioc_running s1 \<and> \<not> running_in_this_thread me s1 then dispatch_reactor me (Track_fd fd) s1
                  else Some (s1\<lparr>ioc_fds := fr_track fd (ioc_fds s1)\<rparr>)) of
              None \<Rightarrow> None
            | Some s2 \<Rightarrow> Some (True, ioc_wakeup s2)))"

definition ioc_remove_fd :: "nat \<Rightarrow> int \<Rightarrow> ioc \<Rightarrow> ioc option" where
  "ioc_remove_fd me fd s =
     (if fd < 0 then Some s
      else if ioc_running s \<and> \<not> running_in_this_thread me s then dispatch_reactor me (Remove_fd_impl fd) s
      else remove_fd_impl me fd s)"

definition remove_work_guard :: "ioc \<Rightarrow> ioc option" where
  "remove_work_guard s =
     (case wg_remove (ioc_guard s) of
        None \<Rightarrow> None
      | Some (old, new) \<Rightarrow>
          Some (if old = 1 then ioc_wakeup (s\<lparr>ioc_guard := new\<rparr>) else s\<lparr>ioc_guard := new\<rparr>))"

section \<open>Awaiting\<close>

text \<open>\<open>operation_awaiter::await_suspend\<close> before and after the registration.\<close>

definition await_begin :: "nat \<Rightarrow> executor option \<Rightarrow> ioc \<Rightarrow> (nat \<times> ioc) option" where
  "await_begin h ex s =
     (if ex = None then None
      else Some (length (ioc_ops s),
             s\<lparr>ioc_ops := ioc_ops s @ [\<lparr>ow_h = Some h, ow_ex = ex, ow_ec = no_error, ow_done = False,
                 ow_stop_cb = None\<rparr>]\<rparr>))"

definition await_end :: "nat \<Rightarrow> nat \<Rightarrow> stop_token \<Rightarrow> event_handle \<Rightarrow> ioc \<Rightarrow> ioc option" where
  "await_end me op token handle s =
     (case token of
        Stop_requested \<Rightarrow> cancel_event me handle s
      | Stop_possible \<Rightarrow>
          Some (s\<lparr>ioc_ops := (ioc_ops s)[op := (ioc_ops s ! op)\<lparr>ow_stop_cb := Some handle\<rparr>]\<rparr>)
      | No_token \<Rightarrow> Some s)"

definition await_op ::
  "(nat option \<Rightarrow> ioc \<Rightarrow> (event_handle \<times> ioc) option) \<Rightarrow> nat \<Rightarrow> nat \<Rightarrow> executor option \<Rightarrow> stop_token \<Rightarrow>
     ioc \<Rightarrow> ioc option" where
  "await_op register me h ex token s =
     (case await_begin h ex s of
        None \<Rightarrow> None
      | Some (op, s1) \<Rightarrow>
          (case register (Some op) s1 of
             None \<Rightarrow> None
           | Some (handle, s2) \<Rightarrow> await_end me op token handle s2))"

definition await_resume :: "nat \<Rightarrow> ioc \<Rightarrow> unit result" where
  "await_resume op s =
     (let st = ioc_ops s ! op in if ec_set (ow_ec st) then Inl (ow_ec st) else Inr ())"

text \<open>A stop request runs the callback of the operation's stop token, if one is registered.\<close>

definition request_stop :: "nat \<Rightarrow> nat \<Rightarrow> ioc \<Rightarrow> ioc option" where
  "request_stop me op s =
     (if length (ioc_ops s) \<le> op then Some s
      else case ow_stop_cb (ioc_ops s ! op) of None \<Rightarrow> Some s | Some h \<Rightarrow> cancel_event me h s)"

section \<open>Calls and tasks\<close>

definition exec_basic :: "env \<Rightarrow> nat \<Rightarrow> basic_call \<Rightarrow> ioc \<Rightarrow> ioc option" where
  "exec_basic E me c s =
     (case c of
        Await_timer expiry h ex token \<Rightarrow> await_op (ioc_add_timer me expiry) me h ex token s
      | Await_fd kind fd h ex token \<Rightarrow> await_op (\<lambda>op. register_fd_impl me fd op kind) me h ex token s
      | Add_fd fd \<Rightarrow> map_option snd (ioc_add_fd (en_add_ok E) me fd s)
      | Remove_fd fd \<Rightarrow> ioc_remove_fd me fd s
      | Cancel_event h \<Rightarrow> cancel_event me h s
      | Request_stop op \<Rightarrow> request_stop me op s
      | Stop \<Rightarrow> Some (ioc_stop s)
      | Restart \<Rightarrow> Some (ioc_restart s)
      | Add_work_guard \<Rightarrow> Some (s\<lparr>ioc_guard := wg_add (ioc_guard s)\<rparr>)
      | Remove_work_guard \<Rightarrow> remove_work_guard s)"

text \<open>The second component says whether an exception left the calls; it skips the rest.\<close>

fun exec_calls :: "env \<Rightarrow> nat \<Rightarrow> api_call list \<Rightarrow> ioc \<Rightarrow> (ioc \<times> bool) option" where
  "exec_calls E me [] s = Some (s, False)"
| "exec_calls E me (Call c # cs) s =
     (case exec_basic E me c s of None \<Rightarrow> None | Some s1 \<Rightarrow> exec_calls E me cs s1)"
| "exec_calls E me (Post f threw # cs) s = exec_calls E me cs (ioc_post me (User f threw) s)"
| "exec_calls E me (Dispatch f threw # cs) s =
     (if running_in_this_thread me s \<and> \<not> ioc_stopped s then
        (case exec_calls E me f s of
           None \<Rightarrow> None
         | Some (s1, t) \<Rightarrow> if t \<or> threw then Some (s1, True) else exec_calls E me cs s1)
      else exec_calls E me cs (ioc_post me (User f threw) s))"

definition exec_task :: "env \<Rightarrow> nat \<Rightarrow> task \<Rightarrow> ioc \<Rightarrow> (ioc \<times> bool) option" where
  "exec_task E me t s =
     (case t of
        Resume h \<Rightarrow> map_option (\<lambda>(s1, _). (s1, False)) (exec_calls E me (en_resume E h) s)
      | User f threw \<Rightarrow> map_option (\<lambda>(s1, t). (s1, t \<or> threw)) (exec_calls E me f s)
      | React f \<Rightarrow> map_option (\<lambda>s1. (s1, False)) (run_reactor_fn me f s))"

text \<open>Threads other than the reactor's, one after the other.\<close>

fun exec_others :: "env \<Rightarrow> (nat \<times> api_call list) list \<Rightarrow> ioc \<Rightarrow> ioc option" where
  "exec_others E [] s = Some s"
| "exec_others E ((tid, cs) # rest) s =
     (case exec_calls E tid cs s of None \<Rightarrow> None | Some (s1, _) \<Rightarrow> exec_others E rest s1)"

section \<open>One turn of the loop\<close>

definition put_posted :: "task posted_queue \<Rightarrow> ioc \<Rightarrow> ioc" where
  "put_posted q s = s\<lparr>ioc_posted := q\<rparr>"

definition process_posted :: "env \<Rightarrow> nat \<Rightarrow> ioc \<Rightarrow> (ioc \<times> nat \<times> bool) option" where
  "process_posted E me s =
     (if \<not> running_in_this_thread me s then None
      else pq_process ioc_posted put_posted (exec_task E me) s)"

definition process_timers :: "env \<Rightarrow> nat \<Rightarrow> ioc \<Rightarrow> (ioc \<times> nat) option" where
  "process_timers E me s =
     (if \<not> running_in_this_thread me s then None
      else
        (let ((cbs, n), r, k) = process_expired (en_clk E) (ioc_clock s) (ioc_timers s)
         in map_option (\<lambda>s1. (s1, n)) (run_callbacks me cbs (s\<lparr>ioc_timers := r, ioc_clock := k\<rparr>))))"

definition next_wait :: "env \<Rightarrow> int option \<Rightarrow> ioc \<Rightarrow> int option \<times> ioc" where
  "next_wait E deadline s =
     (let (timer_timeout, k) = next_timeout (en_clk E) (ioc_clock s) (ioc_timers s)
      in case deadline of
           None \<Rightarrow> (timer_timeout, s\<lparr>ioc_clock := k\<rparr>)
         | Some d \<Rightarrow>
             (let now = en_clk E k; s1 = s\<lparr>ioc_clock := Suc k\<rparr>
              in if now \<ge> d then (Some 0, s1)
                 else (let remaining = to_ms (d - now)
                       in case timer_timeout of
                            None \<Rightarrow> (Some remaining, s1)
                          | Some t \<Rightarrow> (Some (min remaining t), s1))))"

text \<open>\<open>process_one\<close> for both sides of every event; the number is of the callbacks made.\<close>

definition event_callbacks :: "backend_event \<Rightarrow> nat option \<Rightarrow> nat option \<Rightarrow> nat callback list" where
  "event_callbacks ev read write =
     (let cb = (\<lambda>op. if be_is_error ev then On_abort op (be_ec ev) else On_complete op)
      in (case read of None \<Rightarrow> [] | Some x \<Rightarrow> [cb x]) @ (case write of None \<Rightarrow> [] | Some x \<Rightarrow> [cb x]))"

fun dispatch_events :: "nat \<Rightarrow> backend_event list \<Rightarrow> nat \<Rightarrow> ioc \<Rightarrow> (ioc \<times> nat) option" where
  "dispatch_events me [] n s = Some (s, n)"
| "dispatch_events me (ev # evs) n s =
     (if be_fd ev < 0 then dispatch_events me evs n s
      else
        (let ((read, write), r) = take_ready (be_fd ev) (be_can_read ev) (be_can_write ev) (ioc_fds s);
             cbs = event_callbacks ev read write
         in case run_callbacks me cbs (s\<lparr>ioc_fds := r\<rparr>) of
              None \<Rightarrow> None
            | Some s1 \<Rightarrow> dispatch_events me evs (n + length cbs) s1))"

text \<open>Not returning within the fuel is a value of its own.\<close>

datatype 'a outcome = Done 'a | Fatal | Out_of_fuel

fun drain_posted :: "nat \<Rightarrow> env \<Rightarrow> nat \<Rightarrow> ioc \<Rightarrow> ioc outcome" where
  "drain_posted fuel E me s =
     (if \<not> has_pending_tasks (ioc_posted s) then Done s
      else case fuel of
             0 \<Rightarrow> Out_of_fuel
           | Suc fuel' \<Rightarrow>
               (case process_posted E me s of
                  None \<Rightarrow> Fatal
                | Some (s1, _, _) \<Rightarrow> drain_posted fuel' E me s1))"

declare drain_posted.simps [simp del]

definition backend_failed :: "nat \<Rightarrow> env \<Rightarrow> nat \<Rightarrow> ioc \<Rightarrow> ioc outcome" where
  "backend_failed fuel E me s =
     (let s0 = s\<lparr>ioc_stopped := True\<rparr>;
          ((fds, ops), r) = fr_drain_all (ioc_fds s0);
          s1 = s0\<lparr>ioc_fds := r, ioc_backend := ioc_backend s0 @ map B_remove fds\<rparr>
      in case run_callbacks me (map (\<lambda>op. On_abort op (make_error_code internal_error)) ops) s1 of
           None \<Rightarrow> Fatal
         | Some s2 \<Rightarrow>
             (let (timer_ops, t) = tr_drain_all (ioc_timers s2)
              in case run_callbacks me (map (\<lambda>op. On_abort op (make_error_code internal_error)) timer_ops)
                        (s2\<lparr>ioc_timers := t\<rparr>) of
                   None \<Rightarrow> Fatal
                 | Some s3 \<Rightarrow> drain_posted fuel E me s3))"

definition can_block :: "int option \<Rightarrow> bool" where
  "can_block max_wait = (case max_wait of None \<Rightarrow> True | Some t \<Rightarrow> t > 0)"

definition process_events :: "nat \<Rightarrow> env \<Rightarrow> nat \<Rightarrow> int option \<Rightarrow> ioc \<Rightarrow> (ioc \<times> nat) outcome" where
  "process_events fuel E me max_wait s =
     (if \<not> running_in_this_thread me s then Fatal
      else
        (let s1 = ioc_backend_call (B_wait max_wait) (if can_block max_wait then ioc_backend_call B_prepare s else s);
             n = ioc_waits s1
         in case exec_others E (en_others E n) (s1\<lparr>ioc_waits := Suc n\<rparr>) of
              None \<Rightarrow> Fatal
            | Some s2 \<Rightarrow>
                (case en_wait E n of
                   Wait_throws \<Rightarrow>
                     (case backend_failed fuel E me s2 of
                        Done s3 \<Rightarrow> Done (s3, 0) | Fatal \<Rightarrow> Fatal | Out_of_fuel \<Rightarrow> Out_of_fuel)
                 | Wait_events evs \<Rightarrow>
                     (case dispatch_events me evs 0 (s2\<lparr>ioc_events := evs\<rparr>) of
                        None \<Rightarrow> Fatal | Some r \<Rightarrow> Done r)
                 | Wait_unchanged \<Rightarrow>
                     (case dispatch_events me (ioc_events s2) 0 s2 of None \<Rightarrow> Fatal | Some r \<Rightarrow> Done r))))"

section \<open>Running\<close>

definition finish_turn :: "ioc \<Rightarrow> bool" where
  "finish_turn s \<longleftrightarrow> ioc_stopped s \<or> \<not> has_work s"

text \<open>
  The body of the loop of \<open>run\<close> (no deadline) and \<open>run_for\<close>: \<open>Inl\<close> when it is left,
  with whether an exception did it, and \<open>Inr\<close> when it goes round again.
\<close>

definition loop_turn ::
  "nat \<Rightarrow> env \<Rightarrow> nat \<Rightarrow> int option \<Rightarrow> nat \<Rightarrow> ioc \<Rightarrow> ((ioc \<times> nat \<times> bool) + (ioc \<times> nat)) outcome" where
  "loop_turn fuel E me deadline cnt s =
     (if finish_turn s then Done (Inl (s, cnt, False))
      else case process_posted E me s of
        None \<Rightarrow> Fatal
      | Some (s1, n1, threw) \<Rightarrow>
          if threw then Done (Inl (s1, cnt, True))
          else if finish_turn s1 then Done (Inl (s1, cnt + n1, False))
          else
            (case process_timers E me s1 of
               None \<Rightarrow> Fatal
             | Some (s2, n2) \<Rightarrow>
                 if finish_turn s2 then Done (Inl (s2, cnt + n1 + n2, False))
                 else
                   (let (wait, s3) = next_wait E deadline s2;
                        wait' = (if has_pending_tasks (ioc_posted s3) then Some 0 else wait)
                    in case process_events fuel E me wait' s3 of
                         Done (s4, n3) \<Rightarrow> Done (Inr (s4, cnt + n1 + n2 + n3))
                       | Fatal \<Rightarrow> Fatal | Out_of_fuel \<Rightarrow> Out_of_fuel)))"

fun run_loop :: "nat \<Rightarrow> env \<Rightarrow> nat \<Rightarrow> int option \<Rightarrow> nat \<Rightarrow> ioc \<Rightarrow> (ioc \<times> nat \<times> bool) outcome" where
  "run_loop 0 E me deadline cnt s = Out_of_fuel"
| "run_loop (Suc fuel) E me deadline cnt s =
     (let (late, s0) = (case deadline of
                          None \<Rightarrow> (False, s)
                        | Some d \<Rightarrow> (en_clk E (ioc_clock s) \<ge> d, s\<lparr>ioc_clock := Suc (ioc_clock s)\<rparr>))
      in if late then Done (s0, cnt, False)
         else case loop_turn fuel E me deadline cnt s0 of
                Done (Inl r) \<Rightarrow> Done r
              | Done (Inr (s1, cnt1)) \<Rightarrow> run_loop fuel E me deadline cnt1 s1
              | Fatal \<Rightarrow> Fatal
              | Out_of_fuel \<Rightarrow> Out_of_fuel)"

definition enter_loop :: "nat \<Rightarrow> ioc \<Rightarrow> ioc option" where
  "enter_loop me s = (if ioc_running s then None else Some (s\<lparr>ioc_running := True, ioc_thread := me\<rparr>))"

definition leave_loop :: "ioc \<Rightarrow> ioc" where
  "leave_loop s = s\<lparr>ioc_thread := 0, ioc_running := False\<rparr>"

definition leave_outcome :: "(ioc \<times> nat \<times> bool) outcome \<Rightarrow> (ioc \<times> nat \<times> bool) outcome" where
  "leave_outcome r = (case r of Done (s, n, threw) \<Rightarrow> Done (leave_loop s, n, threw)
     | Fatal \<Rightarrow> Fatal | Out_of_fuel \<Rightarrow> Out_of_fuel)"

definition run :: "nat \<Rightarrow> env \<Rightarrow> nat \<Rightarrow> ioc \<Rightarrow> (ioc \<times> nat \<times> bool) outcome" where
  "run fuel E me s =
     (case enter_loop me s of None \<Rightarrow> Fatal
      | Some s1 \<Rightarrow> leave_outcome (run_loop fuel E me None 0 s1))"

definition run_for :: "nat \<Rightarrow> env \<Rightarrow> nat \<Rightarrow> int \<Rightarrow> ioc \<Rightarrow> (ioc \<times> nat \<times> bool) outcome" where
  "run_for fuel E me timeout s =
     (case enter_loop me s of None \<Rightarrow> Fatal
      | Some s1 \<Rightarrow>
          (let deadline = en_clk E (ioc_clock s1) + timeout * 1000000
           in leave_outcome (run_loop fuel E me (Some deadline) 0 (s1\<lparr>ioc_clock := Suc (ioc_clock s1)\<rparr>))))"

definition run_one :: "nat \<Rightarrow> env \<Rightarrow> nat \<Rightarrow> ioc \<Rightarrow> (ioc \<times> nat \<times> bool) outcome" where
  "run_one fuel E me s =
     (case enter_loop me s of None \<Rightarrow> Fatal
      | Some s1 \<Rightarrow> leave_outcome
          (if finish_turn s1 then Done (s1, 0, False)
           else case process_posted E me s1 of
             None \<Rightarrow> Fatal
           | Some (s2, n, threw) \<Rightarrow>
               if threw then Done (s2, 0, True)
               else if n > 0 then Done (s2, n, False)
               else
                 (case process_timers E me s2 of
                    None \<Rightarrow> Fatal
                  | Some (s3, n') \<Rightarrow>
                      if n' > 0 then Done (s3, n', False)
                      else (let (wait, s4) = next_wait E None s3
                            in case process_events fuel E me wait s4 of
                                 Done (s5, n'') \<Rightarrow> Done (s5, n'', False)
                               | Fatal \<Rightarrow> Fatal | Out_of_fuel \<Rightarrow> Out_of_fuel))))"

end
