(* ===== verification/IoContextInv.thy ===== *)
theory IoContextInv
  imports IoContext
begin

text \<open>
  The invariant of the event loop, kept by every call, task and turn of the loop:
  the registries are consistent; every operation ever started is in exactly one place
  (called back, in a registry, or refused for its negative descriptor); an operation is
  done exactly when it was called back, and then it was resumed once with the code of that
  callback. \<open>ioc_with X\<close> is the invariant with the operations \<open>X\<close> taken out of the
  registries and not yet called back.
\<close>

section \<open>The invariant\<close>

definition wait_ok :: "ioc \<Rightarrow> bool" where
  "wait_ok s \<longleftrightarrow> ioc_resumed s = map cb_op (ioc_log s) \<and>
     (\<forall>op < length (ioc_ops s). ow_ex (ioc_ops s ! op) \<noteq> None \<and>
        (op \<notin> cb_op ` set (ioc_log s) \<longrightarrow> \<not> ow_done (ioc_ops s ! op) \<and> ow_h (ioc_ops s ! op) \<noteq> None)) \<and>
     (\<forall>cb \<in> set (ioc_log s). cb_op cb < length (ioc_ops s) \<and> ow_done (ioc_ops s ! cb_op cb) \<and>
        ow_ec (ioc_ops s ! cb_op cb) = cb_code cb)"

definition ioc_with :: "nat multiset \<Rightarrow> ioc \<Rightarrow> bool" where
  "ioc_with X s \<longleftrightarrow> tr_inv (ioc_timers s) \<and> fr_inv (ioc_fds s) \<and> wait_ok s \<and>
     mset [0..<length (ioc_ops s)] =
       mset (map cb_op (ioc_log s)) + tr_ops (ioc_timers s) + fr_opsm (ioc_fds s) + mset (ioc_dropped s) + X"

abbreviation ioc_inv :: "ioc \<Rightarrow> bool" where
  "ioc_inv s \<equiv> ioc_with {#} s"

lemma ioc_inv_init: "ioc_inv (ioc_init self)"
  by (simp add: ioc_with_def ioc_init_def wait_ok_def tr_inv_init fr_inv_init)
     (simp add: timer_registry_init_def fd_registry_init_def fr_opsm_def)

text \<open>
  What a step may do to the queue of posted callables: append some for which \<open>Q\<close> holds.
  The context itself only posts resumptions and functions for its own thread.
\<close>

definition posts :: "(task \<Rightarrow> bool) \<Rightarrow> ioc \<Rightarrow> ioc \<Rightarrow> bool" where
  "posts Q s s' \<longleftrightarrow> (\<exists>ts. (\<forall>t \<in> set ts. Q t) \<and> ioc_posted s' =
     \<lparr>pq_queue = pq_queue (ioc_posted s) @ map Some ts, pq_pending = pq_pending (ioc_posted s) + length ts\<rparr>)"

fun internal :: "task \<Rightarrow> bool" where
  "internal (User f threw) = False"
| "internal _ = True"

lemma posts_refl: "ioc_posted s' = ioc_posted s \<Longrightarrow> posts Q s s'"
  unfolding posts_def by (rule exI [of _ "[]"]) simp

lemma posts_trans: "posts Q s s' \<Longrightarrow> posts Q s' s'' \<Longrightarrow> posts Q s s''"
  unfolding posts_def by (elim exE conjE, rule_tac x = "ts @ tsa" in exI) auto

lemma posts_mono: "posts Q s s' \<Longrightarrow> (\<And>t. Q t \<Longrightarrow> R t) \<Longrightarrow> posts R s s'"
  by (auto simp: posts_def)

text \<open>
  Everything a callback leaves alone: all but the queue, the wait states, and the records
  of what was called back, resumed and asked of the backend.
\<close>

definition core :: "ioc \<Rightarrow> ioc \<Rightarrow> bool" where
  "core s s' \<longleftrightarrow> ioc_fds s' = ioc_fds s \<and> ioc_timers s' = ioc_timers s \<and> ioc_self s' = ioc_self s \<and>
     ioc_stopped s' = ioc_stopped s \<and> ioc_running s' = ioc_running s \<and> ioc_thread s' = ioc_thread s \<and>
     ioc_guard s' = ioc_guard s \<and> ioc_events s' = ioc_events s \<and> ioc_clock s' = ioc_clock s \<and>
     ioc_waits s' = ioc_waits s \<and> ioc_dropped s' = ioc_dropped s \<and>
     length (ioc_ops s') = length (ioc_ops s) \<and> posts internal s s'"

lemma core_refl: "core s s"
  by (simp add: core_def posts_refl)

lemma core_trans: "core s s' \<Longrightarrow> core s' s'' \<Longrightarrow> core s s''"
  using posts_trans by (auto simp: core_def)

lemma posts_ioc_post: "Q f \<Longrightarrow> posts Q s (ioc_post me f s)"
  unfolding posts_def by (rule exI [of _ "[f]"]) (simp add: ioc_post_def pq_post_def Let_def ioc_wakeup_def ioc_backend_call_def)

lemma ioc_post_fields [simp]:
  "ioc_fds (ioc_post me f s) = ioc_fds s" "ioc_timers (ioc_post me f s) = ioc_timers s"
  "ioc_self (ioc_post me f s) = ioc_self s" "ioc_stopped (ioc_post me f s) = ioc_stopped s"
  "ioc_running (ioc_post me f s) = ioc_running s" "ioc_thread (ioc_post me f s) = ioc_thread s"
  "ioc_guard (ioc_post me f s) = ioc_guard s" "ioc_events (ioc_post me f s) = ioc_events s"
  "ioc_clock (ioc_post me f s) = ioc_clock s" "ioc_waits (ioc_post me f s) = ioc_waits s"
  "ioc_dropped (ioc_post me f s) = ioc_dropped s" "ioc_ops (ioc_post me f s) = ioc_ops s"
  "ioc_log (ioc_post me f s) = ioc_log s" "ioc_resumed (ioc_post me f s) = ioc_resumed s"
  "ioc_foreign (ioc_post me f s) = ioc_foreign s"
  by (simp_all add: ioc_post_def Let_def ioc_wakeup_def ioc_backend_call_def)

lemma ioc_backend_call_fields [simp]:
  "ioc_fds (ioc_backend_call c s) = ioc_fds s" "ioc_timers (ioc_backend_call c s) = ioc_timers s"
  "ioc_self (ioc_backend_call c s) = ioc_self s" "ioc_stopped (ioc_backend_call c s) = ioc_stopped s"
  "ioc_running (ioc_backend_call c s) = ioc_running s" "ioc_thread (ioc_backend_call c s) = ioc_thread s"
  "ioc_guard (ioc_backend_call c s) = ioc_guard s" "ioc_events (ioc_backend_call c s) = ioc_events s"
  "ioc_clock (ioc_backend_call c s) = ioc_clock s" "ioc_waits (ioc_backend_call c s) = ioc_waits s"
  "ioc_dropped (ioc_backend_call c s) = ioc_dropped s" "ioc_ops (ioc_backend_call c s) = ioc_ops s"
  "ioc_log (ioc_backend_call c s) = ioc_log s" "ioc_resumed (ioc_backend_call c s) = ioc_resumed s"
  "ioc_posted (ioc_backend_call c s) = ioc_posted s"
  by (simp_all add: ioc_backend_call_def)

lemma executor_post_fields [simp]:
  "ioc_ops (executor_post me ex h s) = ioc_ops s" "ioc_log (executor_post me ex h s) = ioc_log s"
  "ioc_resumed (executor_post me ex h s) = ioc_resumed s"
  by (cases ex; simp add: executor_post_def)+

lemma core_executor_post: "core s (executor_post me ex h s)"
  by (cases ex) (simp_all add: executor_post_def core_def posts_ioc_post posts_refl)

section \<open>Callbacks\<close>

text \<open>An operation in flight exists and was not called back before.\<close>

lemma in_flight:
  assumes inv: "ioc_with (add_mset op X) s"
  shows "op < length (ioc_ops s)" "op \<notin> cb_op ` set (ioc_log s)"
proof -
  have eq: "mset [0..<length (ioc_ops s)] = add_mset op (mset (map cb_op (ioc_log s)) + tr_ops (ioc_timers s) +
      fr_opsm (ioc_fds s) + mset (ioc_dropped s) + X)"
    using inv by (simp add: ioc_with_def)
  then have "op \<in># mset [0..<length (ioc_ops s)]" by simp
  then show lt: "op < length (ioc_ops s)" by simp
  have "count (mset [0..<length (ioc_ops s)]) op = 1" using lt by simp
  then have "count (mset (map cb_op (ioc_log s))) op = 0" unfolding eq by simp
  then show "op \<notin> cb_op ` set (ioc_log s)" by (simp add: count_eq_zero_iff)
qed

lemma run_callback_with:
  assumes inv: "ioc_with (add_mset (cb_op cb) X) s"
  shows "\<exists>s'. run_callback me cb s = Some s' \<and> ioc_with X s' \<and> core s s' \<and> ioc_log s' = ioc_log s @ [cb]"
proof -
  let ?op = "cb_op cb"
  let ?st = "ioc_ops s ! ?op"
  note fl = in_flight [OF inv]
  have ok: "wait_ok s" using inv by (simp add: ioc_with_def)
  then have st: "\<not> ow_done ?st" "ow_h ?st \<noteq> None" "ow_ex ?st \<noteq> None" using fl by (auto simp: wait_ok_def)
  then obtain h ex where hx: "ow_h ?st = Some h" "ow_ex ?st = Some ex" by auto
  define s1 where "s1 = s\<lparr>ioc_log := ioc_log s @ [cb], ioc_ops := (ioc_ops s)[?op :=
     ?st\<lparr>ow_done := True, ow_ec := cb_code cb, ow_stop_cb := None, ow_h := None\<rparr>],
     ioc_resumed := ioc_resumed s @ [?op]\<rparr>"
  have run: "run_callback me cb s = Some (executor_post me ex h s1)"
    using st hx by (simp add: run_callback_def complete_def Let_def s1_def)
  have core1: "core s s1" by (simp add: core_def s1_def posts_refl)
  then have core2: "core s (executor_post me ex h s1)" using core_executor_post core_trans by blast
  have "wait_ok s1" using ok fl unfolding wait_ok_def
    by (auto simp: s1_def nth_list_update hx image_iff)
  then have "wait_ok (executor_post me ex h s1)" by (simp add: wait_ok_def)
  then have "ioc_with X (executor_post me ex h s1)"
    using inv core2 unfolding ioc_with_def core_def by (simp add: s1_def)
  then show ?thesis using run core2 by (simp add: s1_def)
qed

lemma run_callbacks_with:
  assumes "ioc_with (X + mset (map cb_op cbs)) s"
  shows "\<exists>s'. run_callbacks me cbs s = Some s' \<and> ioc_with X s' \<and> core s s' \<and> ioc_log s' = ioc_log s @ cbs"
  using assms
proof (induction cbs arbitrary: s)
  case (Cons cb cbs)
  then obtain s1 where s1: "run_callback me cb s = Some s1" "ioc_with (X + mset (map cb_op cbs)) s1"
      "core s s1" "ioc_log s1 = ioc_log s @ [cb]"
    using run_callback_with [of cb "X + mset (map cb_op cbs)" s me] by auto
  from Cons.IH [OF s1(2)] s1 show ?case using core_trans by fastforce
qed (simp add: core_refl)

text \<open>A nullable operation as a list, so that every callback goes through \<open>run_callbacks\<close>.\<close>

primrec opt_list :: "'a option \<Rightarrow> 'a list" where
  "opt_list None = []"
| "opt_list (Some x) = [x]"

lemma mset_opt_list [simp]: "mset (opt_list x) = opt_mset x"
  by (cases x) simp_all

lemma abort_op_callbacks: "abort_op me op ec s = run_callbacks me (map (\<lambda>x. On_abort x ec) (opt_list op)) s"
  by (cases op) (simp_all add: abort_op_def split: option.splits)

lemma run_callback_option:
  "(case op of None \<Rightarrow> Some s | Some x \<Rightarrow> run_callback me (On_complete x) s) =
     run_callbacks me (map On_complete (opt_list op)) s"
  by (cases op) (simp_all split: option.splits)

lemma cb_op_map [simp]:
  "map (cb_op \<circ> (\<lambda>x. On_abort x ec)) xs = xs" "map (cb_op \<circ> On_complete) xs = xs"
  by (induction xs) simp_all

lemma abort_op_with:
  assumes "ioc_with (X + opt_mset op) s"
  shows "\<exists>s'. abort_op me op ec s = Some s' \<and> ioc_with X s' \<and> core s s' \<and>
     ioc_log s' = ioc_log s @ map (\<lambda>x. On_abort x ec) (opt_list op)"
  using run_callbacks_with [of X "map (\<lambda>x. On_abort x ec) (opt_list op)" s me] assms
  by (simp add: abort_op_callbacks)

section \<open>Changing a registry\<close>

lemma ioc_with_fds:
  assumes "ioc_with (X + A) s" and "fr_inv r" and "fr_opsm (ioc_fds s) + A = fr_opsm r + B"
  shows "ioc_with (X + B) (s\<lparr>ioc_fds := r\<rparr>)"
proof -
  have "M + fr_opsm (ioc_fds s) + D + (X + A) = M + fr_opsm r + D + (X + B)" for M D
    using assms(3) by (metis (no_types, lifting) add.assoc add.commute)
  then show ?thesis using assms(1,2) by (simp add: ioc_with_def wait_ok_def)
qed

lemma ioc_with_timers:
  assumes "ioc_with (X + A) s" and "tr_inv r" and "tr_ops (ioc_timers s) + A = tr_ops r + B"
  shows "ioc_with (X + B) (s\<lparr>ioc_timers := r\<rparr>)"
proof -
  have "M + tr_ops (ioc_timers s) + F + D + (X + A) = M + tr_ops r + F + D + (X + B)" for M F D
    using assms(3) by (metis (no_types, lifting) add.assoc add.commute)
  then show ?thesis using assms(1,2) by (simp add: ioc_with_def wait_ok_def)
qed

text \<open>The invariant does not read these fields.\<close>

lemma ioc_with_irrelevant [simp]:
  "ioc_with X (s\<lparr>ioc_stopped := b\<rparr>) = ioc_with X s" "ioc_with X (s\<lparr>ioc_running := b\<rparr>) = ioc_with X s"
  "ioc_with X (s\<lparr>ioc_thread := n\<rparr>) = ioc_with X s" "ioc_with X (s\<lparr>ioc_guard := n\<rparr>) = ioc_with X s"
  "ioc_with X (s\<lparr>ioc_events := e\<rparr>) = ioc_with X s" "ioc_with X (s\<lparr>ioc_clock := n\<rparr>) = ioc_with X s"
  "ioc_with X (s\<lparr>ioc_waits := n\<rparr>) = ioc_with X s" "ioc_with X (s\<lparr>ioc_posted := q\<rparr>) = ioc_with X s"
  "ioc_with X (s\<lparr>ioc_backend := bs\<rparr>) = ioc_with X s" "ioc_with X (s\<lparr>ioc_foreign := fs\<rparr>) = ioc_with X s"
  by (simp_all add: ioc_with_def wait_ok_def)

lemma ioc_with_backend_call [simp]: "ioc_with X (ioc_backend_call c s) = ioc_with X s"
  by (simp add: ioc_backend_call_def)

lemma ioc_with_post [simp]: "ioc_with X (ioc_post me f s) = ioc_with X s"
  by (simp add: ioc_post_def Let_def ioc_wakeup_def)

lemma ioc_with_wakeup [simp]: "ioc_with X (ioc_wakeup s) = ioc_with X s"
  by (simp add: ioc_wakeup_def)

lemma ioc_with_put [simp]: "ioc_with X (put_posted q s) = ioc_with X s"
  by (simp add: put_posted_def)

section \<open>Every call keeps the invariant\<close>

text \<open>
  What a call made on some thread keeps beside the invariant: the loop it is made in, the
  queue up to appending, and what was called back before.
\<close>

definition frame :: "ioc \<Rightarrow> ioc \<Rightarrow> bool" where
  "frame s s' \<longleftrightarrow> ioc_self s' = ioc_self s \<and> ioc_running s' = ioc_running s \<and> ioc_thread s' = ioc_thread s \<and>
     ioc_events s' = ioc_events s \<and> ioc_clock s' = ioc_clock s \<and> ioc_waits s' = ioc_waits s \<and>
     posts internal s s' \<and> (\<exists>cbs. ioc_log s' = ioc_log s @ cbs)"

lemma frame_refl [simp]: "frame s s"
  by (simp add: frame_def posts_refl)

lemma frame_trans: "frame s s' \<Longrightarrow> frame s' s'' \<Longrightarrow> frame s s''"
  using posts_trans by (auto simp: frame_def)

lemma core_frame: "core s s' \<Longrightarrow> ioc_log s' = ioc_log s @ cbs \<Longrightarrow> frame s s'"
  by (auto simp: core_def frame_def)

lemma frame_post [simp]: "internal f \<Longrightarrow> frame s (ioc_post me f s)"
  by (simp add: frame_def posts_ioc_post)

lemma frame_backend [simp]: "frame s (ioc_backend_call c s)" "frame s (ioc_wakeup s)"
  by (simp_all add: frame_def posts_refl ioc_wakeup_def)

lemma frame_fields [simp]:
  "frame s (s\<lparr>ioc_fds := r\<rparr>)" "frame s (s\<lparr>ioc_timers := t\<rparr>)" "frame s (s\<lparr>ioc_stopped := b\<rparr>)"
  "frame s (s\<lparr>ioc_guard := n\<rparr>)" "frame s (s\<lparr>ioc_ops := os\<rparr>)" "frame s (s\<lparr>ioc_dropped := ds\<rparr>)"
  by (simp_all add: frame_def posts_refl)

lemma frame_via: "frame s s1 \<Longrightarrow> core s1 s' \<Longrightarrow> ioc_log s' = ioc_log s1 @ cbs \<Longrightarrow> frame s s'"
  using frame_trans core_frame by blast

lemma remove_fd_impl_with:
  assumes inv: "ioc_inv s"
  shows "\<exists>s'. remove_fd_impl me fd s = Some s' \<and> ioc_inv s' \<and> frame s s'"
proof -
  obtain rd wr r where d: "fr_deregister fd (ioc_fds s) = ((rd, wr), r)" by (metis surj_pair)
  have "fr_inv (ioc_fds s)" using inv by (simp add: ioc_with_def)
  then have "fr_inv r" "fr_opsm (ioc_fds s) + {#} = fr_opsm r + (opt_mset rd + opt_mset wr)"
    using fr_inv_deregister [OF _ d] fr_deregister_ops [OF d] by (auto simp: add.assoc)
  then have "ioc_with (opt_mset wr + opt_mset rd) (s\<lparr>ioc_fds := r\<rparr>)"
    using ioc_with_fds [of "{#}" "{#}" s r] inv by (simp add: add.commute)
  then obtain s1 where s1: "abort_op me rd (make_error_code operation_aborted) (s\<lparr>ioc_fds := r\<rparr>) = Some s1"
      "ioc_with (opt_mset wr) s1" "frame s s1"
    using abort_op_with [of "opt_mset wr" rd "s\<lparr>ioc_fds := r\<rparr>" me] frame_via [of s "s\<lparr>ioc_fds := r\<rparr>"] by fastforce
  then obtain s2 where "abort_op me wr (make_error_code operation_aborted) s1 = Some s2" "ioc_inv s2" "frame s s2"
    using abort_op_with [of "{#}" wr s1 me] frame_via by fastforce
  then show ?thesis using d s1(1) frame_trans frame_backend by (fastforce simp: remove_fd_impl_def)
qed

lemma run_reactor_fn_with:
  assumes inv: "ioc_inv s"
  shows "\<exists>s'. run_reactor_fn me f s = Some s' \<and> ioc_inv s' \<and> frame s s'"
proof (cases f)
  case (Track_fd fd)
  then show ?thesis using inv fr_track_spec [of "ioc_fds s" fd] ioc_with_fds [of "{#}" "{#}" s "fr_track fd (ioc_fds s)" "{#}"]
    by (simp add: run_reactor_fn_def ioc_with_def)
next
  case (Remove_fd_impl fd)
  then show ?thesis using remove_fd_impl_with [OF inv] by (simp add: run_reactor_fn_def)
next
  case (Cancel_fd fd kind token)
  obtain op m r where c: "fr_cancel fd kind token (ioc_fds s) = ((op, m), r)" by (metis surj_pair)
  have "fr_inv (ioc_fds s)" using inv by (simp add: ioc_with_def)
  then have "ioc_with (opt_mset op) (s\<lparr>ioc_fds := r\<rparr>)"
    using ioc_with_fds [of "{#}" "{#}" s r "opt_mset op"] inv fr_inv_cancel [OF _ c] fr_cancel_ops [OF c] by simp
  moreover have "op = None" if "\<not> m" using c that by (auto elim: fr_cancel_cases)
  moreover obtain s1 where "abort_op me op (make_error_code operation_aborted) (s\<lparr>ioc_fds := r\<rparr>) = Some s1"
      "ioc_inv s1" "frame s s1"
    using abort_op_with [of "{#}" op "s\<lparr>ioc_fds := r\<rparr>" me] calculation(1) frame_via [of s "s\<lparr>ioc_fds := r\<rparr>"] by fastforce
  ultimately show ?thesis using Cancel_fd c frame_trans frame_backend(2)
    by (cases m) (fastforce simp: run_reactor_fn_def)+
next
  case (Cancel_tm i token)
  obtain op m r where c: "tr_cancel i token (ioc_timers s) = ((op, m), r)" by (metis surj_pair)
  have "tr_inv (ioc_timers s)" using inv by (simp add: ioc_with_def)
  then have "ioc_with (opt_mset op) (s\<lparr>ioc_timers := r\<rparr>)"
    using ioc_with_timers [of "{#}" "{#}" s r "opt_mset op"] inv tr_inv_cancel [OF _ c] tr_cancel_ops [OF c] by simp
  then obtain s1 where "abort_op me op (make_error_code operation_aborted) (s\<lparr>ioc_timers := r\<rparr>) = Some s1"
      "ioc_inv s1" "frame s s1"
    using abort_op_with [of "{#}" op "s\<lparr>ioc_timers := r\<rparr>" me] frame_via [of s "s\<lparr>ioc_timers := r\<rparr>"] by fastforce
  then show ?thesis using Cancel_tm c by (simp add: run_reactor_fn_def)
qed

lemma dispatch_reactor_with:
  assumes "ioc_inv s" shows "\<exists>s'. dispatch_reactor me f s = Some s' \<and> ioc_inv s' \<and> frame s s'"
  using run_reactor_fn_with [OF assms] assms by (simp add: dispatch_reactor_def)

lemma cancel_event_with:
  assumes "ioc_inv s" shows "\<exists>s'. cancel_event me h s = Some s' \<and> ioc_inv s' \<and> frame s s'"
  using dispatch_reactor_with [OF assms] assms
  by (simp add: cancel_event_def cancel_fd_event_def cancel_timer_def)

lemma request_stop_with:
  assumes "ioc_inv s" shows "\<exists>s'. request_stop me op s = Some s' \<and> ioc_inv s' \<and> frame s s'"
  using cancel_event_with [OF assms] assms by (auto simp: request_stop_def split: option.splits)

lemma ioc_remove_fd_with:
  assumes "ioc_inv s" shows "\<exists>s'. ioc_remove_fd me fd s = Some s' \<and> ioc_inv s' \<and> frame s s'"
  using dispatch_reactor_with [OF assms] remove_fd_impl_with [OF assms] assms by (simp add: ioc_remove_fd_def)

lemma ioc_add_fd_with:
  assumes inv: "ioc_inv s" shows "\<exists>b s'. ioc_add_fd add_ok me fd s = Some (b, s') \<and> ioc_inv s' \<and> frame s s'"
proof -
  let ?s1 = "ioc_backend_call (B_add fd) s"
  have inv1: "ioc_inv ?s1" using inv by simp
  have t: "ioc_inv (?s1\<lparr>ioc_fds := fr_track fd (ioc_fds ?s1)\<rparr>)"
    using inv1 fr_track_spec [of "ioc_fds ?s1" fd] ioc_with_fds [of "{#}" "{#}" ?s1 _ "{#}"] by (simp add: ioc_with_def)
  obtain s2 where s2: "(if ioc_running ?s1 \<and> \<not> running_in_this_thread me ?s1 then dispatch_reactor me (Track_fd fd) ?s1
      else Some (?s1\<lparr>ioc_fds := fr_track fd (ioc_fds ?s1)\<rparr>)) = Some s2" "ioc_inv s2" "frame ?s1 s2"
    using dispatch_reactor_with [OF inv1, of me "Track_fd fd"] t
    by (cases "ioc_running ?s1 \<and> \<not> running_in_this_thread me ?s1") auto
  then have "frame s (ioc_wakeup s2)" using frame_trans frame_backend by blast
  then show ?thesis using inv inv1 s2 unfolding ioc_add_fd_def Let_def by auto
qed

section \<open>Awaiting\<close>

lemma await_begin_with:
  assumes "ioc_inv s" "await_begin h ex s = Some (op, s1)"
  shows "ioc_with {#op#} s1" "frame s s1" "op < length (ioc_ops s1)"
proof -
  from assms have op: "op = length (ioc_ops s)" "ex \<noteq> None"
    and s1: "s1 = s\<lparr>ioc_ops := ioc_ops s @ [\<lparr>ow_h = Some h, ow_ex = ex, ow_ec = no_error, ow_done = False, ow_stop_cb = None\<rparr>]\<rparr>"
    by (auto simp: await_begin_def split: if_splits)
  have "wait_ok s" using assms by (simp add: ioc_with_def)
  then have "wait_ok s1" using op(2) by (auto simp: wait_ok_def s1 nth_append less_Suc_eq)
  then show "ioc_with {#op#} s1" using assms(1) by (simp add: ioc_with_def s1 op atLeast0_lessThan_Suc)
  show "frame s s1" "op < length (ioc_ops s1)" by (simp_all add: s1 op)
qed

lemma ioc_add_timer_with:
  assumes inv: "ioc_with {#op#} s" and add: "ioc_add_timer me e (Some op) s = Some (h, s')"
  shows "ioc_inv s'" "frame s s'"
proof -
  obtain i tok r where t: "tr_add_timer e (Some op) (ioc_timers s) = ((i, tok), r)" by (metis surj_pair)
  then have s': "s' = s\<lparr>ioc_timers := r\<rparr>" using add by (auto simp: ioc_add_timer_def split: if_splits)
  have "tr_inv (ioc_timers s)" using inv by (simp add: ioc_with_def)
  then show "ioc_inv s'" using ioc_with_timers [of "{#}" "{#op#}" s r "{#}"] inv t
      tr_inv_add_timer tr_add_timer_armed(2) by (fastforce simp: s')
  show "frame s s'" by (simp add: s')
qed

text \<open>The four effects of a descriptor registration on the context, once the registry is updated.\<close>

lemma register_callbacks_with:
  assumes "ioc_with (opt_mset a + opt_mset b) s"
  shows "\<exists>s1 s2. abort_op me a ec s = Some s1 \<and>
    (case b of None \<Rightarrow> Some s1 | Some x \<Rightarrow> run_callback me (On_complete x) s1) = Some s2 \<and>
    ioc_inv s2 \<and> frame s s2"
proof -
  obtain s1 where s1: "abort_op me a ec s = Some s1" "ioc_with (opt_mset b) s1" "frame s s1"
    using abort_op_with [of "opt_mset b" a s me] assms core_frame by (fastforce simp: add.commute)
  then obtain s2 where "run_callbacks me (map On_complete (opt_list b)) s1 = Some s2" "ioc_inv s2" "frame s s2"
    using run_callbacks_with [of "{#}" "map On_complete (opt_list b)" s1 me] frame_via by fastforce
  then show ?thesis using s1 by (simp add: run_callback_option)
qed

lemma register_fd_step:
  assumes inv: "ioc_with {#op#} s" and reg: "fr_register fd (Some op) kind (ioc_fds s) = (res, r)"
  shows "ioc_with (opt_mset (rr_replaced res) + opt_mset (rr_ready_now res))
     (s\<lparr>ioc_fds := r, ioc_dropped := ioc_dropped s @ (if fd < 0 then [op] else [])\<rparr>)"
proof (cases "fd < 0")
  case True
  then have "r = ioc_fds s" "rr_replaced res = None" "rr_ready_now res = None"
    using reg by (auto simp: fr_register_def)
  then show ?thesis using True inv by (simp add: ioc_with_def wait_ok_def)
next
  case False
  have fr: "fr_inv (ioc_fds s)" using inv by (simp add: ioc_with_def)
  have "ioc_with ({#} + (opt_mset (rr_replaced res) + opt_mset (rr_ready_now res))) (s\<lparr>ioc_fds := r\<rparr>)"
    using inv fr_inv_register [OF fr reg] fr_register_ops [OF fr reg] False
    by (intro ioc_with_fds [where A = "{#op#}"]) (simp_all add: add.assoc)
  then show ?thesis using False by (simp add: ioc_with_def wait_ok_def)
qed

lemma register_fd_impl_eq:
  assumes "fr_register fd (Some op) kind (ioc_fds s) = (res, r)"
  shows "register_fd_impl me fd (Some op) kind s =
    (if ioc_running s \<and> \<not> running_in_this_thread me s then None
     else case abort_op me (rr_replaced res) (make_error_code operation_aborted)
            (s\<lparr>ioc_fds := r, ioc_dropped := ioc_dropped s @ (if fd < 0 then [op] else [])\<rparr>) of
       None \<Rightarrow> None
     | Some s1 \<Rightarrow> (case (case rr_ready_now res of None \<Rightarrow> Some s1 | Some x \<Rightarrow> run_callback me (On_complete x) s1) of
         None \<Rightarrow> None
       | Some s2 \<Rightarrow> Some (if rr_token res = invalid_token then invalid_handle
                          else make_fd (ioc_self s) fd kind (rr_token res), s2)))"
proof -
  have "(if kind = Read_event then register_read fd (Some op) (ioc_fds s)
      else register_write fd (Some op) (ioc_fds s)) = (res, r)"
    using assms by (cases kind) (simp_all add: register_read_def register_write_def)
  then show ?thesis unfolding register_fd_impl_def by (simp add: Let_def)
qed

lemma register_fd_impl_with:
  assumes inv: "ioc_with {#op#} s" and ok: "ioc_running s \<longrightarrow> running_in_this_thread me s"
  shows "\<exists>h s'. register_fd_impl me fd (Some op) kind s = Some (h, s') \<and> ioc_inv s' \<and> frame s s'"
proof -
  obtain res r where reg: "fr_register fd (Some op) kind (ioc_fds s) = (res, r)" by (metis surj_pair)
  define s0 where "s0 = s\<lparr>ioc_fds := r, ioc_dropped := ioc_dropped s @ (if fd < 0 then [op] else [])\<rparr>"
  have f0: "frame s s0" unfolding s0_def using frame_trans frame_fields(1,6) by blast
  obtain s1 s2 where "abort_op me (rr_replaced res) (make_error_code operation_aborted) s0 = Some s1"
      "(case rr_ready_now res of None \<Rightarrow> Some s1 | Some x \<Rightarrow> run_callback me (On_complete x) s1) = Some s2"
      "ioc_inv s2" "frame s0 s2"
    using register_callbacks_with [OF register_fd_step [OF inv reg]] unfolding s0_def by blast
  then show ?thesis using register_fd_impl_eq [OF reg, of me] ok f0 frame_trans
    unfolding s0_def by fastforce
qed

lemma nth_update_field: "(\<And>x. f (g x) = f x) \<Longrightarrow> f (xs[i := g (xs ! i)] ! j) = f (xs ! j)"
  by (cases "i < length xs") (auto simp: nth_list_update list_update_beyond)

lemma ioc_with_stop_cb:
  "ioc_with X s \<Longrightarrow> ioc_with X (s\<lparr>ioc_ops := (ioc_ops s)[op := (ioc_ops s ! op)\<lparr>ow_stop_cb := c\<rparr>]\<rparr>)"
  unfolding ioc_with_def wait_ok_def by (simp add: nth_update_field [where g = "ow_stop_cb_update (\<lambda>_. c)"])

lemma await_end_with:
  assumes "ioc_inv s" shows "\<exists>s'. await_end me op token h s = Some s' \<and> ioc_inv s' \<and> frame s s'"
  using cancel_event_with [OF assms] ioc_with_stop_cb [OF assms] assms
  by (cases token) (auto simp: await_end_def)

lemma await_op_with:
  assumes inv: "ioc_inv s" and ex: "ex \<noteq> None"
    and reg: "\<And>op s1. ioc_with {#op#} s1 \<Longrightarrow> frame s s1 \<Longrightarrow>
      \<exists>h s2. register (Some op) s1 = Some (h, s2) \<and> ioc_inv s2 \<and> frame s1 s2"
  shows "\<exists>s'. await_op register me k ex token s = Some s' \<and> ioc_inv s' \<and> frame s s'"
proof -
  obtain op s1 where b: "await_begin k ex s = Some (op, s1)" using ex by (auto simp: await_begin_def)
  note w = await_begin_with [OF inv b]
  obtain h s2 where r: "register (Some op) s1 = Some (h, s2)" "ioc_inv s2" "frame s1 s2"
    using reg [OF w(1,2)] by blast
  obtain s3 where "await_end me op token h s2 = Some s3" "ioc_inv s3" "frame s2 s3"
    using await_end_with [OF r(2)] by blast
  then show ?thesis using b r w(2) frame_trans by (fastforce simp: await_op_def)
qed

section \<open>Calls and tasks\<close>

text \<open>
  The preconditions the source checks with \<open>IOCORO_ENSURE\<close>: an awaiting coroutine has an
  executor and, while a loop runs, is on its thread; a work guard is only removed after
  it was added.
\<close>

fun call_ok :: "nat \<Rightarrow> basic_call \<Rightarrow> ioc \<Rightarrow> bool" where
  "call_ok me (Await_timer e h ex token) s \<longleftrightarrow> ex \<noteq> None \<and> (ioc_running s \<longrightarrow> running_in_this_thread me s)"
| "call_ok me (Await_fd kind fd h ex token) s \<longleftrightarrow> ex \<noteq> None \<and> (ioc_running s \<longrightarrow> running_in_this_thread me s)"
| "call_ok me Remove_work_guard s \<longleftrightarrow> 0 < ioc_guard s"
| "call_ok me _ s \<longleftrightarrow> True"

lemma frame_running: "frame s s' \<Longrightarrow> running_in_this_thread me s' = running_in_this_thread me s"
  by (simp add: frame_def running_in_this_thread_def)

lemma exec_basic_with:
  assumes inv: "ioc_inv s" and ok: "call_ok me c s"
  shows "\<exists>s'. exec_basic E me c s = Some s' \<and> ioc_inv s' \<and> frame s s'"
proof (cases c)
  case (Await_timer e h ex token)
  have "\<exists>h s2. ioc_add_timer me e (Some op) s1 = Some (h, s2) \<and> ioc_inv s2 \<and> frame s1 s2"
    if "ioc_with {#op#} s1" "frame s s1" for op s1
  proof -
    have "ioc_running s1 \<longrightarrow> running_in_this_thread me s1"
      using ok Await_timer that(2) by (simp add: frame_def running_in_this_thread_def)
    then obtain h s2 where "ioc_add_timer me e (Some op) s1 = Some (h, s2)"
      by (fastforce simp: ioc_add_timer_def split: prod.splits)
    then show ?thesis using ioc_add_timer_with [OF that(1)] by blast
  qed
  then show ?thesis using Await_timer ok await_op_with [OF inv] by (simp add: exec_basic_def)
next
  case (Await_fd kind fd h ex token)
  have "\<exists>h s2. register_fd_impl me fd (Some op) kind s1 = Some (h, s2) \<and> ioc_inv s2 \<and> frame s1 s2"
    if "ioc_with {#op#} s1" "frame s s1" for op s1
    using register_fd_impl_with [OF that(1)] ok Await_fd that(2)
    by (simp add: frame_def running_in_this_thread_def)
  then show ?thesis using Await_fd ok await_op_with [OF inv] by (simp add: exec_basic_def)
next
  case (Add_fd fd)
  then show ?thesis using ioc_add_fd_with [OF inv] by (fastforce simp: exec_basic_def)
next
  case (Remove_fd fd)
  then show ?thesis using ioc_remove_fd_with [OF inv] by (simp add: exec_basic_def)
next
  case (Cancel_event h)
  then show ?thesis using cancel_event_with [OF inv] by (simp add: exec_basic_def)
next
  case (Request_stop op)
  then show ?thesis using request_stop_with [OF inv] by (simp add: exec_basic_def)
next
  case Stop
  have "frame s (ioc_stop s)" unfolding ioc_stop_def using frame_trans frame_fields(3) frame_backend(2) by blast
  then show ?thesis using Stop inv by (simp add: exec_basic_def ioc_stop_def)
next
  case Remove_work_guard
  have "frame s (ioc_wakeup (s\<lparr>ioc_guard := n\<rparr>))" for n using frame_trans frame_fields(4) frame_backend(2) by blast
  then show ?thesis using Remove_work_guard ok inv
    by (auto simp: exec_basic_def remove_work_guard_def wg_remove_def)
qed (use inv in \<open>auto simp: exec_basic_def ioc_restart_def\<close>)

lemma exec_basic_none: "\<not> call_ok me c s \<Longrightarrow> exec_basic E me c s = None"
proof (cases c)
  case (Await_timer e h ex token)
  moreover assume "\<not> call_ok me c s"
  ultimately show ?thesis
    by (auto simp: exec_basic_def await_op_def await_begin_def ioc_add_timer_def running_in_this_thread_def)
next
  case (Await_fd kind fd h ex token)
  moreover assume "\<not> call_ok me c s"
  ultimately show ?thesis
    by (auto simp: exec_basic_def await_op_def await_begin_def register_fd_impl_def running_in_this_thread_def)
qed (auto simp: exec_basic_def remove_work_guard_def wg_remove_def)

lemma exec_basic_some:
  assumes "ioc_inv s" "exec_basic E me c s = Some s'" shows "ioc_inv s' \<and> frame s s'"
  using exec_basic_with [OF assms(1)] exec_basic_none assms(2) by (metis option.distinct(1) option.inject)

text \<open>The same frame for calls that post callables of their own, with \<open>Q\<close> for these.\<close>

definition wframe :: "(task \<Rightarrow> bool) \<Rightarrow> ioc \<Rightarrow> ioc \<Rightarrow> bool" where
  "wframe Q s s' \<longleftrightarrow> ioc_self s' = ioc_self s \<and> ioc_running s' = ioc_running s \<and> ioc_thread s' = ioc_thread s \<and>
     ioc_events s' = ioc_events s \<and> ioc_clock s' = ioc_clock s \<and> ioc_waits s' = ioc_waits s \<and>
     posts Q s s' \<and> (\<exists>cbs. ioc_log s' = ioc_log s @ cbs)"

lemma wframe_refl [simp]: "wframe Q s s"
  by (simp add: wframe_def posts_refl)

lemma wframe_trans: "wframe Q s s' \<Longrightarrow> wframe Q s' s'' \<Longrightarrow> wframe Q s s''"
  using posts_trans by (auto simp: wframe_def)

lemma wframe_post: "Q f \<Longrightarrow> wframe Q s (ioc_post me f s)"
  by (simp add: wframe_def posts_ioc_post)

lemma frame_wframe: "frame s s' \<Longrightarrow> (\<And>t. internal t \<Longrightarrow> Q t) \<Longrightarrow> wframe Q s s'"
  using posts_mono by (auto simp: wframe_def frame_def)

lemma wframe_running: "wframe Q s s' \<Longrightarrow> running_in_this_thread me s' = running_in_this_thread me s"
  by (simp add: wframe_def running_in_this_thread_def)

abbreviation any_task :: "task \<Rightarrow> bool" where
  "any_task \<equiv> \<lambda>_. True"

lemma exec_calls_some:
  "ioc_inv s \<Longrightarrow> exec_calls E me cs s = Some (s', t) \<Longrightarrow> ioc_inv s' \<and> wframe any_task s s'"
proof (induction E me cs s arbitrary: s' t rule: exec_calls.induct)
  case (2 E me c cs s)
  then obtain s1 where s1: "exec_basic E me c s = Some s1" "exec_calls E me cs s1 = Some (s', t)"
    by (auto split: option.splits)
  then have "ioc_inv s1 \<and> wframe any_task s s1" using exec_basic_some [OF "2.prems"(1) s1(1)] frame_wframe [of s s1 any_task] by simp
  then show ?case using "2.IH" [OF s1(1)] s1(2) wframe_trans [of any_task s s1 s'] by blast
next
  case (3 E me f threw cs s)
  let ?s1 = "ioc_post me (User f threw) s"
  have "ioc_inv s' \<and> wframe any_task ?s1 s'" using "3.IH" [of s' t] "3.prems" by simp
  then show ?case using wframe_trans [of any_task s "ioc_post me (User f threw) s" s'] wframe_post [of any_task "User f threw" s me] by blast
next
  case (4 E me f threw cs s)
  show ?case
  proof (cases "running_in_this_thread me s \<and> \<not> ioc_stopped s")
    case True
    then obtain s1 b where s1: "exec_calls E me f s = Some (s1, b)"
      using "4.prems"(2) by (auto split: option.splits)
    then have i: "ioc_inv s1 \<and> wframe any_task s s1" using "4.IH"(1) [OF True] "4.prems"(1) by blast
    show ?thesis
    proof (cases "b \<or> threw")
      case True
      then show ?thesis using i s1 "4.prems"(2) \<open>running_in_this_thread me s \<and> \<not> ioc_stopped s\<close> by auto
    next
      case F: False
      then have "exec_calls E me cs s1 = Some (s', t)" using s1 "4.prems"(2) True by auto
      then show ?thesis using "4.IH"(2) [OF True s1 refl F] i wframe_trans [of any_task s s1 s'] by blast
    qed
  next
    case False
    then have "exec_calls E me cs (ioc_post me (User f threw) s) = Some (s', t)"
      using "4.prems"(2) by (simp only: exec_calls.simps if_False)
    then have "ioc_inv s' \<and> wframe any_task (ioc_post me (User f threw) s) s'"
      using "4.IH"(3) [OF False] "4.prems"(1) by simp
    then show ?thesis using wframe_trans [of any_task s "ioc_post me (User f threw) s" s'] wframe_post [of any_task "User f threw" s me] by blast
  qed
qed simp

lemma exec_task_some:
  assumes "ioc_inv s" "exec_task E me t s = Some (s', threw)" shows "ioc_inv s' \<and> wframe any_task s s'"
proof (cases t)
  case (React f)
  then show ?thesis using assms run_reactor_fn_with [OF assms(1), of me f] frame_wframe [of s s' any_task] by (auto simp: exec_task_def)
qed (use assms exec_calls_some in \<open>auto simp: exec_task_def\<close>)

lemma exec_others_some:
  "ioc_inv s \<Longrightarrow> exec_others E ts s = Some s' \<Longrightarrow> ioc_inv s' \<and> wframe any_task s s'"
proof (induction E ts s arbitrary: s' rule: exec_others.induct)
  case (2 E tid cs rest s)
  then obtain s1 b where s1: "exec_calls E tid cs s = Some (s1, b)" "exec_others E rest s1 = Some s'"
    by (auto split: option.splits)
  then show ?case using exec_calls_some [OF "2.prems"(1) s1(1)] "2.IH" [OF s1(1) refl _ s1(2)] wframe_trans [of any_task s s1 s'] by blast
qed simp

end
