(* ===== verification/EventLoop.thy ===== *)
theory EventLoop
  imports IoContextInv "HOL-Library.Sublist"
begin

text \<open>
  The turns of the event loop and \<open>run\<close>, \<open>run_one\<close> and \<open>run_for\<close>: they keep the
  invariant of \<open>IoContextInv\<close>, never fail a check of their own, and end as they should.
  \<open>posted_client\<close> and \<open>total_client\<close> are interpreted on the context, which gives the
  facts on the queue of posted callables.
\<close>

section \<open>Inside the loop\<close>

text \<open>
  The state of a context whose loop runs on thread \<open>me\<close>, with the callbacks \<open>L\<close> already
  made and at least \<open>K\<close> clock readings taken.
\<close>

definition at_loop :: "nat \<Rightarrow> nat callback list \<Rightarrow> nat \<Rightarrow> ioc \<Rightarrow> bool" where
  "at_loop me L K s \<longleftrightarrow> ioc_inv s \<and> running_in_this_thread me s \<and> prefix L (ioc_log s) \<and> K \<le> ioc_clock s"

lemma at_loopD:
  assumes "at_loop me L K s"
  shows "ioc_inv s" "running_in_this_thread me s" "prefix L (ioc_log s)" "K \<le> ioc_clock s"
  using assms by (auto simp: at_loop_def)

lemma at_loop_wframe: "at_loop me L K s \<Longrightarrow> ioc_inv s' \<Longrightarrow> wframe Q s s' \<Longrightarrow> at_loop me L K s'"
  by (auto simp: at_loop_def wframe_def running_in_this_thread_def)

lemma at_loop_core:
  "at_loop me L K s \<Longrightarrow> ioc_inv s' \<Longrightarrow> core s s' \<Longrightarrow> ioc_log s' = ioc_log s @ cbs \<Longrightarrow> at_loop me L K s'"
  by (auto simp: at_loop_def core_def running_in_this_thread_def)

lemma at_loop_irrelevant [simp]:
  "at_loop me L K (put_posted q s) = at_loop me L K s" "at_loop me L K (ioc_backend_call c s) = at_loop me L K s"
  "at_loop me L K (s\<lparr>ioc_events := e\<rparr>) = at_loop me L K s" "at_loop me L K (s\<lparr>ioc_waits := n\<rparr>) = at_loop me L K s"
  "at_loop me L K (s\<lparr>ioc_stopped := b\<rparr>) = at_loop me L K s"
  by (simp_all add: at_loop_def running_in_this_thread_def put_posted_def)

lemma exec_task_loop: "at_loop me L K s \<Longrightarrow> exec_task E me t s = Some (s', threw) \<Longrightarrow> at_loop me L K s'"
  using exec_task_some at_loop_wframe at_loopD(1) by blast

lemma exec_task_posts:
  assumes "ioc_inv s" "exec_task E me t s = Some (s', threw)"
  shows "\<exists>ts. ioc_posted s' = \<lparr>pq_queue = pq_queue (ioc_posted s) @ ts, pq_pending = pq_pending (ioc_posted s) + length ts\<rparr>"
proof -
  have "posts any_task s s'" using exec_task_some [OF assms] by (simp add: wframe_def)
  then show ?thesis by (auto simp: posts_def)
qed

interpretation ioc_queue: posted_client ioc_posted put_posted "exec_task E me" "at_loop me L K" for E me L K
proof unfold_locales
  show "ioc_posted (put_posted q s) = q" for q s by (simp add: put_posted_def)
  show "at_loop me L K s \<Longrightarrow> at_loop me L K (put_posted q s)" for s q by simp
  show "at_loop me L K s \<Longrightarrow> exec_task E me t s = Some (s', threw) \<Longrightarrow> at_loop me L K s'" for s t s' threw
    by (rule exec_task_loop)
  show "at_loop me L K s \<Longrightarrow> exec_task E me t s = Some (s', threw) \<Longrightarrow>
    \<exists>ts. ioc_posted s' = \<lparr>pq_queue = pq_queue (ioc_posted s) @ ts, pq_pending = pq_pending (ioc_posted s) + length ts\<rparr>"
    for s t s' threw using exec_task_posts at_loopD(1) by blast
qed

lemma process_posted_loop:
  assumes "at_loop me L K s" "process_posted E me s = Some (s', n, threw)"
  shows "at_loop me L K s'"
  using ioc_queue.process_preserves [of E me s s' n threw L K] assms at_loopD(2) [OF assms(1)]
  by (simp add: process_posted_def)

text \<open>Running callbacks inside the loop, after a registry handed the operations out.\<close>

lemma callbacks_loop:
  assumes "at_loop me L K s" "ioc_with (mset (map cb_op cbs)) s1"
    and "running_in_this_thread me s1" "ioc_log s1 = ioc_log s" "ioc_clock s \<le> ioc_clock s1"
  shows "\<exists>s'. run_callbacks me cbs s1 = Some s' \<and> at_loop me L K s' \<and> core s1 s' \<and> ioc_log s' = ioc_log s1 @ cbs"
proof -
  obtain s' where "run_callbacks me cbs s1 = Some s'" "ioc_inv s'" "core s1 s'" "ioc_log s' = ioc_log s1 @ cbs"
    using run_callbacks_with [of "{#}" cbs s1 me] assms(2) by auto
  then show ?thesis using assms by (auto simp: at_loop_def core_def running_in_this_thread_def)
qed

lemma process_timers_loop:
  assumes l: "at_loop me L K s"
  shows "\<exists>s' n. process_timers E me s = Some (s', n) \<and> at_loop me L K s' \<and> ioc_fds s' = ioc_fds s \<and>
     ioc_clock s \<le> ioc_clock s' \<and> posts internal s s'"
proof -
  obtain cbs n r k where pe: "process_expired (en_clk E) (ioc_clock s) (ioc_timers s) = ((cbs, n), r, k)"
    by (metis surj_pair)
  have tr: "tr_inv (ioc_timers s)" using at_loopD(1) [OF l] by (simp add: ioc_with_def)
  have k: "ioc_clock s \<le> k" using tr pe by (rule process_expired_spec)
  let ?s1 = "s\<lparr>ioc_timers := r, ioc_clock := k\<rparr>"
  have "ioc_with (mset (map cb_op cbs)) ?s1"
    using ioc_with_timers [of "{#}" "{#}" s r "mset (map cb_op cbs)"] at_loopD(1) [OF l]
      tr_inv_process_expired [OF tr pe] process_expired_ops [OF tr pe] by (simp add: add.commute)
  then obtain s' where "run_callbacks me cbs ?s1 = Some s'" "at_loop me L K s'" "core ?s1 s'"
    using callbacks_loop [OF l, of cbs ?s1] at_loopD(2) [OF l] k by (auto simp: running_in_this_thread_def)
  moreover from this(3) have "ioc_fds s' = ioc_fds s" "ioc_clock s \<le> ioc_clock s'" "posts internal s s'"
    using k by (auto simp: core_def posts_def)
  ultimately show ?thesis using pe at_loopD(2) [OF l] by (simp add: process_timers_def)
qed

lemma next_wait_loop:
  assumes "at_loop me L K s" "next_wait E d s = (w, s')"
  shows "at_loop me L K s'" "ioc_posted s' = ioc_posted s" "ioc_clock s \<le> ioc_clock s'"
proof -
  obtain t k where nt: "next_timeout (en_clk E) (ioc_clock s) (ioc_timers s) = (t, k)" by (metis surj_pair)
  then have k: "ioc_clock s \<le> k" by (auto simp: next_timeout_def Let_def split: list.splits if_splits)
  have "\<exists>k'. s' = s\<lparr>ioc_clock := k'\<rparr> \<and> ioc_clock s \<le> k'"
    using assms(2) nt k by (auto simp: next_wait_def Let_def split: option.splits if_splits)
  then show "at_loop me L K s'" "ioc_posted s' = ioc_posted s" "ioc_clock s \<le> ioc_clock s'"
    using assms(1) by (auto simp: at_loop_def running_in_this_thread_def)
qed

lemma event_callbacks_ops: "mset (map cb_op (event_callbacks ev rd wr)) = opt_mset rd + opt_mset wr"
  by (cases rd; cases wr) (simp_all add: event_callbacks_def Let_def)

lemma dispatch_events_loop:
  assumes "at_loop me L K s"
  shows "\<exists>s' m. dispatch_events me evs n s = Some (s', m) \<and> at_loop me L K s' \<and> posts internal s s' \<and>
     ioc_clock s' = ioc_clock s"
  using assms
proof (induction evs arbitrary: n s)
  case Nil
  then show ?case by (simp add: posts_refl)
next
  case (Cons ev evs)
  obtain rd wr r where t: "take_ready (be_fd ev) (be_can_read ev) (be_can_write ev) (ioc_fds s) = ((rd, wr), r)"
    by (metis surj_pair)
  let ?cbs = "event_callbacks ev rd wr"
  let ?s1 = "s\<lparr>ioc_fds := r\<rparr>"
  have fr: "fr_inv (ioc_fds s)" using at_loopD(1) [OF Cons.prems] by (simp add: ioc_with_def)
  have "ioc_with (mset (map cb_op ?cbs)) ?s1"
    using ioc_with_fds [of "{#}" "{#}" s r "opt_mset rd + opt_mset wr"] at_loopD(1) [OF Cons.prems]
      fr_inv_take_ready [OF fr t] take_ready_ops [OF fr t] event_callbacks_ops [of ev rd wr] by (simp add: add.assoc)
  then obtain s1 where s1: "run_callbacks me ?cbs ?s1 = Some s1" "at_loop me L K s1" "core ?s1 s1"
    using callbacks_loop [OF Cons.prems, of ?cbs ?s1] at_loopD(2) [OF Cons.prems]
    by (auto simp: running_in_this_thread_def)
  then have "posts internal s s1" "ioc_clock s1 = ioc_clock s" by (auto simp: core_def posts_def)
  then show ?case using Cons.IH [OF Cons.prems, of n] Cons.IH [OF s1(2), of "n + length ?cbs"] s1(1) t posts_trans
    by (simp add: Let_def) blast
qed

lemma exec_others_loop: "at_loop me L K s \<Longrightarrow> exec_others E ts s = Some s' \<Longrightarrow> at_loop me L K s'"
  using exec_others_some at_loop_wframe at_loopD(1) by blast

lemma drain_posted_loop:
  "at_loop me L K s \<Longrightarrow> drain_posted fuel E me s = Done s' \<Longrightarrow>
     at_loop me L K s' \<and> \<not> has_pending_tasks (ioc_posted s')"
proof (induction fuel arbitrary: s)
  case 0
  then show ?case by (simp add: drain_posted.simps [of 0] split: if_splits)
next
  case (Suc fuel)
  then show ?case
    using process_posted_loop
    by (fastforce simp: drain_posted.simps [of "Suc fuel"] split: if_splits option.splits)
qed

text \<open>After a backend failure both registries are empty and all they held was aborted.\<close>

definition internal_aborts :: "nat list \<Rightarrow> nat callback list" where
  "internal_aborts ops = map (\<lambda>op. On_abort op (make_error_code internal_error)) ops"

lemma cb_op_internal_aborts [simp]: "map cb_op (internal_aborts ops) = ops"
  by (induction ops) (simp_all add: internal_aborts_def)

lemma backend_failed_step:
  assumes l: "at_loop me L K s"
  obtains ops s3 where "backend_failed fuel E me s = drain_posted fuel E me s3"
    "at_loop me L K s3" "ioc_stopped s3" "tr_empty (ioc_timers s3)" "fr_empty (ioc_fds s3)"
    "ioc_log s3 = ioc_log s @ internal_aborts ops" "mset ops = fr_opsm (ioc_fds s) + tr_ops (ioc_timers s)"
    "posts internal s s3" "ioc_clock s3 = ioc_clock s"
proof -
  obtain fds ops r where d: "fr_drain_all (ioc_fds s) = ((fds, ops), r)" by (metis surj_pair)
  define s1 where "s1 = s\<lparr>ioc_stopped := True, ioc_fds := r, ioc_backend := ioc_backend s @ map B_remove fds\<rparr>"
  have fr: "fr_inv (ioc_fds s)" and tr: "tr_inv (ioc_timers s)" using at_loopD(1) [OF l] by (simp_all add: ioc_with_def)
  have "ioc_with (mset (map cb_op (internal_aborts ops))) (s\<lparr>ioc_fds := r\<rparr>)"
    using ioc_with_fds [of "{#}" "{#}" s r "mset ops"] at_loopD(1) [OF l] fr_inv_drain_all [OF fr d]
      fr_drain_all_ops [OF d] by (simp add: add.commute)
  then have w1: "ioc_with (mset (map cb_op (internal_aborts ops))) s1"
    by (simp add: s1_def ioc_with_def wait_ok_def)
  have loop1: "running_in_this_thread me s1" "ioc_log s1 = ioc_log s" "ioc_clock s1 = ioc_clock s"
    using at_loopD(2) [OF l] by (simp_all add: s1_def running_in_this_thread_def)
  obtain s2 where s2: "run_callbacks me (internal_aborts ops) s1 = Some s2" "at_loop me L K s2" "core s1 s2"
      "ioc_log s2 = ioc_log s @ internal_aborts ops"
    using callbacks_loop [OF l w1] loop1 by auto
  obtain tops t where t: "tr_drain_all (ioc_timers s2) = (tops, t)" by (metis surj_pair)
  define s2' where "s2' = s2\<lparr>ioc_timers := t\<rparr>"
  have same: "ioc_timers s2 = ioc_timers s" using s2(3) by (simp add: core_def s1_def)
  have w2: "ioc_with (mset (map cb_op (internal_aborts tops))) s2'"
    using ioc_with_timers [of "{#}" "{#}" s2 t "mset tops"] at_loopD(1) [OF s2(2)] tr_inv_drain_all [OF tr]
      tr_drain_all_ops [OF t] t by (simp add: add.commute same s2'_def)
  have loop2: "running_in_this_thread me s2'" "ioc_log s2' = ioc_log s2" "ioc_clock s2 \<le> ioc_clock s2'"
    using at_loopD(2) [OF s2(2)] by (simp_all add: s2'_def running_in_this_thread_def)
  obtain s3 where s3: "run_callbacks me (internal_aborts tops) s2' = Some s3" "at_loop me L K s3" "core s2' s3"
      "ioc_log s3 = ioc_log s2' @ internal_aborts tops"
    using callbacks_loop [OF s2(2) w2 loop2] by auto
  show thesis
  proof
    show "backend_failed fuel E me s = drain_posted fuel E me s3"
      using d t s2(1) s3(1) by (simp add: backend_failed_def Let_def internal_aborts_def s1_def s2'_def)
    show "at_loop me L K s3" by (fact s3(2))
    show "ioc_stopped s3" "ioc_clock s3 = ioc_clock s" using s2(3) s3(3) by (simp_all add: core_def s1_def s2'_def)
    have "posts internal s s1" "posts internal s2 s2'" by (simp_all add: posts_refl s1_def s2'_def)
    then show "posts internal s s3" using s2(3) s3(3) posts_trans unfolding core_def by blast
    show "tr_empty (ioc_timers s3)" using s3(3) tr_drain_all_empty [OF _ t] same tr by (simp add: core_def s2'_def)
    show "fr_empty (ioc_fds s3)" using s2(3) s3(3) fr_drain_all_empty [OF fr d] by (simp add: core_def s1_def s2'_def)
    show "ioc_log s3 = ioc_log s @ internal_aborts (ops @ tops)"
      using s2(4) s3(4) by (simp add: s2'_def internal_aborts_def)
    show "mset (ops @ tops) = fr_opsm (ioc_fds s) + tr_ops (ioc_timers s)"
      using fr_drain_all_ops [OF d] fr_drain_all_empty [OF fr d] tr_drain_all_ops [OF t] tr_drain_all_empty [OF _ t] same tr
      by simp
  qed
qed

lemma process_events_loop:
  assumes l: "at_loop me L K s" and pe: "process_events fuel E me w s = Done (s', n)"
  shows "at_loop me L K s'"
proof -
  define s1 where "s1 = ioc_backend_call (B_wait w)
    (if can_block w then ioc_backend_call B_prepare s else s)"
  have l1: "at_loop me L K (s1\<lparr>ioc_waits := Suc (ioc_waits s1)\<rparr>)" using l by (simp add: s1_def)
  obtain s2 where s2: "exec_others E (en_others E (ioc_waits s1)) (s1\<lparr>ioc_waits := Suc (ioc_waits s1)\<rparr>) = Some s2"
    using pe by (auto simp: process_events_def Let_def s1_def split: if_splits option.splits)
  have l2: "at_loop me L K s2" using l1 s2 by (rule exec_others_loop)
  have "process_events fuel E me w s =
     (case en_wait E (ioc_waits s1) of
        Wait_throws \<Rightarrow> (case backend_failed fuel E me s2 of
            Done s3 \<Rightarrow> Done (s3, 0) | Fatal \<Rightarrow> Fatal | Out_of_fuel \<Rightarrow> Out_of_fuel)
      | Wait_events evs \<Rightarrow> (case dispatch_events me evs 0 (s2\<lparr>ioc_events := evs\<rparr>) of
            None \<Rightarrow> Fatal | Some r \<Rightarrow> Done r)
      | Wait_unchanged \<Rightarrow> (case dispatch_events me (ioc_events s2) 0 s2 of None \<Rightarrow> Fatal | Some r \<Rightarrow> Done r))"
    using s2 at_loopD(2) [OF l] by (simp add: process_events_def Let_def s1_def)
  note eq = this
  show ?thesis
  proof (cases "en_wait E (ioc_waits s1)")
    case (Wait_events evs)
    have "at_loop me L K (s2\<lparr>ioc_events := evs\<rparr>)" using l2 by simp
    then show ?thesis using dispatch_events_loop [of me L K "s2\<lparr>ioc_events := evs\<rparr>" evs 0] pe eq Wait_events by auto
  next
    case Wait_unchanged
    then show ?thesis using dispatch_events_loop [OF l2, of "ioc_events s2" 0] pe eq by auto
  next
    case Wait_throws
    obtain s3 where "backend_failed fuel E me s2 = drain_posted fuel E me s3" "at_loop me L K s3"
      using l2 by (rule backend_failed_step)
    then show ?thesis using drain_posted_loop pe eq Wait_throws by (auto split: outcome.splits)
  qed
qed

section \<open>Running\<close>

text \<open>The ways one turn of the loop can go, with what holds of the state it ends in.\<close>

lemma loop_turn_loop:
  assumes l: "at_loop me L K s" and t: "loop_turn fuel E me d c s = Done r"
  shows "case r of Inl (s', n, threw) \<Rightarrow> at_loop me L K s' \<and> (threw \<or> finish_turn s')
     | Inr (s', n) \<Rightarrow> at_loop me L K s'"
proof (cases "finish_turn s")
  case True
  then show ?thesis using t l by (auto simp: loop_turn_def)
next
  case a: False
  then obtain s1 n1 threw where p: "process_posted E me s = Some (s1, n1, threw)"
    using t by (auto simp: loop_turn_def split: option.splits)
  have l1: "at_loop me L K s1" using l p by (rule process_posted_loop)
  obtain s2 n2 where t2: "process_timers E me s1 = Some (s2, n2)" and l2: "at_loop me L K s2"
    using process_timers_loop [OF l1] by blast
  obtain w s3 where w: "next_wait E d s2 = (w, s3)" by (metis surj_pair)
  have l3: "at_loop me L K s3" using l2 w by (rule next_wait_loop)
  show ?thesis
  proof (cases "threw \<or> finish_turn s1 \<or> finish_turn s2")
    case True
    then show ?thesis using t a p t2 l1 l2
      by (cases threw; cases "finish_turn s1") (auto simp: loop_turn_def)
  next
    case False
    define w' where "w' = (if has_pending_tasks (ioc_posted s3) then Some 0 else w)"
    have "loop_turn fuel E me d c s = (case process_events fuel E me w' s3 of
        Done (s4, n3) \<Rightarrow> Done (Inr (s4, c + n1 + n2 + n3)) | Fatal \<Rightarrow> Fatal | Out_of_fuel \<Rightarrow> Out_of_fuel)"
      using a p t2 w False by (simp add: loop_turn_def Let_def w'_def)
    then obtain s4 n3 where "process_events fuel E me w' s3 = Done (s4, n3)" "r = Inr (s4, c + n1 + n2 + n3)"
      using t by (auto split: outcome.splits)
    then show ?thesis using process_events_loop [OF l3] by auto
  qed
qed

lemma run_loop_loop:
  "at_loop me L K s \<Longrightarrow> run_loop fuel E me d c s = Done (s', n, threw) \<Longrightarrow>
     at_loop me L K s' \<and> (threw \<or> finish_turn s' \<or> (\<exists>t. d = Some t \<and> (\<exists>k < ioc_clock s'. t \<le> en_clk E k)))"
proof (induction fuel E me d c s rule: run_loop.induct)
  case (2 fuel E me d c s)
  obtain late s0 where dl: "(case d of None \<Rightarrow> (False, s)
      | Some t \<Rightarrow> (en_clk E (ioc_clock s) \<ge> t, s\<lparr>ioc_clock := Suc (ioc_clock s)\<rparr>)) = (late, s0)"
    by (metis surj_pair)
  have l0: "at_loop me L K s0" using "2.prems"(1) dl
    by (auto simp: at_loop_def running_in_this_thread_def split: option.splits)
  show ?case
  proof (cases late)
    case True
    then have "s' = s0" "\<exists>t. d = Some t \<and> t \<le> en_clk E (ioc_clock s) \<and> ioc_clock s < ioc_clock s0"
      using "2.prems"(2) dl by (auto split: option.splits)
    then show ?thesis using l0 by blast
  next
    case False
    then obtain r where r: "loop_turn fuel E me d c s0 = Done r"
      using "2.prems"(2) dl by (auto split: outcome.splits)
    note turn = loop_turn_loop [OF l0 r]
    show ?thesis
    proof (cases r)
      case (Inl x)
      then show ?thesis using "2.prems"(2) dl False r turn by auto
    next
      case (Inr x)
      then obtain s1 c1 where x: "r = Inr (s1, c1)" by (cases x) auto
      then have "run_loop fuel E me d c1 s1 = Done (s', n, threw)" using "2.prems"(2) dl False r by auto
      moreover have "at_loop me L K s1" using turn x by simp
      ultimately show ?thesis using "2.IH" [OF dl [symmetric] refl False r x refl] by blast
    qed
  qed
qed simp

lemma enter_loop_at: "ioc_inv s \<Longrightarrow> enter_loop me s = Some s1 \<Longrightarrow> at_loop me (ioc_log s) (ioc_clock s) s1"
  by (auto simp: enter_loop_def at_loop_def running_in_this_thread_def split: if_splits)

lemma at_loop_leave: "at_loop me L K s \<Longrightarrow> ioc_inv (leave_loop s) \<and> \<not> ioc_running (leave_loop s)"
  by (simp add: at_loop_def leave_loop_def)

lemma finish_turn_leave [simp]: "finish_turn (leave_loop s) = finish_turn s"
  by (simp add: finish_turn_def leave_loop_def has_work_def)

lemma run_done:
  assumes inv: "ioc_inv s" and r: "run fuel E me s = Done (s', n, threw)"
  shows "ioc_inv s' \<and> \<not> ioc_running s' \<and> (threw \<or> finish_turn s') \<and> prefix (ioc_log s) (ioc_log s')"
proof -
  obtain s1 s2 where s1: "enter_loop me s = Some s1" and r2: "run_loop fuel E me None 0 s1 = Done (s2, n, threw)"
    and s': "s' = leave_loop s2"
    using r by (auto simp: run_def leave_outcome_def split: option.splits outcome.splits prod.splits)
  note l = run_loop_loop [OF enter_loop_at [OF inv s1] r2]
  then show ?thesis using at_loop_leave at_loopD(3) s' by (auto simp: leave_loop_def finish_turn_def has_work_def)
qed

lemma run_for_done:
  assumes inv: "ioc_inv s" and r: "run_for fuel E me t s = Done (s', n, threw)"
  shows "ioc_inv s' \<and> \<not> ioc_running s' \<and> prefix (ioc_log s) (ioc_log s') \<and>
     (threw \<or> finish_turn s' \<or> (\<exists>k < ioc_clock s'. en_clk E (ioc_clock s) + t * 1000000 \<le> en_clk E k))"
proof -
  obtain s1 s2 where s1: "enter_loop me s = Some s1"
    and r2: "run_loop fuel E me (Some (en_clk E (ioc_clock s1) + t * 1000000)) 0
      (s1\<lparr>ioc_clock := Suc (ioc_clock s1)\<rparr>) = Done (s2, n, threw)"
    and s': "s' = leave_loop s2"
    using r by (auto simp: run_for_def leave_outcome_def Let_def split: option.splits outcome.splits prod.splits)
  have c: "ioc_clock s1 = ioc_clock s" using s1 by (auto simp: enter_loop_def split: if_splits)
  have "at_loop me (ioc_log s) (ioc_clock s) (s1\<lparr>ioc_clock := Suc (ioc_clock s1)\<rparr>)"
    using enter_loop_at [OF inv s1] by (simp add: at_loop_def running_in_this_thread_def)
  note l = run_loop_loop [OF this r2]
  then show ?thesis using at_loop_leave at_loopD(3) s' c by (auto simp: leave_loop_def finish_turn_def has_work_def)
qed

lemma run_one_done:
  assumes inv: "ioc_inv s" and r: "run_one fuel E me s = Done (s', n, threw)"
  shows "ioc_inv s' \<and> \<not> ioc_running s' \<and> prefix (ioc_log s) (ioc_log s')"
proof -
  obtain s1 where s1: "enter_loop me s = Some s1" using r by (auto simp: run_one_def split: option.splits)
  note l1 = enter_loop_at [OF inv s1]
  have leave: "ioc_inv s' \<and> \<not> ioc_running s' \<and> prefix (ioc_log s) (ioc_log s')"
    if "at_loop me (ioc_log s) (ioc_clock s) x" "s' = leave_loop x" for x
    using that at_loop_leave at_loopD(3) by (auto simp: leave_loop_def)
  show ?thesis
  proof (cases "finish_turn s1")
    case True
    then show ?thesis using r s1 l1 by (intro leave [of s1]) (auto simp: run_one_def leave_outcome_def)
  next
    case a: False
    then obtain s2 n1 b where p: "process_posted E me s1 = Some (s2, n1, b)"
      using r s1 by (auto simp: run_one_def leave_outcome_def split: option.splits)
    have l2: "at_loop me (ioc_log s) (ioc_clock s) s2" using l1 p by (rule process_posted_loop)
    obtain s3 n2 where t: "process_timers E me s2 = Some (s3, n2)" and l3: "at_loop me (ioc_log s) (ioc_clock s) s3"
      using process_timers_loop [OF l2] by blast
    obtain w s4 where w: "next_wait E None s3 = (w, s4)" by (metis surj_pair)
    have l4: "at_loop me (ioc_log s) (ioc_clock s) s4" using l3 w by (rule next_wait_loop)
    consider "s' = leave_loop s2" | "s' = leave_loop s3"
      | s5 n3 where "process_events fuel E me w s4 = Done (s5, n3)" "s' = leave_loop s5"
      using r s1 a p t w
      by (auto simp: run_one_def leave_outcome_def Let_def split: if_splits outcome.splits prod.splits)
    then show ?thesis using leave l2 l3 process_events_loop [OF l4] by cases blast+
  qed
qed

section \<open>No check fails\<close>

text \<open>
  What is asked of callables and coroutines so that no \<open>IOCORO_ENSURE\<close> can fail: they
  await with an executor, and leave the removal of work guards, which needs a matching
  addition, to their owners. Other threads, besides, do not await on this context.
\<close>

fun is_await :: "basic_call \<Rightarrow> bool" where
  "is_await (Await_timer e h ex token) = True"
| "is_await (Await_fd kind fd h ex token) = True"
| "is_await _ = False"

fun basic_ok :: "basic_call \<Rightarrow> bool" where
  "basic_ok (Await_timer e h ex token) \<longleftrightarrow> ex \<noteq> None"
| "basic_ok (Await_fd kind fd h ex token) \<longleftrightarrow> ex \<noteq> None"
| "basic_ok Remove_work_guard \<longleftrightarrow> False"
| "basic_ok _ \<longleftrightarrow> True"

fun calls_ok :: "api_call list \<Rightarrow> bool" where
  "calls_ok [] \<longleftrightarrow> True"
| "calls_ok (Call c # cs) \<longleftrightarrow> basic_ok c \<and> calls_ok cs"
| "calls_ok (Post f threw # cs) \<longleftrightarrow> calls_ok f \<and> calls_ok cs"
| "calls_ok (Dispatch f threw # cs) \<longleftrightarrow> calls_ok f \<and> calls_ok cs"

fun foreign_ok :: "api_call list \<Rightarrow> bool" where
  "foreign_ok [] \<longleftrightarrow> True"
| "foreign_ok (Call c # cs) \<longleftrightarrow> basic_ok c \<and> \<not> is_await c \<and> foreign_ok cs"
| "foreign_ok (Post f threw # cs) \<longleftrightarrow> calls_ok f \<and> foreign_ok cs"
| "foreign_ok (Dispatch f threw # cs) \<longleftrightarrow> calls_ok f \<and> foreign_ok cs"

fun task_ok :: "task \<Rightarrow> bool" where
  "task_ok (User f threw) \<longleftrightarrow> calls_ok f"
| "task_ok _ \<longleftrightarrow> True"

definition env_ok :: "env \<Rightarrow> nat \<Rightarrow> bool" where
  "env_ok E me \<longleftrightarrow> (\<forall>h. calls_ok (en_resume E h)) \<and>
     (\<forall>n. \<forall>(tid, cs) \<in> set (en_others E n). tid \<noteq> me \<and> foreign_ok cs)"

definition fit :: "ioc \<Rightarrow> bool" where
  "fit s \<longleftrightarrow> (\<forall>f \<in> set (pq_queue (ioc_posted s)). pred_option task_ok f)"

lemma internal_ok: "internal t \<Longrightarrow> task_ok t"
  by (cases t) simp_all

lemma fit_posts: "fit s \<Longrightarrow> posts Q s s' \<Longrightarrow> (\<And>t. Q t \<Longrightarrow> task_ok t) \<Longrightarrow> fit s'"
  by (auto simp: fit_def posts_def)

lemma fit_internal: "fit s \<Longrightarrow> posts internal s s' \<Longrightarrow> fit s'"
  using fit_posts internal_ok by blast

lemma exec_basic_total:
  assumes "ioc_inv s" "basic_ok c" "running_in_this_thread me s \<or> \<not> is_await c"
  shows "\<exists>s'. exec_basic E me c s = Some s' \<and> ioc_inv s' \<and> wframe task_ok s s'"
proof -
  have "call_ok me c s" using assms(2,3) by (cases c) simp_all
  then show ?thesis using exec_basic_with [OF assms(1)] frame_wframe internal_ok by blast
qed

lemma post_total: "ioc_inv s \<Longrightarrow> calls_ok f \<Longrightarrow>
  ioc_inv (ioc_post me (User f threw) s) \<and> wframe task_ok s (ioc_post me (User f threw) s)"
  by (simp add: wframe_post)

lemma exec_calls_total:
  "ioc_inv s \<Longrightarrow> running_in_this_thread me s \<Longrightarrow> calls_ok cs \<Longrightarrow>
     \<exists>s' t. exec_calls E me cs s = Some (s', t) \<and> ioc_inv s' \<and> wframe task_ok s s'"
proof (induction E me cs s rule: exec_calls.induct)
  case (2 E me c cs s)
  obtain s1 where s1: "exec_basic E me c s = Some s1" "ioc_inv s1" "wframe task_ok s s1"
    using exec_basic_total [OF "2.prems"(1), of c me E] "2.prems"(2,3) by auto
  then obtain s2 t where "exec_calls E me cs s1 = Some (s2, t)" "ioc_inv s2" "wframe task_ok s1 s2"
    using "2.IH" [OF s1(1,2)] "2.prems" wframe_running by auto
  then show ?case using s1 wframe_trans by auto
next
  case (3 E me f threw cs s)
  note p = post_total [OF "3.prems"(1), of f me threw]
  have r: "running_in_this_thread me (ioc_post me (User f threw) s)"
    using "3.prems"(2) by (simp add: running_in_this_thread_def)
  show ?case using "3.IH" [OF _ r] p "3.prems" wframe_trans by fastforce
next
  case (4 E me f threw cs s)
  show ?case
  proof (cases "ioc_stopped s")
    case True
    note p = post_total [OF "4.prems"(1), of f me threw]
    have r: "running_in_this_thread me (ioc_post me (User f threw) s)"
      using "4.prems"(2) by (simp add: running_in_this_thread_def)
    show ?thesis using "4.IH"(3) [OF _ _ r] p "4.prems" True wframe_trans by fastforce
  next
    case False
    then obtain s1 t where s1: "exec_calls E me f s = Some (s1, t)" "ioc_inv s1" "wframe task_ok s s1"
      using "4.IH"(1) "4.prems" by auto
    have "\<exists>s2 t. exec_calls E me cs s1 = Some (s2, t) \<and> ioc_inv s2 \<and> wframe task_ok s1 s2" if "\<not> (t \<or> threw)"
      using "4.IH"(2) [OF _ s1(1) refl that s1(2)] "4.prems" False wframe_running [OF s1(3)] by auto
    then show ?thesis using s1 False "4.prems"(2) wframe_trans by (cases "t \<or> threw") fastforce+
  qed
qed auto

lemma exec_foreign_total:
  "ioc_inv s \<Longrightarrow> \<not> running_in_this_thread tid s \<Longrightarrow> foreign_ok cs \<Longrightarrow>
     \<exists>s' t. exec_calls E tid cs s = Some (s', t) \<and> ioc_inv s' \<and> wframe task_ok s s'"
proof (induction cs arbitrary: s rule: foreign_ok.induct)
  case (2 c cs)
  obtain s1 where s1: "exec_basic E tid c s = Some s1" "ioc_inv s1" "wframe task_ok s s1"
    using exec_basic_total [OF "2.prems"(1), of c tid E] "2.prems"(3) by auto
  then obtain s2 t where "exec_calls E tid cs s1 = Some (s2, t)" "ioc_inv s2" "wframe task_ok s1 s2"
    using "2.IH" [OF s1(2)] "2.prems" wframe_running by auto
  then show ?case using s1 wframe_trans by auto
next
  case (3 f threw cs)
  note p = post_total [OF "3.prems"(1), of f tid threw]
  have r: "\<not> running_in_this_thread tid (ioc_post tid (User f threw) s)"
    using "3.prems"(2) by (simp add: running_in_this_thread_def)
  show ?case using "3.IH" [OF _ r] p "3.prems" wframe_trans by fastforce
next
  case (4 f threw cs)
  note p = post_total [OF "4.prems"(1), of f tid threw]
  have r: "\<not> running_in_this_thread tid (ioc_post tid (User f threw) s)"
    using "4.prems"(2) by (simp add: running_in_this_thread_def)
  show ?case using "4.IH" [OF _ r] p "4.prems" wframe_trans by fastforce
qed auto

lemma exec_task_total:
  assumes l: "at_loop me L K s" and env: "env_ok E me" and ok: "task_ok t"
  shows "\<exists>s' b. exec_task E me t s = Some (s', b) \<and> posts task_ok s s'"
proof (cases t)
  case (Resume h)
  then show ?thesis using exec_calls_total [OF at_loopD(1,2) [OF l], of "en_resume E h" E] env
    by (auto simp: exec_task_def env_ok_def wframe_def)
next
  case (User f threw)
  then show ?thesis using exec_calls_total [OF at_loopD(1,2) [OF l], of f E] ok
    by (auto simp: exec_task_def wframe_def)
next
  case (React f)
  then show ?thesis using run_reactor_fn_with [OF at_loopD(1) [OF l], of me f] posts_mono internal_ok
    by (fastforce simp: exec_task_def frame_def)
qed

interpretation ioc_total: total_client ioc_posted put_posted "exec_task E me" "\<lambda>s. at_loop me L K s \<and> env_ok E me" task_ok
  for E me L K
proof unfold_locales
  show "at_loop me L K s \<and> env_ok E me \<Longrightarrow> task_ok t \<Longrightarrow> \<exists>s' b ts. exec_task E me t s = Some (s', b) \<and>
      (\<forall>t \<in> set ts. task_ok t) \<and> ioc_posted s' =
      \<lparr>pq_queue = pq_queue (ioc_posted s) @ map Some ts, pq_pending = pq_pending (ioc_posted s) + length ts\<rparr>" for s t
    using exec_task_total [of me L K s E t] by (auto simp: posts_def)
  show "ioc_posted (put_posted q s) = q" for q s by (simp add: put_posted_def)
  show "at_loop me L K s \<and> env_ok E me \<Longrightarrow> at_loop me L K (put_posted q s) \<and> env_ok E me" for s q by simp
  show "at_loop me L K s \<and> env_ok E me \<Longrightarrow> exec_task E me t s = Some (s', threw) \<Longrightarrow> at_loop me L K s' \<and> env_ok E me"
    for s t s' threw using exec_task_loop by blast
  show "at_loop me L K s \<and> env_ok E me \<Longrightarrow> exec_task E me t s = Some (s', threw) \<Longrightarrow>
    \<exists>ts. ioc_posted s' = \<lparr>pq_queue = pq_queue (ioc_posted s) @ ts, pq_pending = pq_pending (ioc_posted s) + length ts\<rparr>"
    for s t s' threw using exec_task_posts at_loopD(1) by blast
qed

lemma process_posted_total:
  assumes "at_loop me L K s" "env_ok E me" "fit s"
  shows "\<exists>s' n threw. process_posted E me s = Some (s', n, threw) \<and> fit s'"
  using ioc_total.process_total [of me L K s E] assms at_loopD(2) [OF assms(1)]
  by (auto simp: process_posted_def fit_def)

lemma exec_others_total:
  assumes "at_loop me L K s" "fit s" "\<forall>(tid, cs) \<in> set ts. tid \<noteq> me \<and> foreign_ok cs"
  shows "\<exists>s'. exec_others E ts s = Some s' \<and> fit s'"
  using assms
proof (induction ts arbitrary: s)
  case (Cons x ts)
  obtain tid cs where x: "x = (tid, cs)" by (cases x)
  have "\<not> running_in_this_thread tid s" using Cons.prems(3) at_loopD(2) [OF Cons.prems(1)] x
    by (auto simp: running_in_this_thread_def)
  then obtain s1 t where s1: "exec_calls E tid cs s = Some (s1, t)" "ioc_inv s1" "wframe task_ok s s1"
    using exec_foreign_total [OF at_loopD(1) [OF Cons.prems(1)], of tid cs E] Cons.prems(3) x by auto
  have "at_loop me L K s1" using Cons.prems(1) s1(2,3) by (rule at_loop_wframe)
  moreover have "fit s1" using s1(3) fit_posts [OF Cons.prems(2)] by (auto simp: wframe_def)
  ultimately show ?case using Cons.IH [of s1] Cons.prems(3) x s1(1) by simp
qed simp

lemma drain_posted_total:
  "at_loop me L K s \<Longrightarrow> env_ok E me \<Longrightarrow> fit s \<Longrightarrow>
     drain_posted fuel E me s = Out_of_fuel \<or> (\<exists>s'. drain_posted fuel E me s = Done s' \<and> fit s')"
proof (induction fuel arbitrary: s)
  case 0
  then show ?case by (simp add: drain_posted.simps [of 0])
next
  case (Suc fuel)
  obtain s1 n b where "process_posted E me s = Some (s1, n, b)" "fit s1" using process_posted_total [OF Suc.prems] by blast
  then show ?case using Suc.IH [of s1] Suc.prems process_posted_loop [OF Suc.prems(1)]
    by (simp add: drain_posted.simps [of "Suc fuel"])
qed

lemma process_events_total:
  assumes l: "at_loop me L K s" and env: "env_ok E me" and fit: "fit s"
  shows "(\<exists>n. en_wait E n = Wait_throws) \<and> process_events fuel E me w s = Out_of_fuel \<or>
    (\<exists>s' n. process_events fuel E me w s = Done (s', n) \<and> fit s')"
proof -
  define s1 where "s1 = ioc_backend_call (B_wait w)
    (if can_block w then ioc_backend_call B_prepare s else s)"
  define s1' where "s1' = s1\<lparr>ioc_waits := Suc (ioc_waits s1)\<rparr>"
  have l1: "at_loop me L K s1'" and f1: "fit s1'" using l fit by (simp_all add: s1_def s1'_def fit_def)
  have "\<forall>(tid, cs) \<in> set (en_others E (ioc_waits s1)). tid \<noteq> me \<and> foreign_ok cs"
    using env by (simp add: env_ok_def)
  then obtain s2 where s2: "exec_others E (en_others E (ioc_waits s1)) s1' = Some s2" and f2: "fit s2"
    using exec_others_total [OF l1 f1] by blast
  have l2: "at_loop me L K s2" using l1 s2 by (rule exec_others_loop)
  have eq: "process_events fuel E me w s =
     (case en_wait E (ioc_waits s1) of
        Wait_throws \<Rightarrow> (case backend_failed fuel E me s2 of
            Done s3 \<Rightarrow> Done (s3, 0) | Fatal \<Rightarrow> Fatal | Out_of_fuel \<Rightarrow> Out_of_fuel)
      | Wait_events evs \<Rightarrow> (case dispatch_events me evs 0 (s2\<lparr>ioc_events := evs\<rparr>) of
            None \<Rightarrow> Fatal | Some r \<Rightarrow> Done r)
      | Wait_unchanged \<Rightarrow> (case dispatch_events me (ioc_events s2) 0 s2 of None \<Rightarrow> Fatal | Some r \<Rightarrow> Done r))"
    using s2 at_loopD(2) [OF l] by (simp add: process_events_def Let_def s1_def s1'_def)
  show ?thesis
  proof (cases "en_wait E (ioc_waits s1)")
    case (Wait_events evs)
    have "at_loop me L K (s2\<lparr>ioc_events := evs\<rparr>)" "fit (s2\<lparr>ioc_events := evs\<rparr>)" using l2 f2 by (simp_all add: fit_def)
    then show ?thesis using dispatch_events_loop [of me L K "s2\<lparr>ioc_events := evs\<rparr>" evs 0] fit_internal eq Wait_events by fastforce
  next
    case Wait_unchanged
    then show ?thesis using dispatch_events_loop [OF l2, of "ioc_events s2" 0] fit_internal [OF f2] eq by fastforce
  next
    case Wait_throws
    obtain s3 where s3: "backend_failed fuel E me s2 = drain_posted fuel E me s3" "at_loop me L K s3" "posts internal s2 s3"
      using l2 by (rule backend_failed_step)
    have "fit s3" using f2 s3(3) by (rule fit_internal)
    then show ?thesis using drain_posted_total [OF s3(2) env, of fuel] s3(1) eq Wait_throws by auto
  qed
qed

text \<open>One turn: it fails no check, and only the draining after a backend failure may need more fuel.\<close>

lemma loop_turn_total:
  assumes l: "at_loop me L K s" and env: "env_ok E me" and fit: "fit s"
  shows "(\<exists>n. en_wait E n = Wait_throws) \<and> loop_turn fuel E me d c s = Out_of_fuel \<or>
    (\<exists>r. loop_turn fuel E me d c s = Done r \<and> (\<forall>s' n. r = Inr (s', n) \<longrightarrow> fit s'))"
proof (cases "finish_turn s")
  case True
  then show ?thesis by (simp add: loop_turn_def)
next
  case a: False
  obtain s1 n1 threw where p: "process_posted E me s = Some (s1, n1, threw)" and f1: "fit s1"
    using process_posted_total [OF l env fit] by blast
  have l1: "at_loop me L K s1" using l p by (rule process_posted_loop)
  obtain s2 n2 where t2: "process_timers E me s1 = Some (s2, n2)" and l2: "at_loop me L K s2" and "posts internal s1 s2"
    using process_timers_loop [OF l1] by blast
  then have f2: "fit s2" using f1 fit_internal by blast
  obtain w s3 where w: "next_wait E d s2 = (w, s3)" by (metis surj_pair)
  have l3: "at_loop me L K s3" and f3: "fit s3" using next_wait_loop [OF l2 w] f2 by (simp_all add: fit_def)
  define w' where "w' = (if has_pending_tasks (ioc_posted s3) then Some 0 else w)"
  have turn: "loop_turn fuel E me d c s =
     (if threw then Done (Inl (s1, c, True))
      else if finish_turn s1 then Done (Inl (s1, c + n1, False))
      else if finish_turn s2 then Done (Inl (s2, c + n1 + n2, False))
      else case process_events fuel E me w' s3 of
        Done (s4, n3) \<Rightarrow> Done (Inr (s4, c + n1 + n2 + n3)) | Fatal \<Rightarrow> Fatal | Out_of_fuel \<Rightarrow> Out_of_fuel)"
    using a p t2 w by (simp add: loop_turn_def Let_def w'_def)
  show ?thesis
  proof (cases "threw \<or> finish_turn s1 \<or> finish_turn s2")
    case True
    then show ?thesis using turn by auto
  next
    case False
    then show ?thesis using turn process_events_total [OF l3 env f3, of fuel w'] by auto
  qed
qed

lemma run_loop_not_fatal:
  "at_loop me L K s \<Longrightarrow> env_ok E me \<Longrightarrow> fit s \<Longrightarrow> run_loop fuel E me d c s \<noteq> Fatal"
proof (induction fuel E me d c s rule: run_loop.induct)
  case (2 fuel E me d c s)
  obtain late s0 where dl: "(case d of None \<Rightarrow> (False, s)
      | Some t \<Rightarrow> (en_clk E (ioc_clock s) \<ge> t, s\<lparr>ioc_clock := Suc (ioc_clock s)\<rparr>)) = (late, s0)"
    by (metis surj_pair)
  have l0: "at_loop me L K s0" "fit s0" using "2.prems" dl
    by (auto simp: at_loop_def running_in_this_thread_def fit_def split: option.splits)
  show ?case
  proof (cases late)
    case False
    from loop_turn_total [OF l0(1) "2.prems"(2) l0(2), of fuel d c] show ?thesis
    proof
      assume "\<exists>r. loop_turn fuel E me d c s0 = Done r \<and> (\<forall>s' n. r = Inr (s', n) \<longrightarrow> fit s')"
      then obtain r where r: "loop_turn fuel E me d c s0 = Done r" "\<forall>s' n. r = Inr (s', n) \<longrightarrow> fit s'" by blast
      show ?thesis
      proof (cases r)
        case (Inl x)
        then show ?thesis using dl False r by simp
      next
        case (Inr x)
        then obtain s1 c1 where x: "r = Inr (s1, c1)" by (cases x) auto
        have "at_loop me L K s1" using loop_turn_loop [OF l0(1) r(1)] x by simp
        then show ?thesis using "2.IH" [OF dl [symmetric] refl False r(1) x refl] "2.prems"(2) r x dl False by simp
      qed
    qed (use dl False in auto)
  qed (use dl in simp)
qed simp

text \<open>
  With a clock that passes the deadline for good after reading \<open>N\<close>, the loop ends: every
  round takes at least one reading.
\<close>

lemma run_loop_ends:
  assumes late: "\<And>k. N \<le> k \<Longrightarrow> t \<le> en_clk E k" and nothrow: "\<And>n. en_wait E n \<noteq> Wait_throws"
  shows "at_loop me L K s \<Longrightarrow> env_ok E me \<Longrightarrow> fit s \<Longrightarrow> N < ioc_clock s + fuel \<Longrightarrow> 0 < fuel \<Longrightarrow>
     run_loop fuel E me (Some t) c s \<noteq> Out_of_fuel"
proof (induction fuel arbitrary: s c)
  case (Suc fuel)
  let ?s0 = "s\<lparr>ioc_clock := Suc (ioc_clock s)\<rparr>"
  show ?case
  proof (cases "t \<le> en_clk E (ioc_clock s)")
    case False
    then have lt: "ioc_clock s < N" using late [of "ioc_clock s"] by linarith
    have l0: "at_loop me L (Suc (ioc_clock s)) ?s0" "fit ?s0" using Suc.prems
      by (auto simp: at_loop_def running_in_this_thread_def fit_def)
    obtain r where r: "loop_turn fuel E me (Some t) c ?s0 = Done r" "\<forall>s' n. r = Inr (s', n) \<longrightarrow> fit s'"
      using loop_turn_total [OF l0(1) Suc.prems(2) l0(2), of fuel "Some t" c] nothrow by blast
    show ?thesis
    proof (cases r)
      case (Inr x)
      then obtain s1 c1 where x: "r = Inr (s1, c1)" by (cases x) auto
      have l1: "at_loop me L (Suc (ioc_clock s)) s1" using loop_turn_loop [OF l0(1) r(1)] x by simp
      then have "at_loop me L K s1" "Suc (ioc_clock s) \<le> ioc_clock s1" using at_loopD(4) [OF Suc.prems(1)]
        by (auto simp: at_loop_def)
      then have "run_loop fuel E me (Some t) c1 s1 \<noteq> Out_of_fuel"
        using Suc.IH [of s1 c1] Suc.prems(2,4) r(2) x lt by simp
      then show ?thesis using False r x by simp
    qed (use False r in simp)
  qed simp
qed simp

section \<open>Threads other than the reactor's\<close>

text \<open>A call made off the reactor thread leaves the registries, the callbacks and the wait states alone.\<close>

definition confined :: "ioc \<Rightarrow> ioc \<Rightarrow> bool" where
  "confined s s' \<longleftrightarrow> ioc_fds s' = ioc_fds s \<and> ioc_timers s' = ioc_timers s \<and> ioc_log s' = ioc_log s \<and>
     ioc_ops s' = ioc_ops s \<and> ioc_running s' = ioc_running s \<and> ioc_thread s' = ioc_thread s"

lemma confined_dispatch:
  "\<not> running_in_this_thread tid s \<Longrightarrow> dispatch_reactor tid f s = Some s' \<Longrightarrow> confined s s'"
  by (auto simp: dispatch_reactor_def confined_def)

lemma confined_basic:
  assumes "ioc_running s" "ioc_thread s \<noteq> tid" "exec_basic E tid c s = Some s'"
  shows "confined s s'"
proof -
  have off: "\<not> running_in_this_thread tid s" using assms(2) by (simp add: running_in_this_thread_def)
  have cancel: "cancel_event tid h s = Some x \<Longrightarrow> confined s x" for h x
    using confined_dispatch [OF off]
    by (auto simp: cancel_event_def cancel_fd_event_def cancel_timer_def confined_def split: if_splits)
  show ?thesis
  proof (cases c)
    case (Add_fd fd)
    let ?s1 = "ioc_backend_call (B_add fd) s"
    have "\<not> running_in_this_thread tid ?s1" using off by (simp add: running_in_this_thread_def)
    then show ?thesis using assms Add_fd
      by (auto simp: exec_basic_def ioc_add_fd_def Let_def confined_def dispatch_reactor_def ioc_wakeup_def split: if_splits)
  next
    case (Remove_fd fd)
    then show ?thesis using assms off confined_dispatch
      by (auto simp: exec_basic_def ioc_remove_fd_def confined_def split: if_splits)
  next
    case (Cancel_event h)
    then show ?thesis using assms cancel by (simp add: exec_basic_def)
  next
    case (Request_stop op)
    then show ?thesis using assms cancel
      by (auto simp: exec_basic_def request_stop_def confined_def split: if_splits option.splits)
  next
    case Remove_work_guard
    then show ?thesis using assms
      by (auto simp: exec_basic_def remove_work_guard_def confined_def ioc_wakeup_def split: option.splits if_splits)
  qed (use assms in \<open>auto simp: exec_basic_def confined_def ioc_stop_def ioc_restart_def ioc_wakeup_def
        await_op_def await_begin_def ioc_add_timer_def register_fd_impl_def running_in_this_thread_def
        split: option.splits if_splits\<close>)
qed

lemma confined_calls:
  "ioc_running s \<Longrightarrow> ioc_thread s \<noteq> tid \<Longrightarrow> exec_calls E tid cs s = Some (s', t) \<Longrightarrow> confined s s'"
proof (induction E tid cs s arbitrary: s' t rule: exec_calls.induct)
  case (2 E tid c cs s)
  then obtain s1 where s1: "exec_basic E tid c s = Some s1" "exec_calls E tid cs s1 = Some (s', t)"
    by (auto split: option.splits)
  have "confined s s1" using "2.prems" s1(1) confined_basic by blast
  then show ?case using "2.IH" [OF s1(1)] s1(2) "2.prems" by (auto simp: confined_def)
next
  case (3 E tid f threw cs s)
  then have "confined (ioc_post tid (User f threw) s) s'" by simp
  then show ?case by (simp add: confined_def)
next
  case (4 E tid f threw cs s)
  then have off: "\<not> running_in_this_thread tid s" by (simp add: running_in_this_thread_def)
  then have "confined (ioc_post tid (User f threw) s) s'" using "4.IH"(3) "4.prems" by simp
  then show ?case by (simp add: confined_def)
qed (simp add: confined_def)

section \<open>Histories\<close>

text \<open>
  What can happen to a context, one thing at a time: calls from some thread while no loop
  runs, and runs of the loop (during which other threads make the calls of \<open>en_others\<close>).
\<close>

inductive ioc_step :: "ioc \<Rightarrow> ioc \<Rightarrow> bool" where
  calls: "exec_calls E me cs s = Some (s', t) \<Longrightarrow> ioc_step s s'"
| runs: "run fuel E me s = Done (s', n, threw) \<Longrightarrow> ioc_step s s'"
| runs_one: "run_one fuel E me s = Done (s', n, threw) \<Longrightarrow> ioc_step s s'"
| runs_for: "run_for fuel E me t s = Done (s', n, threw) \<Longrightarrow> ioc_step s s'"

definition ioc_start :: "ioc \<Rightarrow> bool" where
  "ioc_start s \<longleftrightarrow> s = ioc_init (ioc_self s)"

definition ioc_idle :: "ioc \<Rightarrow> bool" where
  "ioc_idle s \<longleftrightarrow> ioc_inv s \<and> \<not> ioc_running s"

interpretation ioc_history: inductive_invariant ioc_start ioc_step ioc_idle
proof unfold_locales
  show "ioc_start s \<Longrightarrow> ioc_idle s" for s
    unfolding ioc_start_def ioc_idle_def using ioc_inv_init [of "ioc_self s"] by (metis ioc.select_convs(3) ioc_init_def)
  show "ioc_idle s \<Longrightarrow> ioc_step s t \<Longrightarrow> ioc_idle t" for s t
    unfolding ioc_idle_def
    by (erule ioc_step.cases)
       (auto dest: exec_calls_some run_done run_one_done run_for_done simp: wframe_def)
qed

lemma distinct_if_count_le_1: "(\<And>x. count (mset xs) x \<le> 1) \<Longrightarrow> distinct xs"
proof (induction xs)
  case (Cons a xs)
  have "count (mset xs) x \<le> 1" for x
    by (rule order.trans [OF _ Cons.prems [of x]]) simp
  moreover have "count (mset xs) a = 0" using Cons.prems [of a] by simp
  ultimately show ?case using Cons.IH by simp
qed simp

lemma ioc_inv_once:
  assumes "ioc_inv s" "op < length (ioc_ops s)"
  shows "count (mset (map cb_op (ioc_log s))) op + count (tr_ops (ioc_timers s)) op +
     count (fr_opsm (ioc_fds s)) op + count (mset (ioc_dropped s)) op = 1"
proof -
  have "mset [0..<length (ioc_ops s)] = mset (map cb_op (ioc_log s)) + tr_ops (ioc_timers s) +
      fr_opsm (ioc_fds s) + mset (ioc_dropped s)"
    using assms(1) by (simp add: ioc_with_def)
  moreover have "count (mset [0..<length (ioc_ops s)]) op = 1" using assms(2) by simp
  ultimately show ?thesis by (metis plus_multiset.rep_eq)
qed

lemma await_resume_code:
  assumes "ioc_inv s" "cb \<in> set (ioc_log s)"
  shows "await_resume (cb_op cb) s = (if ec_set (cb_code cb) then Inl (cb_code cb) else Inr ())"
  using assms by (auto simp: await_resume_def ioc_with_def wait_ok_def Let_def)

section \<open>Properties\<close>



text \<open>
  (C7) The checks of the event loop never fail for well-behaved clients: if no loop runs
  yet, callables and coroutines await with an executor, other threads do not await on this
  context, and work guards are left to their owners, then \<open>run\<close>, \<open>run_one\<close> and
  \<open>run_for\<close> do not abort the process, whatever the kernel and the clock do.
\<close>

theorem run_fails_no_check:
  assumes "ioc_inv s" "\<not> ioc_running s" "env_ok E me" "fit s"
  shows "run fuel E me s \<noteq> Fatal \<and> run_for fuel E me t s \<noteq> Fatal"
proof -
  obtain s1 where s1: "enter_loop me s = Some s1" using assms(2) by (simp add: enter_loop_def)
  note l1 = enter_loop_at [OF assms(1) s1]
  have f1: "fit s1" using assms(4) s1 by (auto simp: enter_loop_def fit_def split: if_splits)
  let ?s2 = "s1\<lparr>ioc_clock := Suc (ioc_clock s1)\<rparr>"
  have l2: "at_loop me (ioc_log s) (ioc_clock s) ?s2" and f2: "fit ?s2"
    using l1 f1 by (simp_all add: at_loop_def running_in_this_thread_def fit_def)
  show ?thesis
    using run_loop_not_fatal [OF l1 assms(3) f1] run_loop_not_fatal [OF l2 assms(3) f2] s1
    by (auto simp: run_def run_for_def leave_outcome_def Let_def split: outcome.splits)
qed


text \<open>
  (C5) A failing backend does not leave awaiters hanging: when \<open>wait\<close> throws, every
  operation waiting for a descriptor or a timer is aborted with \<open>internal_error\<close>, once
  each and before any posted callable runs, and then the queue of posted callables is
  drained.
\<close>

theorem backend_failure_aborts_all:
  assumes inv: "ioc_inv s" and me: "running_in_this_thread me s"
    and r: "backend_failed fuel E me s = Done s'"
  shows "\<exists>ops. mset ops = fr_opsm (ioc_fds s) + tr_ops (ioc_timers s) \<and>
     prefix (ioc_log s @ map (\<lambda>op. On_abort op (make_error_code internal_error)) ops) (ioc_log s') \<and>
     \<not> has_pending_tasks (ioc_posted s')"
proof -
  have "at_loop me (ioc_log s) 0 s" using inv me by (simp add: at_loop_def)
  then obtain ops s3 where s3: "backend_failed fuel E me s = drain_posted fuel E me s3"
      "at_loop me (ioc_log s) 0 s3" "ioc_log s3 = ioc_log s @ internal_aborts ops"
      "mset ops = fr_opsm (ioc_fds s) + tr_ops (ioc_timers s)"
    by (rule backend_failed_step)
  have "at_loop me (ioc_log s3) 0 s3" using s3(2) by (simp add: at_loop_def)
  then have "at_loop me (ioc_log s3) 0 s' \<and> \<not> has_pending_tasks (ioc_posted s')"
    using drain_posted_loop r s3(1) by auto
  then show ?thesis using at_loopD(3) s3(3,4) by (metis internal_aborts_def)
qed


text \<open>
  Posted callables are taken in batches and none is lost: \<open>process_posted\<close> without an
  exception runs all callables queued when it began and leaves exactly those posted
  meanwhile; if the callable after \<open>n\<close> finished ones throws, the ones not yet run are put
  back. The pending counter equals the queue's length before and after.
\<close>

lemma process_posted_loses_nothing:
  assumes "ioc_inv s" "running_in_this_thread me s" "pq_inv (ioc_posted s)"
    and "process_posted E me s = Some (s', n, threw)"
  shows "pq_inv (ioc_posted s') \<and> (\<exists>new rest. pq_queue (ioc_posted s') = new @ rest \<and>
     (if threw then \<exists>ran. pq_queue (ioc_posted s) = ran @ rest \<and> length ran = Suc n
      else rest = [] \<and> n = length (pq_queue (ioc_posted s))))"
proof -
  have "at_loop me [] 0 s" using assms(1,2) by (simp add: at_loop_def)
  then show ?thesis using ioc_queue.process_queue [of E me s s' n threw "[]" 0] assms(2-4)
    by (simp add: process_posted_def)
qed

section \<open>A run of the loop\<close>

text \<open>
  A coroutine awaits a descriptor and another a timer of 5 ms; the clock advances by one
  millisecond at each reading. During the first wait another thread posts a callable; the
  descriptor becomes readable.
\<close>

definition loop_env :: env where
  "loop_env = \<lparr>en_clk = (\<lambda>k. int k * 1000000), en_add_ok = (\<lambda>_. True),
     en_wait = (\<lambda>n. if n = 0 then Wait_events [\<lparr>be_fd = 3, be_can_read = True, be_can_write = False,
       be_is_error = False, be_ec = no_error\<rparr>] else Wait_events []),
     en_others = (\<lambda>n. if n = 0 then [(9, [Post [Call (Add_fd 4)] False])] else []),
     en_resume = (\<lambda>h. [])\<rparr>"

definition loop_setup :: "api_call list" where
  "loop_setup = [Call (Add_fd 3), Call (Await_fd Read_event 3 10 (Some This_context) No_token),
     Call (Await_timer 5000000 11 (Some This_context) Stop_possible)]"

definition loop_example :: ioc where
  "loop_example = (case exec_calls loop_env 1 loop_setup (ioc_init 0) of Some (s, _) \<Rightarrow> s | None \<Rightarrow> ioc_init 0)"

lemma loop_example_calls: "exec_calls loop_env 1 loop_setup (ioc_init 0) = Some (loop_example, False)"
  by code_simp

lemma loop_example_run:
  "case run 9 loop_env 1 loop_example of
     Done (s, n, threw) \<Rightarrow> ioc_log s = [On_complete 0, On_complete 1] \<and> n = 5 \<and> \<not> threw
   | Fatal \<Rightarrow> False | Out_of_fuel \<Rightarrow> False"
  by code_simp

lemma loop_example_reach: "reach ioc_start ioc_step loop_example"
proof -
  have "reach ioc_start ioc_step (ioc_init 0)" by (rule reach_start) (simp add: ioc_start_def ioc_init_def)
  then show ?thesis using ioc_step.calls [OF loop_example_calls] by (rule reach_step)
qed

lemma loop_example_inv: "ioc_inv loop_example" "\<not> ioc_running loop_example"
  using ioc_history.reach_inv [OF loop_example_reach] by (simp_all add: ioc_idle_def)

lemma loop_example_run_done:
  obtains s n where "run 9 loop_env 1 loop_example = Done (s, n, False)" "ioc_log s = [On_complete 0, On_complete 1]"
  using loop_example_run by (cases "run 9 loop_env 1 loop_example") auto



lemma loop_env_ok: "env_ok loop_env 1"
  by (simp add: env_ok_def loop_env_def)

lemma loop_example_fit: "fit loop_example"
  unfolding fit_def by code_simp

theorem run_fails_no_check_witness: "run 9 loop_env 1 loop_example \<noteq> Fatal"
  using run_fails_no_check [OF loop_example_inv loop_env_ok loop_example_fit] by blast


definition loop_failed :: ioc where
  "loop_failed = (case backend_failed 5 loop_env 1 (loop_example\<lparr>ioc_running := True, ioc_thread := 1\<rparr>) of
     Done s \<Rightarrow> s | _ \<Rightarrow> loop_example)"

theorem backend_failure_aborts_all_witness:
  "\<exists>ops. mset ops = fr_opsm (ioc_fds loop_example) + tr_ops (ioc_timers loop_example) \<and>
     prefix (map (\<lambda>op. On_abort op (make_error_code internal_error)) ops) (ioc_log loop_failed)"
proof -
  let ?s = "loop_example\<lparr>ioc_running := True, ioc_thread := 1\<rparr>"
  have "\<exists>s'. backend_failed 5 loop_env 1 ?s = Done s'"
  proof -
    have "case backend_failed 5 loop_env 1 ?s of Done _ \<Rightarrow> True | _ \<Rightarrow> False" by code_simp
    then show ?thesis by (cases "backend_failed 5 loop_env 1 ?s") auto
  qed
  then have r: "backend_failed 5 loop_env 1 ?s = Done loop_failed" by (auto simp: loop_failed_def)
  have "ioc_inv ?s" using loop_example_inv by (simp add: ioc_with_def wait_ok_def)
  moreover have "ioc_log ?s = []" by code_simp
  ultimately show ?thesis using backend_failure_aborts_all [OF _ _ r] by (auto simp: running_in_this_thread_def)
qed


lemma process_posted_loses_nothing_witness:
  "\<exists>s' n threw. process_posted loop_env 1 (ioc_post 9 (User [Call Stop] True) (ioc_post 9 (User [] False)
     (loop_example\<lparr>ioc_running := True, ioc_thread := 1\<rparr>))) = Some (s', n, threw) \<and> pq_inv (ioc_posted s')"
proof -
  let ?s = "ioc_post 9 (User [Call Stop] True) (ioc_post 9 (User [] False) (loop_example\<lparr>ioc_running := True, ioc_thread := 1\<rparr>))"
  have inv: "ioc_inv ?s" using loop_example_inv by (simp add: ioc_with_def wait_ok_def)
  have me: "running_in_this_thread 1 ?s" by (simp add: running_in_this_thread_def)
  have q: "pq_inv (ioc_posted ?s)" by code_simp
  have "at_loop 1 [] 0 ?s" using inv me by (simp add: at_loop_def)
  moreover have "fit ?s"
    using loop_example_fit by (simp add: fit_def ioc_post_def pq_post_def Let_def ioc_wakeup_def ioc_backend_call_def)
  ultimately obtain s' n threw where r: "process_posted loop_env 1 ?s = Some (s', n, threw)"
    using process_posted_total loop_env_ok by blast
  then show ?thesis using process_posted_loses_nothing [OF inv me q r] by blast
qed

end
