(* ===== verification/Strand.thy ===== *)
theory Strand
  imports Prelude
begin

text \<open>
  \<open>strand.hpp\<close>: the queue of a strand and the drains it schedules on its base executor.
  \<open>enqueue\<close>, \<open>pop_one\<close> and \<open>should_schedule_drain\<close> hold the mutex and are one atomic step
  each; \<open>post\<close> and \<open>drain\<close> are interleaved by the step relation \<open>strand_step\<close>, in which
  any number of drains may be under way, each on a thread of the base executor. A task is
  a number; an empty callable is \<open>None\<close>. \<open>sr_popped\<close> and \<open>sr_posted\<close> record the history.
\<close>

section \<open>The state and its operations\<close>

record strand_state =
  sr_tasks :: "nat option list"
  sr_active :: bool

definition enqueue :: "nat option \<Rightarrow> strand_state \<Rightarrow> bool \<times> strand_state" where
  "enqueue fn s =
     (let s1 = s\<lparr>sr_tasks := sr_tasks s @ [fn]\<rparr>
      in if sr_active s1 then (False, s1) else (True, s1\<lparr>sr_active := True\<rparr>))"

text \<open>The outer option tells an empty queue from an empty callable, which \<open>drain\<close> does not.\<close>

definition pop_one :: "strand_state \<Rightarrow> nat option \<times> strand_state" where
  "pop_one s =
     (case sr_tasks s of
        [] \<Rightarrow> (None, s\<lparr>sr_active := False\<rparr>)
      | fn # rest \<Rightarrow> (fn, s\<lparr>sr_tasks := rest\<rparr>))"

definition should_schedule_drain :: "strand_state \<Rightarrow> bool \<times> strand_state" where
  "should_schedule_drain s =
     (if sr_tasks s = [] then (False, s\<lparr>sr_active := False\<rparr>) else (True, s))"

definition max_drain_per_tick :: nat where
  "max_drain_per_tick = 256"

section \<open>Drains on a base executor\<close>

text \<open>
  A drain is before the test of its loop with \<open>n\<close> tasks done, runs a task, or is before
  \<open>should_schedule_drain\<close>, which both the normal and the exceptional way out reach.
\<close>

datatype drain_pc = D_none | D_loop nat | D_run nat nat | D_check

record strand_sys =
  ss_state :: strand_state
  ss_to_post :: nat
  ss_scheduled :: nat
  ss_drain :: "nat \<Rightarrow> drain_pc"
  ss_posted :: "nat option list"
  ss_popped :: "nat option list"

definition strand_init :: "strand_sys \<Rightarrow> bool" where
  "strand_init s \<longleftrightarrow> s = \<lparr>ss_state = \<lparr>sr_tasks = [], sr_active = False\<rparr>, ss_to_post = 0, ss_scheduled = 0,
     ss_drain = (\<lambda>_. D_none), ss_posted = [], ss_popped = []\<rparr>"

text \<open>\<open>post\<close>, and \<open>dispatch\<close> off the strand: enqueue; the caller then posts a drain if told to.\<close>

definition strand_post :: "nat option \<Rightarrow> strand_sys \<Rightarrow> strand_sys" where
  "strand_post fn s =
     (let (should_schedule, st) = enqueue fn (ss_state s)
      in s\<lparr>ss_state := st, ss_posted := ss_posted s @ [fn],
           ss_to_post := (if should_schedule then ss_to_post s + 1 else ss_to_post s)\<rparr>)"

definition drain_pop :: "nat \<Rightarrow> nat \<Rightarrow> strand_sys \<Rightarrow> strand_sys" where
  "drain_pop i n s =
     (let (fn, st) = pop_one (ss_state s);
          popped = (case sr_tasks (ss_state s) of [] \<Rightarrow> [] | f # _ \<Rightarrow> [f])
      in s\<lparr>ss_state := st, ss_popped := ss_popped s @ popped,
           ss_drain := (ss_drain s)(i := (case fn of None \<Rightarrow> D_check | Some t \<Rightarrow> D_run n t))\<rparr>)"

definition drain_check :: "nat \<Rightarrow> strand_sys \<Rightarrow> strand_sys" where
  "drain_check i s =
     (let (again, st) = should_schedule_drain (ss_state s)
      in s\<lparr>ss_state := st, ss_drain := (ss_drain s)(i := D_none),
           ss_to_post := (if again then ss_to_post s + 1 else ss_to_post s)\<rparr>)"

inductive strand_step :: "strand_sys \<Rightarrow> strand_sys \<Rightarrow> bool" where
  post: "strand_step s (strand_post fn s)"
| base_post: "0 < ss_to_post s \<Longrightarrow>
    strand_step s (s\<lparr>ss_to_post := ss_to_post s - 1, ss_scheduled := ss_scheduled s + 1\<rparr>)"
| start: "0 < ss_scheduled s \<Longrightarrow> ss_drain s i = D_none \<Longrightarrow>
    strand_step s (s\<lparr>ss_scheduled := ss_scheduled s - 1, ss_drain := (ss_drain s)(i := D_loop 0)\<rparr>)"
| pop: "ss_drain s i = D_loop n \<Longrightarrow> n < max_drain_per_tick \<Longrightarrow> strand_step s (drain_pop i n s)"
| tick_over: "ss_drain s i = D_loop n \<Longrightarrow> max_drain_per_tick \<le> n \<Longrightarrow>
    strand_step s (s\<lparr>ss_drain := (ss_drain s)(i := D_check)\<rparr>)"
| finish: "ss_drain s i = D_run n t \<Longrightarrow> strand_step s (s\<lparr>ss_drain := (ss_drain s)(i := D_loop (Suc n))\<rparr>)"
| throw: "ss_drain s i = D_run n t \<Longrightarrow> strand_step s (s\<lparr>ss_drain := (ss_drain s)(i := D_check)\<rparr>)"
| check: "ss_drain s i = D_check \<Longrightarrow> strand_step s (drain_check i s)"

section \<open>Invariant\<close>

definition drain_pending :: "strand_sys \<Rightarrow> bool" where
  "drain_pending s \<longleftrightarrow> 0 < ss_to_post s \<or> 0 < ss_scheduled s \<or> (\<exists>i. ss_drain s i \<noteq> D_none)"

definition strand_inv :: "strand_sys \<Rightarrow> bool" where
  "strand_inv s \<longleftrightarrow> ss_posted s = ss_popped s @ sr_tasks (ss_state s) \<and>
     (sr_tasks (ss_state s) \<noteq> [] \<longrightarrow> sr_active (ss_state s)) \<and>
     (sr_active (ss_state s) \<longrightarrow> drain_pending s) \<and>
     (\<forall>i n. ss_drain s i = D_loop n \<longrightarrow> n \<le> max_drain_per_tick) \<and>
     (\<forall>i n t. ss_drain s i = D_run n t \<longrightarrow> n < max_drain_per_tick \<and> Some t \<in> set (ss_popped s))"

lemma strand_inv_init: "strand_init s \<Longrightarrow> strand_inv s"
  by (simp add: strand_init_def strand_inv_def)

lemma strand_inv_step:
  assumes inv: "strand_inv s" and step: "strand_step s t" shows "strand_inv t"
  using step
proof cases
  case (post fn)
  then show ?thesis using inv
    by (auto simp: strand_post_def enqueue_def Let_def strand_inv_def drain_pending_def split: if_splits)
next
  case base_post
  then show ?thesis using inv by (auto simp: strand_inv_def drain_pending_def)
next
  case (start i)
  then show ?thesis using inv by (auto simp: strand_inv_def drain_pending_def)
next
  case (pop i n)
  then show ?thesis using inv
    by (cases "sr_tasks (ss_state s)")
       (auto simp: drain_pop_def pop_one_def Let_def strand_inv_def drain_pending_def split: option.splits)
next
  case (tick_over i n)
  then show ?thesis using inv by (auto simp: strand_inv_def drain_pending_def)
next
  case (finish i n x)
  then show ?thesis using inv by (auto simp: strand_inv_def drain_pending_def Suc_le_eq)
next
  case (throw i n x)
  then show ?thesis using inv by (auto simp: strand_inv_def drain_pending_def)
next
  case (check i)
  then show ?thesis using inv
    by (auto simp: drain_check_def should_schedule_drain_def Let_def strand_inv_def drain_pending_def split: if_splits)
qed

interpretation strand: inductive_invariant strand_init strand_step strand_inv
  by unfold_locales (fact strand_inv_init, fact strand_inv_step)

section \<open>Refinement of a queue\<close>

text \<open>
  What a strand promises of the order of its tasks: a queue, from which tasks are taken in
  the order they were posted. The steps of the base executor are invisible.
\<close>

record fifo =
  ff_waiting :: "nat option list"
  ff_taken :: "nat option list"

inductive fifo_step :: "fifo \<Rightarrow> fifo \<Rightarrow> bool" where
  put: "fifo_step q (q\<lparr>ff_waiting := ff_waiting q @ [x]\<rparr>)"
| take: "ff_waiting q = x # rest \<Longrightarrow> fifo_step q \<lparr>ff_waiting = rest, ff_taken = ff_taken q @ [x]\<rparr>"
| stutter: "fifo_step q q"

definition strand_abs :: "strand_sys \<Rightarrow> fifo" where
  "strand_abs s = \<lparr>ff_waiting = sr_tasks (ss_state s), ff_taken = ss_popped s\<rparr>"

lemma strand_abs_pop:
  "fifo_step (strand_abs s) (strand_abs (drain_pop i n s))"
proof (cases "sr_tasks (ss_state s)")
  case Nil
  then have "strand_abs (drain_pop i n s) = strand_abs s" by (simp add: strand_abs_def drain_pop_def pop_one_def)
  then show ?thesis by (simp add: fifo_step.stutter)
next
  case (Cons x rest)
  then have "strand_abs (drain_pop i n s) = \<lparr>ff_waiting = rest, ff_taken = ff_taken (strand_abs s) @ [x]\<rparr>"
    by (simp add: strand_abs_def drain_pop_def pop_one_def)
  then show ?thesis using fifo_step.take [of "strand_abs s" x rest] Cons by (simp add: strand_abs_def)
qed

section \<open>Properties\<close>


definition strand_ex :: strand_sys where
  "strand_ex = \<lparr>ss_state = \<lparr>sr_tasks = [], sr_active = False\<rparr>, ss_to_post = 0, ss_scheduled = 0,
     ss_drain = (\<lambda>_. D_none), ss_posted = [], ss_popped = []\<rparr>"



lemma strand_ex_reach: "reach strand_init strand_step strand_ex"
  by (rule reach_start) (simp add: strand_init_def strand_ex_def)


section \<open>Two drains at once\<close>

text \<open>Labelled steps, to run an interleaving.\<close>

datatype strand_label = L_post nat | L_base | L_start nat | L_pop nat | L_finish nat | L_check nat

fun strand_do :: "strand_label \<Rightarrow> strand_sys \<Rightarrow> strand_sys option" where
  "strand_do (L_post t) s = Some (strand_post (Some t) s)"
| "strand_do L_base s = (if 0 < ss_to_post s
     then Some (s\<lparr>ss_to_post := ss_to_post s - 1, ss_scheduled := ss_scheduled s + 1\<rparr>) else None)"
| "strand_do (L_start i) s = (if 0 < ss_scheduled s \<and> ss_drain s i = D_none
     then Some (s\<lparr>ss_scheduled := ss_scheduled s - 1, ss_drain := (ss_drain s)(i := D_loop 0)\<rparr>) else None)"
| "strand_do (L_pop i) s = (case ss_drain s i of
     D_loop n \<Rightarrow> if n < max_drain_per_tick then Some (drain_pop i n s) else None | _ \<Rightarrow> None)"
| "strand_do (L_finish i) s = (case ss_drain s i of
     D_run n t \<Rightarrow> Some (s\<lparr>ss_drain := (ss_drain s)(i := D_loop (Suc n))\<rparr>) | _ \<Rightarrow> None)"
| "strand_do (L_check i) s = (if ss_drain s i = D_check then Some (drain_check i s) else None)"

lemma strand_do_step: "strand_do l s = Some t \<Longrightarrow> strand_step s t"
  using strand_step.base_post [of s] strand_step.start [of s]
  by (cases l) (auto intro: strand_step.intros split: if_splits drain_pc.splits)

interpretation strand_run: labelled_steps strand_init strand_step strand_do
  by unfold_locales (fact strand_do_step)

definition strand_race :: "strand_label list" where
  "strand_race = [L_post 1, L_base, L_start 1, L_pop 1, L_finish 1, L_pop 1,
     L_post 2, L_base, L_start 2, L_pop 2, L_check 1, L_post 3, L_base, L_start 1, L_pop 1]"

text \<open>
  On a base executor with two threads a strand can run two of its tasks at the same
  time. A drain that found the queue empty has already cleared \<open>active\<close>, but then calls
  \<open>should_schedule_drain\<close> as well; when a task was posted in between and the new drain has
  popped it, the old one clears \<open>active\<close> under the running drain, and the next post
  schedules a third.
\<close>

lemma strand_runs_two_tasks_at_once:
  "\<exists>s. reach strand_init strand_step s \<and> ss_drain s 1 = D_run 0 3 \<and> ss_drain s 2 = D_run 0 2"
proof -
  have "\<exists>s. do_all strand_do strand_race strand_ex = Some s \<and> ss_drain s 1 = D_run 0 3 \<and> ss_drain s 2 = D_run 0 2"
    by (simp add: strand_race_def strand_ex_def strand_post_def enqueue_def drain_pop_def pop_one_def
        drain_check_def should_schedule_drain_def max_drain_per_tick_def Let_def)
  then show ?thesis using strand_run.do_all_reach [OF strand_ex_reach] by blast
qed

end
