(* ===== verification/ThreadPool.thy ===== *)
theory ThreadPool
  imports PostedQueue
begin

text \<open>
  \<open>thread_pool.hpp\<close> and \<open>impl/thread_pool.ipp\<close>: workers that share a queue under a mutex
  and a condition variable. The mutex is the number of the worker that holds it; \<open>post\<close>
  and \<open>stop\<close> hold it for one step. A worker that waits evaluates the predicate with the
  mutex held, and only then blocks and releases it; the work guard's counter is atomic and
  not protected by the mutex. \<open>notify_one\<close> and \<open>notify_all\<close> are steps of their own,
  after the mutex was released. \<open>tp_accepted\<close> and \<open>tp_taken\<close> record the history.
\<close>

datatype pool_state = Pool_running | Draining | Stopped

datatype worker_pc =
    W_start | W_eval | W_sleep | W_blocked | W_woken | W_take | W_run nat | W_exit

record pool =
  tp_queue :: "nat list"
  tp_waiting :: nat
  tp_state :: pool_state
  tp_guard :: nat
  tp_lock :: "nat option"
  tp_worker :: "nat \<Rightarrow> worker_pc"
  tp_notify_one :: nat
  tp_notify_all :: nat
  tp_accepted :: "nat list"
  tp_taken :: "nat list"

definition pool_init :: "pool \<Rightarrow> bool" where
  "pool_init s \<longleftrightarrow> s = \<lparr>tp_queue = [], tp_waiting = 0, tp_state = Pool_running, tp_guard = 0, tp_lock = None,
     tp_worker = (\<lambda>_. W_start), tp_notify_one = 0, tp_notify_all = 0, tp_accepted = [], tp_taken = []\<rparr>"

section \<open>Operations\<close>

text \<open>The predicate of the condition variable.\<close>

definition wake_predicate :: "pool \<Rightarrow> bool" where
  "wake_predicate s \<longleftrightarrow> tp_queue s \<noteq> [] \<or> (tp_state s = Draining \<and> tp_guard s = 0)"

definition pool_post :: "nat \<Rightarrow> pool \<Rightarrow> pool" where
  "pool_post t s =
     (if tp_state s \<noteq> Pool_running then s
      else s\<lparr>tp_queue := tp_queue s @ [t], tp_accepted := tp_accepted s @ [t],
             tp_notify_one := (if 0 < tp_waiting s then tp_notify_one s + 1 else tp_notify_one s)\<rparr>)"

definition pool_stop :: "pool \<Rightarrow> pool" where
  "pool_stop s =
     s\<lparr>tp_state := (if tp_state s = Pool_running then Draining else tp_state s),
       tp_notify_all := tp_notify_all s + 1\<rparr>"

definition pool_remove_guard :: "pool \<Rightarrow> pool option" where
  "pool_remove_guard s =
     (case wg_remove (tp_guard s) of
        None \<Rightarrow> None
      | Some (old, new) \<Rightarrow>
          Some (s\<lparr>tp_guard := new, tp_notify_all := (if old = 1 then tp_notify_all s + 1 else tp_notify_all s)\<rparr>))"

text \<open>A worker past the wait: it leaves the loop, or takes the oldest task.\<close>

definition worker_take :: "nat \<Rightarrow> pool \<Rightarrow> pool" where
  "worker_take i s =
     (case tp_queue s of
        [] \<Rightarrow> s\<lparr>tp_waiting := tp_waiting s - 1, tp_lock := None, tp_worker := (tp_worker s)(i := W_exit)\<rparr>
      | t # rest \<Rightarrow> s\<lparr>tp_waiting := tp_waiting s - 1, tp_queue := rest, tp_taken := tp_taken s @ [t],
          tp_lock := None, tp_worker := (tp_worker s)(i := W_run t)\<rparr>)"

definition wake :: "worker_pc \<Rightarrow> worker_pc" where
  "wake pc = (if pc = W_blocked then W_woken else pc)"

text \<open>The pool has \<open>n\<close> workers, numbered from 0.\<close>

inductive pool_step :: "nat \<Rightarrow> pool \<Rightarrow> pool \<Rightarrow> bool" for n :: nat where
  lock: "i < n \<Longrightarrow> tp_worker s i = W_start \<Longrightarrow> tp_lock s = None \<Longrightarrow>
    pool_step n s (s\<lparr>tp_waiting := tp_waiting s + 1, tp_lock := Some i, tp_worker := (tp_worker s)(i := W_eval)\<rparr>)"
| eval_true: "i < n \<Longrightarrow> tp_worker s i = W_eval \<Longrightarrow> wake_predicate s \<Longrightarrow>
    pool_step n s (s\<lparr>tp_worker := (tp_worker s)(i := W_take)\<rparr>)"
| eval_false: "i < n \<Longrightarrow> tp_worker s i = W_eval \<Longrightarrow> \<not> wake_predicate s \<Longrightarrow>
    pool_step n s (s\<lparr>tp_worker := (tp_worker s)(i := W_sleep)\<rparr>)"
| block: "i < n \<Longrightarrow> tp_worker s i = W_sleep \<Longrightarrow>
    pool_step n s (s\<lparr>tp_lock := None, tp_worker := (tp_worker s)(i := W_blocked)\<rparr>)"
| spurious: "i < n \<Longrightarrow> tp_worker s i = W_blocked \<Longrightarrow>
    pool_step n s (s\<lparr>tp_worker := (tp_worker s)(i := W_woken)\<rparr>)"
| relock: "i < n \<Longrightarrow> tp_worker s i = W_woken \<Longrightarrow> tp_lock s = None \<Longrightarrow>
    pool_step n s (s\<lparr>tp_lock := Some i, tp_worker := (tp_worker s)(i := W_eval)\<rparr>)"
| take: "i < n \<Longrightarrow> tp_worker s i = W_take \<Longrightarrow> pool_step n s (worker_take i s)"
| finish: "i < n \<Longrightarrow> tp_worker s i = W_run t \<Longrightarrow>
    pool_step n s (s\<lparr>tp_worker := (tp_worker s)(i := W_start)\<rparr>)"
| post: "tp_lock s = None \<Longrightarrow> pool_step n s (pool_post t s)"
| stop: "tp_lock s = None \<Longrightarrow> pool_step n s (pool_stop s)"
| notify_one: "0 < tp_notify_one s \<Longrightarrow> i < n \<Longrightarrow> tp_worker s i = W_blocked \<Longrightarrow>
    pool_step n s (s\<lparr>tp_notify_one := tp_notify_one s - 1, tp_worker := (tp_worker s)(i := W_woken)\<rparr>)"
| notify_nobody: "0 < tp_notify_one s \<Longrightarrow> (\<forall>i<n. tp_worker s i \<noteq> W_blocked) \<Longrightarrow>
    pool_step n s (s\<lparr>tp_notify_one := tp_notify_one s - 1\<rparr>)"
| notify_all: "0 < tp_notify_all s \<Longrightarrow>
    pool_step n s (s\<lparr>tp_notify_all := tp_notify_all s - 1, tp_worker := (\<lambda>i. wake (tp_worker s i))\<rparr>)"
| add_guard: "pool_step n s (s\<lparr>tp_guard := wg_add (tp_guard s)\<rparr>)"
| remove_guard: "pool_remove_guard s = Some s' \<Longrightarrow> pool_step n s s'"
| joined: "(\<forall>i<n. tp_worker s i = W_exit) \<Longrightarrow> tp_lock s = None \<Longrightarrow> pool_step n s (s\<lparr>tp_state := Stopped\<rparr>)"

section \<open>Invariant\<close>

fun awake :: "worker_pc \<Rightarrow> bool" where
  "awake W_blocked = False"
| "awake W_exit = False"
| "awake _ = True"

fun holds_lock :: "worker_pc \<Rightarrow> bool" where
  "holds_lock W_eval = True"
| "holds_lock W_sleep = True"
| "holds_lock W_take = True"
| "holds_lock _ = False"

fun in_wait :: "worker_pc \<Rightarrow> bool" where
  "in_wait W_start = False"
| "in_wait (W_run t) = False"
| "in_wait W_exit = False"
| "in_wait _ = True"

definition pool_inv :: "nat \<Rightarrow> pool \<Rightarrow> bool" where
  "pool_inv n s \<longleftrightarrow>
     tp_accepted s = tp_taken s @ tp_queue s \<and>
     (\<forall>i<n. holds_lock (tp_worker s i) \<longleftrightarrow> tp_lock s = Some i) \<and>
     tp_waiting s = card {i. i < n \<and> in_wait (tp_worker s i)} \<and>
     (\<forall>i<n. tp_worker s i = W_sleep \<longrightarrow> tp_queue s = []) \<and>
     (\<forall>i<n. tp_worker s i = W_exit \<longrightarrow> tp_queue s = [] \<and> tp_state s \<noteq> Pool_running) \<and>
     (\<forall>i<n. tp_worker s i = W_take \<longrightarrow> tp_queue s \<noteq> [] \<or> tp_state s \<noteq> Pool_running) \<and>
     (tp_queue s \<noteq> [] \<longrightarrow> (\<exists>i<n. awake (tp_worker s i)) \<or> 0 < tp_notify_one s)"

text \<open>One worker moves: the number of waiting workers follows.\<close>

lemma card_wait_update:
  assumes "i < (n :: nat)"
  shows "card {j. j < n \<and> in_wait ((w(i := pc)) j)} + (if in_wait (w i) then 1 else 0) =
     card {j. j < n \<and> in_wait (w j)} + (if in_wait pc then 1 else 0)"
proof -
  let ?R = "{j. j < n \<and> j \<noteq> i \<and> in_wait (w j)}"
  have fin: "finite ?R" "i \<notin> ?R" by auto
  have "{j. j < n \<and> in_wait (w j)} = (if in_wait (w i) then insert i ?R else ?R)" using assms by auto
  moreover have "{j. j < n \<and> in_wait ((w(i := pc)) j)} = (if in_wait pc then insert i ?R else ?R)"
    using assms by auto
  ultimately show ?thesis using fin by (simp add: card_insert_if)
qed

lemma card_wait_pos: "i < n \<Longrightarrow> in_wait (w i) \<Longrightarrow> 0 < card {j. j < (n::nat) \<and> in_wait (w j)}"
  by (subst card_gt_0_iff) auto

lemma pool_inv_init: "pool_init s \<Longrightarrow> pool_inv n s"
  by (auto simp: pool_init_def pool_inv_def)

lemma in_wait_wake [simp]: "in_wait (wake pc) = in_wait pc"
  by (cases pc) (simp_all add: wake_def)

lemma holds_lock_wake [simp]: "holds_lock (wake pc) = holds_lock pc"
  by (cases pc) (simp_all add: wake_def)

lemma awake_wake: "awake pc \<Longrightarrow> awake (wake pc)"
  by (cases pc) (simp_all add: wake_def)

lemma wake_eq_iff [simp]:
  "wake pc = W_sleep \<longleftrightarrow> pc = W_sleep" "wake pc = W_exit \<longleftrightarrow> pc = W_exit" "wake pc = W_take \<longleftrightarrow> pc = W_take"
  by (auto simp: wake_def)

text \<open>
  A worker that moves while the queue is as before: the clauses of the invariant that
  speak of this worker, and the count.
\<close>

lemma pool_inv_move:
  assumes inv: "pool_inv n s" and i: "i < n"
    and lock: "\<forall>j<n. holds_lock (((tp_worker s)(i := pc)) j) \<longleftrightarrow> l = Some j"
    and count: "k + (if in_wait (tp_worker s i) then 1 else 0) = tp_waiting s + (if in_wait pc then 1 else 0)"
    and sleep: "pc = W_sleep \<Longrightarrow> tp_queue s = []"
    and exit: "pc = W_exit \<Longrightarrow> tp_queue s = [] \<and> tp_state s \<noteq> Pool_running"
    and taking: "pc = W_take \<Longrightarrow> tp_queue s \<noteq> [] \<or> tp_state s \<noteq> Pool_running"
    and woken: "tp_queue s \<noteq> [] \<Longrightarrow> awake pc \<or> \<not> awake (tp_worker s i)"
    and one: "tp_queue s \<noteq> [] \<Longrightarrow> awake pc \<or> m = tp_notify_one s"
  shows "pool_inv n (s\<lparr>tp_waiting := k, tp_lock := l, tp_notify_one := m, tp_worker := (tp_worker s)(i := pc)\<rparr>)"
proof -
  have "k = card {j. j < n \<and> in_wait (((tp_worker s)(i := pc)) j)}"
    using card_wait_update [OF i, of "tp_worker s" pc] count inv by (simp add: pool_inv_def)
  moreover have "tp_queue s \<noteq> [] \<longrightarrow> (\<exists>j<n. awake (((tp_worker s)(i := pc)) j)) \<or> 0 < m"
  proof
    assume q: "tp_queue s \<noteq> []"
    show "(\<exists>j<n. awake (((tp_worker s)(i := pc)) j)) \<or> 0 < m"
    proof (cases "awake pc")
      case True
      then show ?thesis using i by auto
    next
      case False
      then have "(\<exists>j<n. awake (tp_worker s j)) \<or> 0 < m" "\<not> awake (tp_worker s i)"
        using inv q woken [OF q] one [OF q] by (auto simp: pool_inv_def)
      then show ?thesis using i by auto
    qed
  qed
  ultimately show ?thesis using inv lock sleep exit taking by (auto simp: pool_inv_def)
qed

lemma pool_lock_other:
  "pool_inv n s \<Longrightarrow> tp_lock s = None \<Longrightarrow> j < n \<Longrightarrow> \<not> holds_lock (tp_worker s j)"
  by (simp add: pool_inv_def)

lemma pool_lock_mine:
  "pool_inv n s \<Longrightarrow> i < n \<Longrightarrow> holds_lock (tp_worker s i) \<Longrightarrow> j < n \<Longrightarrow> holds_lock (tp_worker s j) \<longleftrightarrow> j = i"
  by (auto simp: pool_inv_def)

lemma pool_inv_take:
  assumes inv: "pool_inv n s" and i: "i < n" "tp_worker s i = W_take"
  shows "pool_inv n (worker_take i s)"
proof -
  have mine: "\<forall>j<n. holds_lock (tp_worker s j) \<longleftrightarrow> j = i" using pool_lock_mine [OF inv i(1)] i(2) by simp
  have pos: "0 < tp_waiting s" using card_wait_pos [OF i(1), of "tp_worker s"] i(2) inv by (simp add: pool_inv_def)
  show ?thesis
  proof (cases "tp_queue s")
    case Nil
    have "pool_inv n (s\<lparr>tp_waiting := tp_waiting s - 1, tp_lock := None, tp_notify_one := tp_notify_one s,
        tp_worker := (tp_worker s)(i := W_exit)\<rparr>)"
      using inv i mine pos Nil by (intro pool_inv_move) (auto simp: pool_inv_def)
    then show ?thesis using Nil by (simp add: worker_take_def)
  next
    case (Cons t rest)
    have "card {j. j < n \<and> in_wait (((tp_worker s)(i := W_run t)) j)} = tp_waiting s - 1"
      using card_wait_update [OF i(1), of "tp_worker s" "W_run t"] i(2) inv by (simp add: pool_inv_def)
    moreover have "tp_worker s j \<noteq> W_exit" if "j < n" for j using inv that Cons by (auto simp: pool_inv_def)
    moreover have "tp_worker s j \<noteq> W_take" if "j < n" "j \<noteq> i" for j using mine that by force
    moreover have "tp_worker s j \<noteq> W_sleep" if "j < n" for j using mine that i by force
    ultimately show ?thesis using inv mine i Cons
      by (auto simp: worker_take_def pool_inv_def intro!: exI [of _ i])
  qed
qed

lemma pool_inv_post:
  assumes inv: "pool_inv n s" and n: "0 < n" and free: "tp_lock s = None"
  shows "pool_inv n (pool_post t s)"
proof (cases "tp_state s = Pool_running")
  case True
  have "(\<exists>i<n. awake (tp_worker s i)) \<or> 0 < tp_waiting s"
  proof (rule ccontr)
    assume a: "\<not> ((\<exists>i<n. awake (tp_worker s i)) \<or> 0 < tp_waiting s)"
    then have "\<not> in_wait (tp_worker s 0)" using card_wait_pos [OF n, of "tp_worker s"] inv n by (auto simp: pool_inv_def)
    then have "tp_worker s 0 = W_exit" using a n by (cases "tp_worker s 0") auto
    then show False using inv n True by (auto simp: pool_inv_def)
  qed
  moreover have "\<forall>i<n. tp_worker s i \<noteq> W_sleep" using pool_lock_other [OF inv free] by force
  ultimately show ?thesis using inv True
    by (cases "0 < tp_waiting s") (simp_all add: pool_post_def pool_inv_def)
qed (use inv in \<open>simp add: pool_post_def\<close>)

lemma pool_inv_step:
  assumes n: "0 < n" and inv: "pool_inv n s" and step: "pool_step n s t" shows "pool_inv n t"
  using step
proof cases
  case (lock i)
  then have "pool_inv n (s\<lparr>tp_waiting := tp_waiting s + 1, tp_lock := Some i, tp_notify_one := tp_notify_one s,
      tp_worker := (tp_worker s)(i := W_eval)\<rparr>)"
    using inv pool_lock_other [OF inv] by (intro pool_inv_move) auto
  then show ?thesis using lock by simp
next
  case (eval_true i)
  then have "pool_inv n (s\<lparr>tp_waiting := tp_waiting s, tp_lock := tp_lock s, tp_notify_one := tp_notify_one s,
      tp_worker := (tp_worker s)(i := W_take)\<rparr>)"
    using inv by (intro pool_inv_move) (auto simp: pool_inv_def wake_predicate_def)
  then show ?thesis using eval_true by simp
next
  case (eval_false i)
  then have "pool_inv n (s\<lparr>tp_waiting := tp_waiting s, tp_lock := tp_lock s, tp_notify_one := tp_notify_one s,
      tp_worker := (tp_worker s)(i := W_sleep)\<rparr>)"
    using inv by (intro pool_inv_move) (auto simp: pool_inv_def wake_predicate_def)
  then show ?thesis using eval_false by simp
next
  case (block i)
  then have "tp_queue s = []" "\<forall>j<n. holds_lock (tp_worker s j) \<longleftrightarrow> j = i"
    using inv pool_lock_mine [OF inv] by (auto simp: pool_inv_def)
  then have "pool_inv n (s\<lparr>tp_waiting := tp_waiting s, tp_lock := None, tp_notify_one := tp_notify_one s,
      tp_worker := (tp_worker s)(i := W_blocked)\<rparr>)"
    using inv block by (intro pool_inv_move) auto
  then show ?thesis using block by simp
next
  case (spurious i)
  then have "pool_inv n (s\<lparr>tp_waiting := tp_waiting s, tp_lock := tp_lock s, tp_notify_one := tp_notify_one s,
      tp_worker := (tp_worker s)(i := W_woken)\<rparr>)"
    using inv by (intro pool_inv_move) (auto simp: pool_inv_def)
  then show ?thesis using spurious by simp
next
  case (relock i)
  then have "pool_inv n (s\<lparr>tp_waiting := tp_waiting s, tp_lock := Some i, tp_notify_one := tp_notify_one s,
      tp_worker := (tp_worker s)(i := W_eval)\<rparr>)"
    using inv pool_lock_other [OF inv] by (intro pool_inv_move) auto
  then show ?thesis using relock by simp
next
  case (take i)
  then show ?thesis using pool_inv_take [OF inv] by simp
next
  case (finish i t)
  then have "pool_inv n (s\<lparr>tp_waiting := tp_waiting s, tp_lock := tp_lock s, tp_notify_one := tp_notify_one s,
      tp_worker := (tp_worker s)(i := W_start)\<rparr>)"
    using inv by (intro pool_inv_move) (auto simp: pool_inv_def)
  then show ?thesis using finish by simp
next
  case (post t)
  then show ?thesis using pool_inv_post [OF inv n] by simp
next
  case stop
  then show ?thesis using inv by (auto simp: pool_stop_def pool_inv_def)
next
  case (notify_one i)
  then have "pool_inv n (s\<lparr>tp_waiting := tp_waiting s, tp_lock := tp_lock s, tp_notify_one := tp_notify_one s - 1,
      tp_worker := (tp_worker s)(i := W_woken)\<rparr>)"
    using inv by (intro pool_inv_move) (auto simp: pool_inv_def)
  then show ?thesis using notify_one by simp
next
  case notify_nobody
  have "\<exists>i<n. awake (tp_worker s i)" if "tp_queue s \<noteq> []"
  proof -
    have "tp_worker s 0 \<noteq> W_exit" "tp_worker s 0 \<noteq> W_blocked" using inv that n notify_nobody by (auto simp: pool_inv_def)
    then have "awake (tp_worker s 0)" by (cases "tp_worker s 0") auto
    then show ?thesis using n by blast
  qed
  then show ?thesis using inv notify_nobody by (simp add: pool_inv_def)
next
  case notify_all
  then show ?thesis using inv awake_wake by (auto simp: pool_inv_def)
next
  case add_guard
  then show ?thesis using inv by (simp add: pool_inv_def)
next
  case remove_guard
  then show ?thesis using inv by (auto simp: pool_remove_guard_def pool_inv_def split: option.splits)
next
  case joined
  then show ?thesis using inv by (auto simp: pool_inv_def)
qed

text \<open>The number of workers is positive: the constructor checks it. It is part of the instance.\<close>

interpretation pool: inductive_invariant pool_init "pool_step (Suc n)" "pool_inv (Suc n)" for n
  by unfold_locales (fact pool_inv_init, fact pool_inv_step [OF zero_less_Suc])

section \<open>Running an interleaving\<close>

datatype pool_label =
    P_lock nat | P_eval nat | P_block nat | P_relock nat | P_take nat | P_finish nat | P_post nat | P_stop
  | P_all | P_add_guard | P_remove_guard

fun pool_do :: "nat \<Rightarrow> pool_label \<Rightarrow> pool \<Rightarrow> pool option" where
  "pool_do n (P_lock i) s = (if i < n \<and> tp_worker s i = W_start \<and> tp_lock s = None
     then Some (s\<lparr>tp_waiting := tp_waiting s + 1, tp_lock := Some i, tp_worker := (tp_worker s)(i := W_eval)\<rparr>) else None)"
| "pool_do n (P_eval i) s = (if i < n \<and> tp_worker s i = W_eval
     then Some (s\<lparr>tp_worker := (tp_worker s)(i := (if wake_predicate s then W_take else W_sleep))\<rparr>) else None)"
| "pool_do n (P_block i) s = (if i < n \<and> tp_worker s i = W_sleep
     then Some (s\<lparr>tp_lock := None, tp_worker := (tp_worker s)(i := W_blocked)\<rparr>) else None)"
| "pool_do n (P_relock i) s = (if i < n \<and> tp_worker s i = W_woken \<and> tp_lock s = None
     then Some (s\<lparr>tp_lock := Some i, tp_worker := (tp_worker s)(i := W_eval)\<rparr>) else None)"
| "pool_do n (P_take i) s = (if i < n \<and> tp_worker s i = W_take then Some (worker_take i s) else None)"
| "pool_do n (P_finish i) s = (case tp_worker s i of
     W_run t \<Rightarrow> if i < n then Some (s\<lparr>tp_worker := (tp_worker s)(i := W_start)\<rparr>) else None | _ \<Rightarrow> None)"
| "pool_do n (P_post t) s = (if tp_lock s = None then Some (pool_post t s) else None)"
| "pool_do n P_stop s = (if tp_lock s = None then Some (pool_stop s) else None)"
| "pool_do n P_all s = (if 0 < tp_notify_all s
     then Some (s\<lparr>tp_notify_all := tp_notify_all s - 1, tp_worker := (\<lambda>i. wake (tp_worker s i))\<rparr>) else None)"
| "pool_do n P_add_guard s = Some (s\<lparr>tp_guard := wg_add (tp_guard s)\<rparr>)"
| "pool_do n P_remove_guard s = pool_remove_guard s"

lemma pool_do_step: "pool_do n l s = Some t \<Longrightarrow> pool_step n s t"
  using pool_step.lock [of _ n s] pool_step.eval_true [of _ n s] pool_step.eval_false [of _ n s]
    pool_step.notify_all [of s n] pool_step.add_guard [of n s]
  by (cases l) (auto intro: pool_step.intros split: if_splits worker_pc.splits)

interpretation pool_run: labelled_steps pool_init "pool_step n" "pool_do n" for n
  by unfold_locales (fact pool_do_step)

section \<open>Properties\<close>

text \<open>
  (C28) No task waits for a sleeping pool: in every reachable state of a pool with at least
  one worker, if a task is queued then some worker is awake or a notification is on its way.
\<close>

theorem pool_task_not_stranded:
  assumes "reach pool_init (pool_step (Suc n)) s" and "tp_queue s \<noteq> []"
  shows "(\<exists>i \<le> n. awake (tp_worker s i)) \<or> 0 < tp_notify_one s"
  using pool.reach_inv [OF assms(1)] assms(2) by (auto simp: pool_inv_def less_Suc_eq_le)

text \<open>
  (C29) Draining loses nothing: the tasks accepted are those taken by workers followed by
  those still queued, in the order they were posted; and once any worker has left its loop,
  every accepted task has been taken.
\<close>

theorem pool_drains_completely:
  assumes "reach pool_init (pool_step (Suc n)) s"
  shows "tp_accepted s = tp_taken s @ tp_queue s \<and>
     ((\<exists>i \<le> n. tp_worker s i = W_exit) \<longrightarrow> tp_taken s = tp_accepted s)"
  using pool.reach_inv [OF assms(1)] by (auto simp: pool_inv_def less_Suc_eq_le)

definition pool_ex :: pool where
  "pool_ex = \<lparr>tp_queue = [], tp_waiting = 0, tp_state = Pool_running, tp_guard = 0, tp_lock = None,
     tp_worker = (\<lambda>_. W_start), tp_notify_one = 0, tp_notify_all = 0, tp_accepted = [], tp_taken = []\<rparr>"

lemma pool_ex_reach: "reach pool_init (pool_step n) pool_ex"
  by (rule reach_start) (simp add: pool_init_def pool_ex_def)

lemmas pool_run_simps = pool_ex_def wake_predicate_def pool_post_def pool_stop_def pool_remove_guard_def
  worker_take_def wake_def wg_add_def wg_remove_def

theorem pool_task_not_stranded_witness:
  "\<exists>s. reach pool_init (pool_step (Suc 0)) s \<and> tp_queue s = [7] \<and> (awake (tp_worker s 0) \<or> 0 < tp_notify_one s)"
proof -
  have "\<exists>s. do_all (pool_do (Suc 0)) [P_lock 0, P_eval 0, P_block 0, P_post 7] pool_ex = Some s \<and> tp_queue s = [7]"
    by (simp add: pool_run_simps)
  then obtain s where s: "reach pool_init (pool_step (Suc 0)) s" "tp_queue s = [7]"
    using pool_run.do_all_reach [OF pool_ex_reach] by blast
  then show ?thesis using pool_task_not_stranded [OF s(1)] by auto
qed

theorem pool_drains_completely_witness:
  "\<exists>s. reach pool_init (pool_step (Suc 0)) s \<and> tp_worker s 0 = W_exit \<and> tp_taken s = [7]"
proof -
  have "\<exists>s. do_all (pool_do (Suc 0)) [P_post 7, P_stop, P_lock 0, P_eval 0, P_take 0, P_finish 0, P_lock 0, P_eval 0, P_take 0]
      pool_ex = Some s \<and> tp_worker s 0 = W_exit \<and> tp_accepted s = [7]"
    by (simp add: pool_run_simps)
  then obtain s where s: "reach pool_init (pool_step (Suc 0)) s" "tp_worker s 0 = W_exit" "tp_accepted s = [7]"
    using pool_run.do_all_reach [OF pool_ex_reach] by blast
  have "tp_taken s = tp_accepted s" using pool_drains_completely [OF s(1)] s(2) by blast
  then show ?thesis using s by (intro exI [of _ s]) simp
qed

text \<open>
  \<open>join\<close> can hang: \<open>remove_work_guard\<close> decrements the counter and notifies without
  the mutex, so both can fall between a worker's test of the predicate and its blocking. In
  the state reached, the pool is draining with no guard and no task, the worker is blocked,
  and no notification is pending, so nothing but a spurious wake-up ends the wait.
\<close>

lemma pool_join_hang_reachable:
  "\<exists>s. reach pool_init (pool_step 1) s \<and> tp_state s = Draining \<and> wake_predicate s \<and>
     tp_worker s 0 = W_blocked \<and> tp_notify_one s = 0 \<and> tp_notify_all s = 0"
proof -
  have "\<exists>s. do_all (pool_do 1) [P_add_guard, P_stop, P_all, P_lock 0, P_eval 0, P_remove_guard, P_all, P_block 0]
      pool_ex = Some s \<and> tp_state s = Draining \<and> wake_predicate s \<and>
      tp_worker s 0 = W_blocked \<and> tp_notify_one s = 0 \<and> tp_notify_all s = 0"
    by (simp add: pool_run_simps)
  then obtain s where s: "do_all (pool_do 1) [P_add_guard, P_stop, P_all, P_lock 0, P_eval 0, P_remove_guard, P_all, P_block 0]
      pool_ex = Some s" "tp_state s = Draining" "wake_predicate s"
      "tp_worker s 0 = W_blocked" "tp_notify_one s = 0" "tp_notify_all s = 0"
    by (elim exE conjE)
  have "reach pool_init (pool_step 1) s" by (rule pool_run.do_all_reach [OF pool_ex_reach s(1)])
  then show ?thesis using s(2-6) by (intro exI [of _ s] conjI)
qed

end
