(* ===== verification/ConditionEvent.thy ===== *)
theory ConditionEvent
  imports Errors Prelude
begin

text \<open>
  \<open>condition_event.hpp\<close>: notifications, waiters in a list, cancellation through a stop
  token, destruction. What happens under the mutex is one step; completing a waiter that
  was taken out of the list is a later step of the same thread, kept in \<open>ce_completing\<close>.
  The awaiting coroutine goes through \<open>await_suspend\<close> in steps of its own, and its
  resumption, posted to its executor, may run on another thread at any time after.
  \<open>ce_notifies\<close>, \<open>ce_consumed\<close> and \<open>ce_lost\<close> count notifications.
\<close>

section \<open>State\<close>

datatype wait_pc =
    C_idle
  | C_created          \<comment> \<open>waiter made and stop callback installed, before the lock\<close>
  | C_linked           \<comment> \<open>in the list, before \<open>suspended\<close> and \<open>did_suspend\<close> are set\<close>
  | C_published        \<comment> \<open>before the test of \<open>cancel_requested\<close>\<close>
  | C_suspended        \<comment> \<open>\<open>await_suspend\<close> returned true\<close>
  | C_finished "error_code option"  \<comment> \<open>\<open>await_resume\<close> returned: \<open>None\<close> is \<open>ok()\<close>\<close>

record waiter_state =
  cw_pc :: wait_pc
  cw_done :: bool
  cw_suspended :: bool
  cw_cancel_requested :: bool
  cw_ec :: error_code
  cw_stoppable :: bool
  cw_posted :: nat

record cond_event =
  ce_pending :: nat
  ce_waiters :: "nat list"
  ce_destroyed :: bool
  ce_waiter :: "nat \<Rightarrow> waiter_state"
  ce_completing :: "(nat \<times> error_code) list"
  ce_notifies :: nat
  ce_consumed :: nat
  ce_lost :: nat

definition waiter_init :: waiter_state where
  "waiter_init = \<lparr>cw_pc = C_idle, cw_done = False, cw_suspended = False, cw_cancel_requested = False,
     cw_ec = no_error, cw_stoppable = False, cw_posted = 0\<rparr>"

definition cond_init :: cond_event where
  "cond_init = \<lparr>ce_pending = 0, ce_waiters = [], ce_destroyed = False, ce_waiter = (\<lambda>_. waiter_init),
     ce_completing = [], ce_notifies = 0, ce_consumed = 0, ce_lost = 0\<rparr>"

definition put_waiter :: "nat \<Rightarrow> waiter_state \<Rightarrow> cond_event \<Rightarrow> cond_event" where
  "put_waiter w x s = s\<lparr>ce_waiter := (ce_waiter s)(w := x)\<rparr>"

section \<open>Operations\<close>

definition aborted :: error_code where
  "aborted = make_error_code operation_aborted"

definition ce_notify :: "cond_event \<Rightarrow> cond_event" where
  "ce_notify s =
     (if ce_destroyed s then s
      else case ce_waiters s of
             w # ws \<Rightarrow> s\<lparr>ce_waiters := ws, ce_completing := ce_completing s @ [(w, no_error)],
                        ce_notifies := ce_notifies s + 1\<rparr>
           | [] \<Rightarrow> s\<lparr>ce_pending := ce_pending s + 1, ce_notifies := ce_notifies s + 1\<rparr>)"

text \<open>\<open>state::complete\<close>: the first one wins and posts the resumption.\<close>

definition ce_complete :: "nat \<Rightarrow> error_code \<Rightarrow> cond_event \<Rightarrow> cond_event" where
  "ce_complete w ec s =
     (let x = ce_waiter s w
      in if cw_done x then s\<lparr>ce_lost := (if ec = no_error then ce_lost s + 1 else ce_lost s)\<rparr>
         else put_waiter w (x\<lparr>cw_done := True, cw_ec := ec, cw_stoppable := False, cw_posted := cw_posted x + 1\<rparr>)
                (s\<lparr>ce_consumed := (if ec = no_error then ce_consumed s + 1 else ce_consumed s)\<rparr>))"

text \<open>\<open>cancel_waiter\<close> up to the end of the critical section.\<close>

definition cancel_waiter :: "nat \<Rightarrow> cond_event \<Rightarrow> cond_event" where
  "cancel_waiter w s =
     s\<lparr>ce_waiters := remove1 w (ce_waiters s), ce_completing := ce_completing s @ [(w, aborted)]\<rparr>"

definition ce_finish :: "nat \<Rightarrow> error_code option \<Rightarrow> cond_event \<Rightarrow> cond_event" where
  "ce_finish w r s = put_waiter w ((ce_waiter s w)\<lparr>cw_pc := C_finished r, cw_stoppable := False\<rparr>) s"

text \<open>\<open>await_suspend\<close>: the test of the token, the critical section, publishing, the last test.\<close>

definition await_create :: "nat \<Rightarrow> bool \<Rightarrow> bool \<Rightarrow> cond_event \<Rightarrow> cond_event" where
  "await_create w possible requested s =
     (if possible \<and> requested then ce_finish w (Some aborted) s
      else put_waiter w (waiter_init\<lparr>cw_pc := C_created, cw_stoppable := possible\<rparr>) s)"

definition await_link :: "nat \<Rightarrow> cond_event \<Rightarrow> cond_event" where
  "await_link w s =
     (if ce_destroyed s then ce_finish w (Some aborted) s
      else if 0 < ce_pending s then
        ce_finish w None (s\<lparr>ce_pending := ce_pending s - 1, ce_consumed := ce_consumed s + 1\<rparr>)
      else put_waiter w ((ce_waiter s w)\<lparr>cw_pc := C_linked\<rparr>) (s\<lparr>ce_waiters := ce_waiters s @ [w]\<rparr>))"

definition await_publish :: "nat \<Rightarrow> cond_event \<Rightarrow> cond_event" where
  "await_publish w s = put_waiter w ((ce_waiter s w)\<lparr>cw_pc := C_published, cw_suspended := True\<rparr>) s"

definition await_check :: "nat \<Rightarrow> cond_event \<Rightarrow> cond_event" where
  "await_check w s =
     (let s1 = (if cw_cancel_requested (ce_waiter s w) then cancel_waiter w s else s)
      in put_waiter w ((ce_waiter s1 w)\<lparr>cw_pc := C_suspended\<rparr>) s1)"

text \<open>The stop callback.\<close>

definition stop_callback :: "nat \<Rightarrow> cond_event \<Rightarrow> cond_event" where
  "stop_callback w s =
     (let s1 = put_waiter w ((ce_waiter s w)\<lparr>cw_cancel_requested := True, cw_stoppable := False\<rparr>) s
      in if \<not> cw_suspended (ce_waiter s w) then s1 else cancel_waiter w s1)"

definition abort_all_waiters :: "cond_event \<Rightarrow> cond_event" where
  "abort_all_waiters s =
     s\<lparr>ce_destroyed := True, ce_waiters := [],
       ce_completing := ce_completing s @ map (\<lambda>w. (w, aborted)) (ce_waiters s)\<rparr>"

text \<open>
  The posted resumption runs \<open>await_resume\<close>: without \<open>did_suspend\<close>, which is set with
  \<open>suspended\<close>, it returns \<open>ready_res\<close>, initially \<open>ok()\<close>.
\<close>

definition ce_resume :: "nat \<Rightarrow> cond_event \<Rightarrow> cond_event" where
  "ce_resume w s =
     (let x = ce_waiter s w
      in put_waiter w (x\<lparr>cw_posted := cw_posted x - 1,
           cw_pc := C_finished (if cw_suspended x then (if ec_set (cw_ec x) then Some (cw_ec x) else None) else None)\<rparr>) s)"

fun awaiting :: "wait_pc \<Rightarrow> bool" where
  "awaiting C_linked = True"
| "awaiting C_published = True"
| "awaiting C_suspended = True"
| "awaiting _ = False"

inductive cond_step :: "cond_event \<Rightarrow> cond_event \<Rightarrow> bool" where
  notify: "cond_step s (ce_notify s)"
| complete: "ce_completing s = xs @ (w, ec) # ys \<Longrightarrow> cond_step s (ce_complete w ec (s\<lparr>ce_completing := xs @ ys\<rparr>))"
| create: "cw_pc (ce_waiter s w) = C_idle \<Longrightarrow> cond_step s (await_create w possible requested s)"
| link: "cw_pc (ce_waiter s w) = C_created \<Longrightarrow> cond_step s (await_link w s)"
| publish: "cw_pc (ce_waiter s w) = C_linked \<Longrightarrow> cond_step s (await_publish w s)"
| check: "cw_pc (ce_waiter s w) = C_published \<Longrightarrow> cond_step s (await_check w s)"
| stop: "cw_stoppable (ce_waiter s w) \<Longrightarrow> cond_step s (stop_callback w s)"
| destroy: "cond_step s (abort_all_waiters s)"
| resume: "0 < cw_posted (ce_waiter s w) \<Longrightarrow> cond_step s (ce_resume w s)"

section \<open>Invariant\<close>

text \<open>Completions under way of a waiter, and those that carry a notification.\<close>

definition completing_of :: "nat \<Rightarrow> cond_event \<Rightarrow> (nat \<times> error_code) list" where
  "completing_of w s = filter (\<lambda>(v, ec). v = w) (ce_completing s)"

definition notifying :: "(nat \<times> error_code) list \<Rightarrow> nat" where
  "notifying xs = length (filter (\<lambda>(w, ec). ec = no_error) xs)"

definition waiter_ok :: "nat \<Rightarrow> cond_event \<Rightarrow> bool" where
  "waiter_ok w s \<longleftrightarrow>
     (let x = ce_waiter s w
      in cw_posted x \<le> 1 \<and>
         (w \<in> set (ce_waiters s) \<longrightarrow> awaiting (cw_pc x) \<and> \<not> cw_done x) \<and>
         (w \<in> fst ` set (ce_completing s) \<longrightarrow> w \<notin> set (ce_waiters s) \<and> cw_pc x \<noteq> C_idle \<and> cw_pc x \<noteq> C_created) \<and>
         (cw_suspended x \<longrightarrow> cw_pc x \<noteq> C_idle \<and> cw_pc x \<noteq> C_created) \<and>
         (cw_done x \<longrightarrow> cw_pc x \<noteq> C_idle \<and> cw_pc x \<noteq> C_created) \<and>
         (0 < cw_posted x \<longrightarrow> cw_done x) \<and>
         (awaiting (cw_pc x) \<longrightarrow> w \<in> set (ce_waiters s) \<or> w \<in> fst ` set (ce_completing s) \<or> cw_done x) \<and>
         (awaiting (cw_pc x) \<and> cw_done x \<longrightarrow> 0 < cw_posted x))"

definition cond_inv :: "cond_event \<Rightarrow> bool" where
  "cond_inv s \<longleftrightarrow> distinct (ce_waiters s) \<and> (0 < ce_pending s \<longrightarrow> ce_waiters s = []) \<and>
     ce_notifies s = ce_pending s + ce_consumed s + notifying (ce_completing s) + ce_lost s \<and>
     (\<forall>w. waiter_ok w s)"

lemma notifying_simps [simp]:
  "notifying [] = 0" "notifying (xs @ ys) = notifying xs + notifying ys"
  "notifying ((w, ec) # xs) = (if ec = no_error then 1 else 0) + notifying xs"
  by (simp_all add: notifying_def)

lemma aborted_neq [simp]: "aborted \<noteq> no_error"
  by (simp add: aborted_def make_error_code_def no_error_def error_value_def)

lemma notifying_aborted [simp]: "notifying (map (\<lambda>w. (w, aborted)) ws) = 0"
  by (induction ws) simp_all

lemma put_waiter_simps [simp]:
  "ce_waiter (put_waiter w x s) = (ce_waiter s)(w := x)" "ce_waiters (put_waiter w x s) = ce_waiters s"
  "ce_completing (put_waiter w x s) = ce_completing s" "ce_pending (put_waiter w x s) = ce_pending s"
  "ce_consumed (put_waiter w x s) = ce_consumed s" "ce_lost (put_waiter w x s) = ce_lost s"
  "ce_notifies (put_waiter w x s) = ce_notifies s" "ce_destroyed (put_waiter w x s) = ce_destroyed s"
  by (simp_all add: put_waiter_def)

lemma cond_inv_init: "cond_inv cond_init"
  by (simp add: cond_inv_def cond_init_def waiter_ok_def waiter_init_def)

lemma cond_invD:
  assumes "cond_inv s"
  shows "distinct (ce_waiters s)" "0 < ce_pending s \<Longrightarrow> ce_waiters s = []"
    "ce_notifies s = ce_pending s + ce_consumed s + notifying (ce_completing s) + ce_lost s" "\<And>w. waiter_ok w s"
  using assms by (auto simp: cond_inv_def)

lemma awaitingD: "awaiting p \<Longrightarrow> p \<noteq> C_idle \<and> p \<noteq> C_created"
  by (cases p) simp_all

lemma cond_inv_notify:
  assumes inv: "cond_inv s" shows "cond_inv (ce_notify s)"
proof (cases "ce_waiters s")
  case Nil
  then show ?thesis using inv by (simp add: ce_notify_def cond_inv_def waiter_ok_def)
next
  case (Cons w ws)
  have d: "w \<notin> set ws" "distinct ws" "ce_pending s = 0" using cond_invD(1,2) [OF inv] Cons by auto
  have ok: "waiter_ok v s" for v using inv by (rule cond_invD)
  have "waiter_ok v (ce_notify s)" for v
  proof (cases "ce_destroyed s \<or> v \<noteq> w")
    case True
    then show ?thesis using ok [of v] d Cons by (auto simp: ce_notify_def waiter_ok_def Let_def)
  next
    case False
    then show ?thesis using ok [of w] d Cons awaitingD [of "cw_pc (ce_waiter s w)"]
      by (auto simp: ce_notify_def waiter_ok_def Let_def)
  qed
  then show ?thesis using cond_invD(3) [OF inv] d Cons inv by (cases "ce_destroyed s") (simp_all add: cond_inv_def ce_notify_def)
qed

lemma cond_inv_complete:
  assumes inv: "cond_inv s" and c: "ce_completing s = xs @ (w, ec) # ys"
  shows "cond_inv (ce_complete w ec (s\<lparr>ce_completing := xs @ ys\<rparr>))" (is "cond_inv ?t")
proof -
  have ok: "waiter_ok v s" for v using inv by (rule cond_invD)
  have "waiter_ok v ?t" for v
  proof (cases "v = w")
    case True
    then show ?thesis using ok [of w] c
      by (cases "cw_done (ce_waiter s w)") (simp_all add: ce_complete_def waiter_ok_def Let_def image_Un)
  next
    case False
    then show ?thesis using ok [of v] c by (simp add: ce_complete_def waiter_ok_def Let_def image_Un)
  qed
  then show ?thesis using cond_invD [OF inv] c by (simp add: cond_inv_def ce_complete_def Let_def)
qed

lemma cond_inv_create:
  assumes inv: "cond_inv s" and pc: "cw_pc (ce_waiter s w) = C_idle"
  shows "cond_inv (await_create w p r s)"
proof -
  have ok: "waiter_ok v s" for v using inv by (rule cond_invD)
  have "waiter_ok v (await_create w p r s)" for v
    using ok [of v] pc by (auto simp: await_create_def ce_finish_def waiter_ok_def waiter_init_def Let_def)
  then show ?thesis using inv by (auto simp: cond_inv_def await_create_def ce_finish_def)
qed

lemma cond_inv_link:
  assumes inv: "cond_inv s" and pc: "cw_pc (ce_waiter s w) = C_created"
  shows "cond_inv (await_link w s)"
proof -
  have ok: "waiter_ok v s" for v using inv by (rule cond_invD)
  have "waiter_ok v (await_link w s)" for v
    using ok [of v] pc by (auto simp: await_link_def ce_finish_def waiter_ok_def Let_def)
  moreover have "w \<notin> set (ce_waiters s)" using ok [of w] pc by (auto simp: waiter_ok_def)
  ultimately show ?thesis using inv by (auto simp: cond_inv_def await_link_def ce_finish_def)
qed

lemma cond_inv_publish:
  assumes inv: "cond_inv s" and pc: "cw_pc (ce_waiter s w) = C_linked"
  shows "cond_inv (await_publish w s)"
proof -
  have ok: "waiter_ok v s" for v using inv by (rule cond_invD)
  have "waiter_ok v (await_publish w s)" for v
    using ok [of v] pc by (auto simp: await_publish_def waiter_ok_def Let_def)
  then show ?thesis using inv by (auto simp: cond_inv_def await_publish_def)
qed

lemma cond_inv_cancel:
  assumes inv: "cond_inv s" and pc: "cw_pc (ce_waiter s w) \<noteq> C_idle" "cw_pc (ce_waiter s w) \<noteq> C_created"
  shows "cond_inv (cancel_waiter w s)"
proof -
  have ok: "waiter_ok v s" for v using inv by (rule cond_invD)
  have "waiter_ok v (cancel_waiter w s)" for v
    using ok [of v] pc cond_invD(1) [OF inv] by (auto simp: cancel_waiter_def waiter_ok_def Let_def)
  then show ?thesis using inv by (auto simp: cond_inv_def cancel_waiter_def)
qed

text \<open>Fields the invariant does not read, or reads only through the program counter.\<close>

lemma cond_inv_put:
  assumes inv: "cond_inv s" and x: "cw_posted x = cw_posted (ce_waiter s w)" "cw_done x = cw_done (ce_waiter s w)"
    "cw_suspended x = cw_suspended (ce_waiter s w)" "cw_pc x = cw_pc (ce_waiter s w) \<or>
       cw_pc (ce_waiter s w) = C_published \<and> cw_pc x = C_suspended"
  shows "cond_inv (put_waiter w x s)"
proof -
  have ok: "waiter_ok v s" for v using inv by (rule cond_invD)
  have "waiter_ok v (put_waiter w x s)" for v
  proof (cases "v = w")
    case True
    show ?thesis using x(4)
    proof (elim disjE conjE)
      assume "cw_pc x = cw_pc (ce_waiter s w)"
      then show ?thesis using True ok [of w] x(1-3) by (simp add: waiter_ok_def Let_def)
    next
      assume "cw_pc (ce_waiter s w) = C_published" "cw_pc x = C_suspended"
      then show ?thesis using True ok [of w] x(1-3) by (simp add: waiter_ok_def Let_def)
    qed
  qed (use ok [of v] in \<open>simp add: waiter_ok_def Let_def\<close>)
  then show ?thesis using inv by (simp add: cond_inv_def)
qed

lemma cond_inv_check:
  assumes inv: "cond_inv s" and pc: "cw_pc (ce_waiter s w) = C_published"
  shows "cond_inv (await_check w s)"
proof -
  define s1 where "s1 = (if cw_cancel_requested (ce_waiter s w) then cancel_waiter w s else s)"
  have "cond_inv s1" using inv cond_inv_cancel [OF inv] pc by (simp add: s1_def)
  moreover have "ce_waiter s1 = ce_waiter s" by (simp add: s1_def cancel_waiter_def)
  ultimately show ?thesis using pc by (simp add: await_check_def Let_def s1_def [symmetric] cond_inv_put)
qed

lemma cond_inv_stop:
  assumes inv: "cond_inv s" shows "cond_inv (stop_callback w s)"
proof -
  define s1 where "s1 = put_waiter w ((ce_waiter s w)\<lparr>cw_cancel_requested := True, cw_stoppable := False\<rparr>) s"
  have inv1: "cond_inv s1" unfolding s1_def using inv by (rule cond_inv_put) simp_all
  have "waiter_ok w s" using inv by (rule cond_invD)
  then have "cond_inv (cancel_waiter w s1)" if "cw_suspended (ce_waiter s w)"
    using that inv1 by (intro cond_inv_cancel) (auto simp: s1_def waiter_ok_def Let_def)
  then show ?thesis using inv1 by (simp add: stop_callback_def Let_def s1_def [symmetric])
qed

lemma cond_inv_destroy:
  assumes inv: "cond_inv s" shows "cond_inv (abort_all_waiters s)"
proof -
  have ok: "waiter_ok v s" for v using inv by (rule cond_invD)
  have "waiter_ok v (abort_all_waiters s)" for v
    using ok [of v] by (auto simp: abort_all_waiters_def waiter_ok_def Let_def image_Un image_image)
  then show ?thesis using inv by (simp add: cond_inv_def abort_all_waiters_def)
qed

lemma cond_inv_resume:
  assumes inv: "cond_inv s" and p: "0 < cw_posted (ce_waiter s w)"
  shows "cond_inv (ce_resume w s)"
proof -
  have ok: "waiter_ok v s" for v using inv by (rule cond_invD)
  have "waiter_ok v (ce_resume w s)" for v
    using ok [of v] p by (auto simp: ce_resume_def waiter_ok_def Let_def)
  then show ?thesis using inv by (auto simp: cond_inv_def ce_resume_def Let_def)
qed

lemma cond_inv_step: "cond_step s t \<Longrightarrow> cond_inv s \<Longrightarrow> cond_inv t"
proof (induction rule: cond_step.induct)
  case (complete s xs w ec ys)
  then show ?case by (intro cond_inv_complete)
qed (simp_all add: cond_inv_notify cond_inv_create cond_inv_link cond_inv_publish
        cond_inv_check cond_inv_stop cond_inv_destroy cond_inv_resume)

interpretation cond: inductive_invariant "\<lambda>s. s = cond_init" cond_step cond_inv
  by unfold_locales (simp_all add: cond_inv_init cond_inv_step)

section \<open>Properties\<close>

text \<open>
  (C30) Whatever threads notify, cancel, destroy and await, in every interleaving: a
  coroutine that awaits the event is in the list of waiters, or a thread is completing it,
  or its resumption is posted; a resumption is posted at most once per wait; notifications
  stored and waiters listed exclude each other; and every accepted notification is stored,
  was consumed by a wait, is under way, or met a waiter that was completed already.
\<close>

theorem condition_waiter_not_stranded:
  assumes "reach (\<lambda>s. s = cond_init) cond_step s"
  shows "(awaiting (cw_pc (ce_waiter s w)) \<longrightarrow>
       w \<in> set (ce_waiters s) \<or> w \<in> fst ` set (ce_completing s) \<or> cw_posted (ce_waiter s w) = 1) \<and>
     cw_posted (ce_waiter s w) \<le> 1 \<and> (0 < ce_pending s \<longrightarrow> ce_waiters s = []) \<and>
     ce_notifies s = ce_pending s + ce_consumed s + notifying (ce_completing s) + ce_lost s"
proof -
  have inv: "cond_inv s" using assms by (rule cond.reach_inv)
  have "waiter_ok w s" using inv by (rule cond_invD)
  then have "awaiting (cw_pc (ce_waiter s w)) \<longrightarrow>
       w \<in> set (ce_waiters s) \<or> w \<in> fst ` set (ce_completing s) \<or> cw_posted (ce_waiter s w) = 1"
    "cw_posted (ce_waiter s w) \<le> 1"
    by (auto simp: waiter_ok_def Let_def)
  then show ?thesis using cond_invD(2,3) [OF inv] by simp
qed

text \<open>Labelled steps, to run an interleaving.\<close>

datatype cond_label = N_notify | N_complete nat | N_create nat bool | N_link nat | N_publish nat
  | N_check nat | N_stop nat | N_destroy | N_resume nat

fun cond_do :: "cond_label \<Rightarrow> cond_event \<Rightarrow> cond_event option" where
  "cond_do N_notify s = Some (ce_notify s)"
| "cond_do (N_complete i) s =
     (if i < length (ce_completing s) then
        Some (ce_complete (fst (ce_completing s ! i)) (snd (ce_completing s ! i))
          (s\<lparr>ce_completing := take i (ce_completing s) @ drop (Suc i) (ce_completing s)\<rparr>))
      else None)"
| "cond_do (N_create w p) s = (if cw_pc (ce_waiter s w) = C_idle then Some (await_create w p False s) else None)"
| "cond_do (N_link w) s = (if cw_pc (ce_waiter s w) = C_created then Some (await_link w s) else None)"
| "cond_do (N_publish w) s = (if cw_pc (ce_waiter s w) = C_linked then Some (await_publish w s) else None)"
| "cond_do (N_check w) s = (if cw_pc (ce_waiter s w) = C_published then Some (await_check w s) else None)"
| "cond_do (N_stop w) s = (if cw_stoppable (ce_waiter s w) then Some (stop_callback w s) else None)"
| "cond_do N_destroy s = Some (abort_all_waiters s)"
| "cond_do (N_resume w) s = (if 0 < cw_posted (ce_waiter s w) then Some (ce_resume w s) else None)"

lemma cond_do_step: "cond_do l s = Some t \<Longrightarrow> cond_step s t"
proof (cases l)
  case (N_complete i)
  assume "cond_do l s = Some t"
  then have "i < length (ce_completing s)" and t: "t = ce_complete (fst (ce_completing s ! i)) (snd (ce_completing s ! i))
          (s\<lparr>ce_completing := take i (ce_completing s) @ drop (Suc i) (ce_completing s)\<rparr>)"
    using N_complete by (simp_all split: if_splits)
  then have "ce_completing s = take i (ce_completing s) @
      (fst (ce_completing s ! i), snd (ce_completing s ! i)) # drop (Suc i) (ce_completing s)"
    by (simp add: id_take_nth_drop [symmetric])
  then show "cond_step s t" unfolding t by (rule cond_step.complete)
qed (auto intro: cond_step.intros split: if_splits)

interpretation cond_run: labelled_steps "\<lambda>s. s = cond_init" cond_step cond_do
  by unfold_locales (fact cond_do_step)

lemmas cond_run_simps = cond_init_def waiter_init_def ce_notify_def ce_complete_def cancel_waiter_def
  ce_finish_def await_create_def await_link_def await_publish_def await_check_def stop_callback_def
  abort_all_waiters_def ce_resume_def Let_def

definition suspend_wait :: "nat \<Rightarrow> cond_label list" where
  "suspend_wait w = [N_create w True, N_link w, N_publish w, N_check w]"

theorem condition_waiter_not_stranded_witness:
  "\<exists>s. do_all cond_do (suspend_wait 1 @ [N_notify, N_complete 0]) cond_init = Some s \<and>
     awaiting (cw_pc (ce_waiter s 1)) \<and> cw_posted (ce_waiter s 1) = 1"
proof -
  obtain s where s: "do_all cond_do (suspend_wait 1 @ [N_notify, N_complete 0]) cond_init = Some s"
    and a: "awaiting (cw_pc (ce_waiter s 1))" "ce_waiters s = []" "ce_completing s = []"
    by (simp add: suspend_wait_def cond_run_simps)
  have "reach (\<lambda>s. s = cond_init) cond_step s" using reach_start s by (rule cond_run.do_all_reach) simp
  from condition_waiter_not_stranded [OF this, of 1] show ?thesis using s a by auto
qed

text \<open>
  A notification can be lost although a waiter is listed: \<open>notify\<close> takes waiter 1 out
  of the list and leaves the critical section; its stop callback runs first and completes
  it with \<open>operation_aborted\<close>; then the completion of \<open>notify\<close> finds \<open>done\<close> set and drops
  the notification. Waiter 2 stays suspended, with nothing pending and nothing under way.
\<close>

lemma condition_notification_lost:
  "\<exists>s. reach (\<lambda>s. s = cond_init) cond_step s \<and> ce_notifies s = 1 \<and> ce_lost s = 1 \<and> ce_pending s = 0 \<and>
     ce_completing s = [] \<and> cw_pc (ce_waiter s 1) = C_finished (Some aborted) \<and>
     cw_pc (ce_waiter s 2) = C_suspended \<and> ce_waiters s = [2]"
proof -
  have "\<exists>s. do_all cond_do (suspend_wait 1 @ suspend_wait 2 @
      [N_notify, N_stop 1, N_complete 1, N_complete 0, N_resume 1]) cond_init = Some s \<and>
     ce_notifies s = 1 \<and> ce_lost s = 1 \<and> ce_pending s = 0 \<and>
     ce_completing s = [] \<and> cw_pc (ce_waiter s 1) = C_finished (Some aborted) \<and>
     cw_pc (ce_waiter s 2) = C_suspended \<and> ce_waiters s = [2]"
    by (simp add: suspend_wait_def cond_run_simps aborted_def ec_set_def make_error_code_def error_value_def)
  then show ?thesis using cond_run.do_all_reach [OF reach_start] by blast
qed

text \<open>
  A wait can report success without a notification: the event is destroyed after
  \<open>await_suspend\<close> linked the waiter and before it sets \<open>did_suspend\<close>; the resumption
  posted by the destructor runs on another thread, finds \<open>did_suspend\<close> false and returns
  \<open>ready_res\<close>, which is \<open>ok()\<close>.
\<close>

lemma condition_spurious_success:
  "\<exists>s. reach (\<lambda>s. s = cond_init) cond_step s \<and> ce_notifies s = 0 \<and> cw_ec (ce_waiter s 1) = aborted \<and>
     cw_pc (ce_waiter s 1) = C_finished None"
proof -
  have "\<exists>s. do_all cond_do [N_create 1 True, N_link 1, N_destroy, N_complete 0, N_resume 1] cond_init = Some s \<and>
     ce_notifies s = 0 \<and> cw_ec (ce_waiter s 1) = aborted \<and> cw_pc (ce_waiter s 1) = C_finished None"
    by (simp add: cond_run_simps)
  then show ?thesis using cond_run.do_all_reach [OF reach_start] by blast
qed

end
