(* ===== verification/StreamIo.thy ===== *)
theory StreamIo
  imports Errors Prelude "HOL-Library.Sublist"
begin

text \<open>
  The composed stream algorithms: \<open>io/read.hpp\<close>, \<open>io/write.hpp\<close>, \<open>io/read_until.hpp\<close>.

  The stream is a parameter, as in the source, where it is a template argument. Its
  \<open>async_read_some\<close> takes the stream's state and the size of the span and gives an error or
  the bytes it put at the front of the span, whose number is the result; its
  \<open>async_write_some\<close> takes the bytes and gives an error or how many it took. Sizes are
  \<open>nat\<close>: they never exceed the size of a buffer in memory. A buffer is the list of its
  bytes, and a span of it is an offset.
\<close>

type_synonym 's read_some = "'s \<Rightarrow> nat \<Rightarrow> u8 list result \<times> 's"
type_synonym 's write_some = "'s \<Rightarrow> u8 list \<Rightarrow> nat result \<times> 's"

definition write_at :: "u8 list \<Rightarrow> nat \<Rightarrow> u8 list \<Rightarrow> u8 list" where
  "write_at buf i bs = take i buf @ bs @ drop (i + length bs) buf"

text \<open>
  What the stream concept asks of the primitives: they report how many bytes they moved,
  never more than asked for. \<open>rest s\<close> is what the stream has still to deliver,
  \<open>sent s\<close> what it has taken so far; a failed call moves nothing.
\<close>

definition byte_source :: "'s read_some \<Rightarrow> ('s \<Rightarrow> u8 list) \<Rightarrow> bool" where
  "byte_source rs rest \<longleftrightarrow>
     (\<forall>s k. case rs s k of
        (Inr bs, s') \<Rightarrow> length bs \<le> k \<and> rest s = bs @ rest s'
      | (Inl e, s') \<Rightarrow> rest s' = rest s)"

definition byte_sink :: "'s write_some \<Rightarrow> ('s \<Rightarrow> u8 list) \<Rightarrow> bool" where
  "byte_sink ws sent \<longleftrightarrow>
     (\<forall>s bs. case ws s bs of
        (Inr n, s') \<Rightarrow> n \<le> length bs \<and> sent s' = sent s @ take n bs
      | (Inl e, s') \<Rightarrow> sent s' = sent s)"

section \<open>Searching\<close>

text \<open>\<open>std::memchr\<close> and \<open>std::search\<close>, with \<open>None\<close> for a null pointer and the end iterator.\<close>

primrec memchr :: "u8 list \<Rightarrow> u8 \<Rightarrow> nat option" where
  "memchr [] v = None"
| "memchr (x # xs) v = (if x = v then Some 0 else map_option Suc (memchr xs v))"

fun std_search :: "u8 list \<Rightarrow> u8 list \<Rightarrow> nat option" where
  "std_search xs pat =
     (if prefix pat xs then Some 0
      else case xs of [] \<Rightarrow> None | x # ys \<Rightarrow> map_option Suc (std_search ys pat))"

definition find_byte_in_span :: "u8 list \<Rightarrow> u8 \<Rightarrow> nat option" where
  "find_byte_in_span data needle = (if data = [] then None else memchr data needle)"

definition find_in_span :: "u8 list \<Rightarrow> u8 list \<Rightarrow> nat option" where
  "find_in_span data delim =
     (if delim = [] \<or> length data < length delim then None
      else if length delim = 1 then find_byte_in_span data (delim ! 0)
      else std_search data delim)"

section \<open>Operations\<close>

definition search_start :: "nat \<Rightarrow> u8 list \<Rightarrow> nat" where
  "search_start cur delim = (if cur > length delim - 1 then cur - (length delim - 1) else 0)"

function read_until_loop ::
  "'s read_some \<Rightarrow> u8 list \<Rightarrow> nat \<Rightarrow> nat \<Rightarrow> u8 list \<Rightarrow> 's \<Rightarrow> nat result \<times> u8 list \<times> 's" where
  "read_until_loop rs delim cur from buf s =
     (if cur < length buf then
        (case rs s (length buf - cur) of
           (Inl e, s') \<Rightarrow> (Inl e, buf, s')
         | (Inr bs, s') \<Rightarrow>
             if bs = [] then (fail_with eof, buf, s')
             else let cur' = cur + length bs; buf' = write_at buf cur bs
                  in case find_in_span (drop from (take cur' buf')) delim of
                       Some pos \<Rightarrow> (Inr (from + pos + length delim), buf', s')
                     | None \<Rightarrow> read_until_loop rs delim cur' (search_start cur' delim) buf' s')
      else (fail_with message_size, buf, s))"
  by pat_completeness auto
termination
  by (relation "measure (\<lambda>(rs, delim, cur, from, buf, s). length buf - cur)")
     (auto simp: write_at_def simp flip: length_greater_0_conv)

definition async_read_until ::
  "'s read_some \<Rightarrow> u8 list \<Rightarrow> u8 list \<Rightarrow> nat \<Rightarrow> 's \<Rightarrow> nat result \<times> u8 list \<times> 's" where
  "async_read_until rs buf delim initial_size s =
     (if delim = [] then (fail_with invalid_argument, buf, s)
      else if initial_size > length buf then (fail_with invalid_argument, buf, s)
      else case (if initial_size \<ge> length delim then find_in_span (take initial_size buf) delim else None) of
             Some pos \<Rightarrow> (Inr (pos + length delim), buf, s)
           | None \<Rightarrow> read_until_loop rs delim initial_size (search_start initial_size delim) buf s)"

function read_until_char_loop ::
  "'s read_some \<Rightarrow> u8 \<Rightarrow> nat \<Rightarrow> nat \<Rightarrow> u8 list \<Rightarrow> 's \<Rightarrow> nat result \<times> u8 list \<times> 's" where
  "read_until_char_loop rs delim cur from buf s =
     (if cur < length buf then
        (case rs s (length buf - cur) of
           (Inl e, s') \<Rightarrow> (Inl e, buf, s')
         | (Inr bs, s') \<Rightarrow>
             if bs = [] then (fail_with eof, buf, s')
             else let cur' = cur + length bs; buf' = write_at buf cur bs
                  in case find_byte_in_span (drop from (take cur' buf')) delim of
                       Some pos \<Rightarrow> (Inr (from + pos + 1), buf', s')
                     | None \<Rightarrow> read_until_char_loop rs delim cur' cur' buf' s')
      else (fail_with message_size, buf, s))"
  by pat_completeness auto
termination
  by (relation "measure (\<lambda>(rs, delim, cur, from, buf, s). length buf - cur)")
     (auto simp: write_at_def simp flip: length_greater_0_conv)

definition async_read_until_char ::
  "'s read_some \<Rightarrow> u8 list \<Rightarrow> u8 \<Rightarrow> nat \<Rightarrow> 's \<Rightarrow> nat result \<times> u8 list \<times> 's" where
  "async_read_until_char rs buf delim initial_size s =
     (if initial_size > length buf then (fail_with invalid_argument, buf, s)
      else case (if initial_size > 0 then find_byte_in_span (take initial_size buf) delim else None) of
             Some pos \<Rightarrow> (Inr (pos + 1), buf, s)
           | None \<Rightarrow> read_until_char_loop rs delim initial_size initial_size buf s)"

text \<open>\<open>off\<close> is how far \<open>buf.subspan\<close> has advanced.\<close>

function async_read_loop :: "'s read_some \<Rightarrow> nat \<Rightarrow> u8 list \<Rightarrow> 's \<Rightarrow> nat result \<times> u8 list \<times> 's" where
  "async_read_loop rs off buf s =
     (if off < length buf then
        (case rs s (length buf - off) of
           (Inl e, s') \<Rightarrow> (Inl e, buf, s')
         | (Inr bs, s') \<Rightarrow>
             if bs = [] then (fail_with eof, buf, s')
             else async_read_loop rs (off + length bs) (write_at buf off bs) s')
      else (Inr (length buf), buf, s))"
  by pat_completeness auto
termination
  by (relation "measure (\<lambda>(rs, off, buf, s). length buf - off)")
     (auto simp: write_at_def simp flip: length_greater_0_conv)

definition async_read :: "'s read_some \<Rightarrow> u8 list \<Rightarrow> 's \<Rightarrow> nat result \<times> u8 list \<times> 's" where
  "async_read rs buf s = async_read_loop rs 0 buf s"

function async_write_loop :: "'s write_some \<Rightarrow> nat \<Rightarrow> u8 list \<Rightarrow> 's \<Rightarrow> nat result \<times> 's" where
  "async_write_loop ws wanted buf s =
     (if buf \<noteq> [] then
        (case ws s buf of
           (Inl e, s') \<Rightarrow> (Inl e, s')
         | (Inr n, s') \<Rightarrow>
             if n = 0 then (fail_with broken_pipe, s') else async_write_loop ws wanted (drop n buf) s')
      else (Inr wanted, s))"
  by pat_completeness auto
termination
  by (relation "measure (\<lambda>(ws, wanted, buf, s). length buf)") auto

definition async_write :: "'s write_some \<Rightarrow> u8 list \<Rightarrow> 's \<Rightarrow> nat result \<times> 's" where
  "async_write ws buf s = async_write_loop ws (length buf) buf s"

declare read_until_loop.simps [simp del] read_until_char_loop.simps [simp del]
  async_read_loop.simps [simp del] async_write_loop.simps [simp del] std_search.simps [simp del]

section \<open>Occurrences\<close>

definition occurs_at :: "u8 list \<Rightarrow> u8 list \<Rightarrow> nat \<Rightarrow> bool" where
  "occurs_at pat xs i \<longleftrightarrow> i \<le> length xs \<and> prefix pat (drop i xs)"

text \<open>Position of the first occurrence, if there is one.\<close>

definition first_at :: "u8 list \<Rightarrow> u8 list \<Rightarrow> nat option \<Rightarrow> bool" where
  "first_at pat xs r \<longleftrightarrow>
     (case r of Some i \<Rightarrow> occurs_at pat xs i \<and> (\<forall>j<i. \<not> occurs_at pat xs j) | None \<Rightarrow> \<forall>j. \<not> occurs_at pat xs j)"

lemma occurs_at_simps:
  "occurs_at pat xs 0 \<longleftrightarrow> prefix pat xs" "occurs_at pat (x # xs) (Suc i) \<longleftrightarrow> occurs_at pat xs i"
  "occurs_at pat [] (Suc i) \<longleftrightarrow> False"
  by (simp_all add: occurs_at_def)

lemma first_at_unique: "first_at pat xs r \<Longrightarrow> first_at pat xs r' \<Longrightarrow> r = r'"
  by (cases r; cases r') (auto simp: first_at_def intro: linorder_cases)

lemma first_at_Cons:
  assumes "\<not> prefix pat (x # xs)" "first_at pat xs r"
  shows "first_at pat (x # xs) (map_option Suc r)"
proof -
  have "occurs_at pat (x # xs) j \<longleftrightarrow> (\<exists>i. j = Suc i \<and> occurs_at pat xs i)" for j
    using assms(1) by (cases j) (simp_all add: occurs_at_simps)
  then show ?thesis using assms(2) by (cases r) (auto simp: first_at_def)
qed

lemma first_at_0: "prefix pat xs \<Longrightarrow> first_at pat xs (Some 0)"
  by (simp add: first_at_def occurs_at_simps)

lemma std_search_first: "first_at pat xs (std_search xs pat)"
proof (induction xs)
  case Nil
  have "\<not> occurs_at pat [] j" if "\<not> prefix pat []" for j
    using that by (simp add: occurs_at_def)
  then show ?case by (auto simp: std_search.simps [of "[]"] occurs_at_simps first_at_def)
next
  case (Cons x xs)
  then show ?case
    using first_at_0 [of pat "x # xs"] first_at_Cons [of pat x xs]
    by (simp add: std_search.simps [of "x # xs"])
qed

lemma std_search_eq: "first_at pat xs r \<Longrightarrow> std_search xs pat = r"
  using std_search_first by (rule first_at_unique)

lemma memchr_search: "memchr xs v = std_search xs [v]"
proof (induction xs)
  case Nil
  then show ?case by (simp add: std_search.simps [of "[]"])
next
  case (Cons x xs)
  then show ?case by (auto simp: std_search.simps [of "x # xs"])
qed

lemma find_byte_search: "find_byte_in_span xs v = std_search xs [v]"
  using memchr_search [of xs v] by (cases xs) (simp_all add: find_byte_in_span_def)

lemma find_in_span_search:
  assumes "pat \<noteq> []" shows "find_in_span xs pat = std_search xs pat"
proof -
  have "std_search xs pat = None" if "length xs < length pat"
    using that by (intro std_search_eq) (auto simp: first_at_def occurs_at_def dest: prefix_length_le)
  moreover have "pat = [pat ! 0]" if "length pat = 1" using that by (cases pat) auto
  ultimately show ?thesis using assms
    by (auto simp: find_in_span_def) (metis One_nat_def find_byte_search)
qed

text \<open>
  When the first \<open>cur\<close> bytes hold no occurrence, only the last \<open>length pat - 1\<close> of them can
  be part of one, so searching from there on finds the first occurrence of all.
\<close>

lemma occurs_at_take:
  assumes "occurs_at pat xs i" "i + length pat \<le> n" "n \<le> length xs"
  shows "occurs_at pat (take n xs) i"
proof -
  have "prefix pat (drop i xs)" using assms(1) by (simp add: occurs_at_def)
  then have "take (length pat) (drop i xs) = pat" by (metis append_eq_conv_conj prefixE)
  moreover have "take (length pat) (drop i (take n xs)) = take (length pat) (drop i xs)"
    using assms(2) by (simp add: drop_take)
  ultimately have "prefix pat (drop i (take n xs))" by (metis take_is_prefix)
  then show ?thesis using assms by (simp add: occurs_at_def)
qed

lemma search_suffix:
  assumes none: "std_search (take cur xs) pat = None" and cur: "cur \<le> length xs" and pat: "pat \<noteq> []"
    and fr: "from \<le> search_start cur pat"
  shows "std_search xs pat = map_option ((+) from) (std_search (drop from xs) pat)"
proof (rule std_search_eq)
  have none': "\<not> occurs_at pat (take cur xs) j" for j
    using std_search_first [of pat "take cur xs"] none by (simp add: first_at_def)
  have from_le: "from \<le> length xs" using fr cur by (auto simp: search_start_def split: if_splits)
  have late: "from \<le> j" if "occurs_at pat xs j" for j
  proof (rule ccontr)
    assume "\<not> from \<le> j"
    then have "j + length pat \<le> cur" using fr pat
      by (cases pat) (auto simp: search_start_def split: if_splits)
    then show False using none' occurs_at_take [OF that _ cur] by blast
  qed
  have shift: "occurs_at pat (drop from xs) j \<longleftrightarrow> occurs_at pat xs (from + j)" for j
    using from_le by (auto simp: occurs_at_def add.commute)
  show "first_at pat xs (map_option ((+) from) (std_search (drop from xs) pat))"
  proof (cases "std_search (drop from xs) pat")
    case None
    then have "\<not> occurs_at pat xs (from + j)" for j
      using std_search_first [of pat "drop from xs"] shift by (simp add: first_at_def)
    then show ?thesis using None late by (auto simp: first_at_def dest: le_Suc_ex)
  next
    case (Some i)
    then have i: "occurs_at pat xs (from + i)" "\<And>j. j < i \<Longrightarrow> \<not> occurs_at pat xs (from + j)"
      using std_search_first [of pat "drop from xs"] shift by (auto simp: first_at_def)
    have "\<not> occurs_at pat xs j" if "j < from + i" for j
      using late [of j] i(2) [of "j - from"] that by (cases "from \<le> j") auto
    then show ?thesis using Some i(1) by (simp add: first_at_def)
  qed
qed

section \<open>The reference algorithm\<close>

text \<open>Search everything read so far from its start, then read more.\<close>

function read_until_ref ::
  "'s read_some \<Rightarrow> u8 list \<Rightarrow> nat \<Rightarrow> u8 list \<Rightarrow> 's \<Rightarrow> nat result \<times> u8 list \<times> 's" where
  "read_until_ref rs delim cur buf s =
     (case std_search (take cur buf) delim of
        Some pos \<Rightarrow> (Inr (pos + length delim), buf, s)
      | None \<Rightarrow>
         if cur < length buf then
           (case rs s (length buf - cur) of
              (Inl e, s') \<Rightarrow> (Inl e, buf, s')
            | (Inr bs, s') \<Rightarrow>
                if bs = [] then (fail_with eof, buf, s')
                else read_until_ref rs delim (cur + length bs) (write_at buf cur bs) s')
         else (fail_with message_size, buf, s))"
  by pat_completeness auto
termination
  by (relation "measure (\<lambda>(rs, delim, cur, buf, s). length buf - cur)")
     (auto simp: write_at_def simp flip: length_greater_0_conv)

declare read_until_ref.simps [simp del]

lemma byte_sourceD:
  assumes "byte_source rs rest"
  shows "rs s k = (Inr bs, s') \<Longrightarrow> length bs \<le> k" "rs s k = (Inr bs, s') \<Longrightarrow> rest s = bs @ rest s'"
    "rs s k = (Inl e, s') \<Longrightarrow> rest s' = rest s"
  using assms [unfolded byte_source_def, rule_format, of s k] by auto

lemma write_at_facts:
  assumes "i + length bs \<le> length buf"
  shows "length (write_at buf i bs) = length buf" "take i (write_at buf i bs) = take i buf"
    "take (i + length bs) (write_at buf i bs) = take i buf @ bs"
  using assms by (simp_all add: write_at_def)

lemma search_after_read:
  assumes "std_search (take cur buf) delim = None" "delim \<noteq> []" "from \<le> search_start cur delim"
    and le: "cur + length bs \<le> length buf"
  shows "std_search (take (cur + length bs) (write_at buf cur bs)) delim =
    map_option ((+) from) (find_in_span (drop from (take (cur + length bs) (write_at buf cur bs))) delim)"
proof -
  let ?xs = "take (cur + length bs) (write_at buf cur bs)"
  have "take cur ?xs = take cur buf" using write_at_facts(2) [OF le] by (simp add: min_def)
  then show ?thesis unfolding find_in_span_search [OF assms(2)]
    using assms write_at_facts(1) [OF le] by (intro search_suffix [of cur]) simp_all
qed

lemma read_until_loop_ref:
  assumes "byte_source rs rest" "delim \<noteq> []"
    and "std_search (take cur buf) delim = None" "from \<le> search_start cur delim" "cur \<le> length buf"
  shows "read_until_loop rs delim cur from buf s = read_until_ref rs delim cur buf s"
  using assms
proof (induction rs delim cur "from" buf s rule: read_until_loop.induct)
  case (1 rs delim cur "from" buf s)
  note unfold = read_until_loop.simps [of rs delim cur] read_until_ref.simps [of rs delim cur]
  obtain r s' where rs: "rs s (length buf - cur) = (r, s')" by fastforce
  show ?case
  proof (cases "cur < length buf \<and> (\<exists>bs. r = Inr bs \<and> bs \<noteq> [])")
    case False
    then show ?thesis using 1(4) rs by (cases r) (auto simp: unfold)
  next
    case True
    then obtain bs where cur: "cur < length buf" and bs: "r = Inr bs" "bs \<noteq> []" by blast
    let ?c = "cur + length bs" and ?b = "write_at buf cur bs"
    have le: "?c \<le> length buf" using byte_sourceD(1) [OF 1(2) rs [unfolded bs]] cur by simp
    note s = search_after_read [OF 1(4,3,5) le]
    have e: "read_until_ref rs delim cur buf s = read_until_ref rs delim ?c ?b s'"
      using 1(4) cur rs bs by (simp add: unfold(2))
    show ?thesis
    proof (cases "find_in_span (drop from (take ?c ?b)) delim")
      case (Some pos)
      then show ?thesis using cur rs bs s unfolding e
        by (simp add: unfold(1) read_until_ref.simps [of _ _ ?c])
    next
      case None
      have "read_until_loop rs delim ?c (search_start ?c delim) ?b s' = read_until_ref rs delim ?c ?b s'"
        by (rule 1(1) [OF cur rs [symmetric] bs refl refl None 1(2,3)])
           (use None s write_at_facts(1) [OF le] le in simp_all)
      then show ?thesis using cur rs bs None unfolding e by (simp add: unfold(1))
    qed
  qed
qed

lemma search_start_1 [simp]: "search_start n [c] = n"
  by (simp add: search_start_def)

lemma find_in_span_1 [simp]: "find_in_span xs [c] = find_byte_in_span xs c"
  by (simp add: find_in_span_search find_byte_search)

lemma read_until_char_loop_eq: "read_until_char_loop rs c cur from buf s = read_until_loop rs [c] cur from buf s"
proof (induction rs c cur "from" buf s rule: read_until_char_loop.induct)
  case (1 rs c cur "from" buf s)
  then show ?case
    by (auto simp: read_until_char_loop.simps [of rs c cur] read_until_loop.simps [of rs "[c]" cur] Let_def
        split: prod.splits sum.splits option.splits)
qed

lemma async_read_until_ref:
  assumes "byte_source rs rest" "delim \<noteq> []" "init \<le> length buf"
  shows "async_read_until rs buf delim init s = read_until_ref rs delim init buf s"
proof -
  let ?f = "if init \<ge> length delim then find_in_span (take init buf) delim else None"
  have f: "?f = std_search (take init buf) delim"
    using assms by (simp add: find_in_span_search [symmetric] find_in_span_def)
  show ?thesis
  proof (cases "std_search (take init buf) delim")
    case None
    then show ?thesis using assms read_until_loop_ref [OF assms(1,2) None order_refl assms(3)]
      by (simp add: async_read_until_def f del: if_cancel)
  next
    case (Some p)
    then show ?thesis using assms by (simp add: async_read_until_def f read_until_ref.simps [of _ _ init])
  qed
qed

lemma async_read_until_char_eq:
  "init \<le> length buf \<Longrightarrow> async_read_until_char rs buf c init s = async_read_until rs buf [c] init s"
  by (cases "0 < init")
     (simp_all add: async_read_until_char_def async_read_until_def read_until_char_loop_eq Suc_le_eq split: option.split)

definition read_until_outcome ::
  "('s \<Rightarrow> u8 list) \<Rightarrow> u8 list \<Rightarrow> nat \<Rightarrow> u8 list \<Rightarrow> 's \<Rightarrow> nat result \<times> u8 list \<times> 's \<Rightarrow> bool" where
  "read_until_outcome rest delim init buf s res \<longleftrightarrow>
     (case res of (r, buf', s') \<Rightarrow>
        length buf' = length buf \<and>
        (\<exists>got. init + length got \<le> length buf \<and> rest s = got @ rest s' \<and>
           take (init + length got) buf' = take init buf @ got \<and>
           (case r of
              Inr k \<Rightarrow> \<exists>p. k = p + length delim \<and> first_at delim (take init buf @ got) (Some p)
            | Inl e \<Rightarrow> first_at delim (take init buf @ got) None \<and>
                (init + length got = length buf \<longrightarrow> e = make_error_code message_size))))"

lemma read_until_outcome_step:
  assumes le: "cur + length bs \<le> length buf" and r: "rest s = bs @ rest s'"
    and "read_until_outcome rest delim (cur + length bs) (write_at buf cur bs) s' (x, buf', t)"
  shows "read_until_outcome rest delim cur buf s (x, buf', t)"
proof -
  note w = write_at_facts [OF le]
  obtain got where got: "length buf' = length buf" "cur + length bs + length got \<le> length buf" "rest s' = got @ rest t"
      "take (cur + length bs + length got) buf' = take cur buf @ bs @ got"
      "case x of
         Inr k \<Rightarrow> \<exists>p. k = p + length delim \<and> first_at delim (take cur buf @ bs @ got) (Some p)
       | Inl e \<Rightarrow> first_at delim (take cur buf @ bs @ got) None \<and>
           (cur + length bs + length got = length buf \<longrightarrow> e = make_error_code message_size)"
    using assms(3) unfolding read_until_outcome_def w prod.case append_assoc by blast
  then show ?thesis using r unfolding read_until_outcome_def prod.case
    by (intro conjI exI [of _ "bs @ got"]) (simp_all add: add.assoc split: sum.splits)
qed

lemma read_until_ref_outcome:
  assumes "byte_source rs rest" "cur \<le> length buf"
  shows "read_until_outcome rest delim cur buf s (read_until_ref rs delim cur buf s)"
  using assms
proof (induction rs delim cur buf s rule: read_until_ref.induct)
  case (1 rs delim cur buf s)
  note unfold = read_until_ref.simps [of rs delim cur]
  obtain r s' where rs: "rs s (length buf - cur) = (r, s')" by fastforce
  have stop: "read_until_outcome rest delim cur buf s (x, buf, t)"
    if "rest t = rest s" "case x of Inr k \<Rightarrow> \<exists>p. k = p + length delim \<and> first_at delim (take cur buf) (Some p)
            | Inl e \<Rightarrow> first_at delim (take cur buf) None \<and> (cur = length buf \<longrightarrow> e = make_error_code message_size)" for x t
    using that 1(3) by (auto simp: read_until_outcome_def intro!: exI [of _ "[]"] split: sum.splits)
  have first: "first_at delim (take cur buf) (std_search (take cur buf) delim)" by (rule std_search_first)
  show ?case
  proof (cases "std_search (take cur buf) delim = None \<and> cur < length buf \<and> (\<exists>bs. r = Inr bs \<and> bs \<noteq> [])")
    case False
    then consider p where "std_search (take cur buf) delim = Some p"
      | "std_search (take cur buf) delim = None" "cur = length buf"
      | e where "std_search (take cur buf) delim = None" "cur < length buf" "r = Inl e"
      | "std_search (take cur buf) delim = None" "cur < length buf" "r = Inr []"
      using 1(3) by (cases "std_search (take cur buf) delim"; cases r) (fastforce simp: le_less)+
    then show ?thesis
    proof cases
      case 2
      then have "\<not> cur < length buf" by simp
      then show ?thesis unfolding unfold using 2(1) first by (simp add: fail_def stop)
    next
      case 3
      then have "rest s' = rest s" using byte_sourceD(3) [OF 1(2)] rs by simp
      then show ?thesis using 3 rs first by (simp add: unfold stop)
    next
      case 4
      then have "rest s' = rest s" using byte_sourceD(2) [OF 1(2)] rs by fastforce
      then show ?thesis using 4 rs first by (simp add: unfold fail_def stop)
    qed (use first in \<open>simp_all add: unfold fail_def stop\<close>)
  next
    case True
    then obtain bs where cur: "std_search (take cur buf) delim = None" "cur < length buf" and bs: "r = Inr bs" "bs \<noteq> []" by blast
    let ?c = "cur + length bs" and ?b = "write_at buf cur bs"
    have le: "?c \<le> length buf" using byte_sourceD(1) [OF 1(2) rs [unfolded bs]] cur by simp
    have "read_until_outcome rest delim ?c ?b s' (read_until_ref rs delim ?c ?b s')"
      by (rule 1(1) [OF cur rs [symmetric] bs 1(2)]) (simp add: write_at_facts(1) [OF le] le)
    moreover have "read_until_ref rs delim cur buf s = read_until_ref rs delim ?c ?b s'"
      using cur rs bs by (simp add: unfold)
    ultimately show ?thesis using read_until_outcome_step [where rest = rest, OF le byte_sourceD(2) [OF 1(2) rs [unfolded bs]]]
      by (cases "read_until_ref rs delim ?c ?b s'") simp
  qed
qed

section \<open>Reading and writing a whole buffer\<close>

lemma async_read_loop_outcome:
  assumes "byte_source rs rest" "off \<le> length buf" "async_read_loop rs off buf s = (r, buf', s')"
  shows "length buf' = length buf \<and>
    (\<exists>got. rest s = got @ rest s' \<and> off + length got \<le> length buf \<and> take (off + length got) buf' = take off buf @ got \<and>
       (case r of Inr n \<Rightarrow> n = length buf \<and> off + length got = length buf | Inl e \<Rightarrow> off + length got < length buf))"
  using assms
proof (induction rs off buf s rule: async_read_loop.induct)
  case (1 rs off buf s)
  note unfold = async_read_loop.simps [of rs off buf s]
  obtain x t where rs: "rs s (length buf - off) = (x, t)" by fastforce
  show ?case
  proof (cases "off < length buf \<and> (\<exists>bs. x = Inr bs \<and> bs \<noteq> [])")
    case False
    then show ?thesis
      using rs 1(3,4) byte_sourceD(2,3) [OF 1(2), of s "length buf - off"]
      by (cases x) (auto simp: unfold fail_def intro!: exI [of _ "[]"] split: if_splits)
  next
    case True
    then obtain bs where off: "off < length buf" and bs: "x = Inr bs" "bs \<noteq> []" by blast
    let ?c = "off + length bs" and ?b = "write_at buf off bs"
    have le: "?c \<le> length buf" using byte_sourceD(1) [OF 1(2) rs [unfolded bs]] off by simp
    note w = write_at_facts [OF le]
    have "async_read_loop rs ?c ?b t = (r, buf', s')" using 1(4) off rs bs by (simp add: unfold)
    from 1(1) [OF off rs [symmetric] bs 1(2) _ this] le
    obtain got where "length buf' = length buf" "rest t = got @ rest s'" "?c + length got \<le> length buf"
      "take (?c + length got) buf' = take ?c ?b @ got"
      "case r of Inr n \<Rightarrow> n = length buf \<and> ?c + length got = length buf | Inl e \<Rightarrow> ?c + length got < length buf"
      unfolding w(1) by blast
    then show ?thesis using byte_sourceD(2) [OF 1(2) rs [unfolded bs]] w
      by (intro conjI exI [of _ "bs @ got"]) (simp_all add: add.assoc split: sum.splits)
  qed
qed

lemma async_write_loop_outcome:
  assumes "byte_sink ws sent" "async_write_loop ws wanted buf s = (r, s')"
  shows "case r of Inr n \<Rightarrow> n = wanted \<and> sent s' = sent s @ buf
       | Inl e \<Rightarrow> \<exists>k. k < length buf \<and> sent s' = sent s @ take k buf"
  using assms
proof (induction ws wanted buf s rule: async_write_loop.induct)
  case (1 ws wanted buf s)
  note unfold = async_write_loop.simps [of ws wanted buf s]
  obtain x t where ws: "ws s buf = (x, t)" by fastforce
  have sink: "case x of Inr n \<Rightarrow> n \<le> length buf \<and> sent t = sent s @ take n buf | Inl e \<Rightarrow> sent t = sent s"
    using 1(2) [unfolded byte_sink_def, rule_format, of s buf] ws by simp
  show ?case
  proof (cases "buf \<noteq> [] \<and> (\<exists>n. x = Inr n \<and> 0 < n)")
    case False
    then show ?thesis using ws 1(3) sink
      by (cases x) (auto simp: unfold fail_def intro!: exI [of _ 0] split: if_splits)
  next
    case True
    then obtain n where n: "buf \<noteq> []" "x = Inr n" "n \<noteq> 0" by blast
    have rec: "async_write_loop ws wanted (drop n buf) t = (r, s')" using 1(3) n ws by (simp add: unfold)
    have sent: "n \<le> length buf" "sent t = sent s @ take n buf" using sink n by simp_all
    have "take n buf @ take k (drop n buf) = take (n + k) buf" for k by (simp add: take_add)
    moreover have "n + k < length buf" if "k < length (drop n buf)" for k using that by simp
    ultimately show ?thesis using 1(1) [OF n(1) ws [symmetric] n(2,3) 1(2) rec] sent
      by (cases r) (auto simp del: length_drop)
  qed
qed

section \<open>Properties\<close>

text \<open>A concrete stream for examples: it delivers its bytes in chunks of at most three.\<close>

definition chunk_read :: "u8 list read_some" where
  "chunk_read s k = (Inr (take (min k 3) s), drop (min k 3) s)"

definition chunk_write :: "u8 list write_some" where
  "chunk_write s bs = (Inr (min 3 (length bs)), s @ take 3 bs)"

lemma chunk_read_source: "byte_source chunk_read (\<lambda>s. s)"
  by (simp add: byte_source_def chunk_read_def min_le_iff_disj)

lemma chunk_write_sink: "byte_sink chunk_write (\<lambda>s. s)"
  by (simp add: byte_sink_def chunk_write_def min_def)

text \<open>
  (C31) Searching only the suffix that a new chunk can affect is right: for every stream,
  delimiter and buffer, \<open>async_read_until\<close> gives the result, the buffer and the stream of the
  algorithm that searches everything from the start after each read; and the overload for a
  single character does what the general one does.
\<close>

theorem read_until_matches_reference:
  assumes "byte_source rs rest" "delim \<noteq> []" "initial_size \<le> length buf"
  shows "async_read_until rs buf delim initial_size s = read_until_ref rs delim initial_size buf s \<and>
    async_read_until_char rs buf c initial_size s = read_until_ref rs [c] initial_size buf s"
  unfolding async_read_until_char_eq [OF assms(3)]
  using async_read_until_ref [OF assms] async_read_until_ref [OF assms(1) _ assms(3), of "[c]"] by blast

theorem read_until_matches_reference_witness:
  "async_read_until chunk_read (replicate 8 0) [13, 10] 0 [1, 2, 13, 10, 5, 6] =
     read_until_ref chunk_read [13, 10] 0 (replicate 8 0) [1, 2, 13, 10, 5, 6] \<and>
   fst (async_read_until chunk_read (replicate 8 0) [13, 10] 0 [1, 2, 13, 10, 5, 6]) = Inr 4"
proof -
  have "fst (async_read_until chunk_read (replicate 8 0) [13, 10] 0 [1, 2, 13, 10, 5, 6]) = Inr 4"
    by code_simp
  then show ?thesis
    using read_until_matches_reference [OF chunk_read_source, of "[13, 10]" 0 "replicate 8 0" "[1, 2, 13, 10, 5, 6]"]
    by simp
qed

text \<open>
  What \<open>async_read_until\<close> returns: the bytes before \<open>initial_size\<close> stay, behind them
  comes exactly what the stream delivered, and a count is returned exactly when that contains
  the delimiter: it is the end of its first occurrence. On an error there is no occurrence, and
  a full buffer gives \<open>message_size\<close>.
\<close>

lemma read_until_finds_first:
  assumes "byte_source rs rest" "delim \<noteq> []" "initial_size \<le> length buf"
  shows "read_until_outcome rest delim initial_size buf s (async_read_until rs buf delim initial_size s)"
  unfolding async_read_until_ref [OF assms] using assms(1,3) by (rule read_until_ref_outcome)

lemma read_until_finds_first_witness:
  "read_until_outcome (\<lambda>s. s) [13, 10] 1 [13, 0, 0, 0] [10, 5]
     (async_read_until chunk_read [13, 0, 0, 0] [13, 10] 1 [10, 5])"
  by (rule read_until_finds_first [OF chunk_read_source]) simp_all

text \<open>
  (C32) \<open>async_read\<close> succeeds only with the whole buffer: it then holds the next bytes of the
  stream, as many as it has room for, and nothing more was taken. An error leaves a part
  of the buffer unfilled, and what was taken from the stream is in the filled part.
\<close>

theorem async_read_fills_buffer:
  assumes "byte_source rs rest" "async_read rs buf s = (r, buf', s')"
  shows "length buf' = length buf \<and>
    (case r of
       Inr n \<Rightarrow> n = length buf \<and> rest s = buf' @ rest s'
     | Inl e \<Rightarrow> \<exists>k < length buf. rest s = take k buf' @ rest s')"
proof -
  obtain got where "length buf' = length buf" "rest s = got @ rest s'" "0 + length got \<le> length buf"
      "take (0 + length got) buf' = take 0 buf @ got"
      "case r of Inr n \<Rightarrow> n = length buf \<and> 0 + length got = length buf | Inl e \<Rightarrow> 0 + length got < length buf"
    using async_read_loop_outcome [OF assms(1), of 0 buf s r buf' s'] assms(2) unfolding async_read_def
    by blast
  then show ?thesis by (cases r) (auto intro: exI [of _ "length got"])
qed

theorem async_read_fills_buffer_witness:
  "\<exists>buf' s'. async_read chunk_read (replicate 5 0) [1, 2, 3, 4, 5, 6] = (Inr 5, buf', s') \<and>
     [1, 2, 3, 4, 5, 6] = buf' @ s'"
proof -
  have e: "async_read chunk_read (replicate 5 0) [1, 2, 3, 4, 5, 6] = (Inr 5, [1, 2, 3, 4, 5], [6])" by code_simp
  from async_read_fills_buffer [OF chunk_read_source e] show ?thesis using e by simp
qed

text \<open>
  (C33) \<open>async_write\<close> succeeds only when the stream took the whole buffer, in order and once;
  on an error it took a proper prefix.
\<close>

theorem async_write_sends_buffer:
  assumes "byte_sink ws sent" "async_write ws buf s = (r, s')"
  shows "case r of
       Inr n \<Rightarrow> n = length buf \<and> sent s' = sent s @ buf
     | Inl e \<Rightarrow> \<exists>k < length buf. sent s' = sent s @ take k buf"
  using async_write_loop_outcome [OF assms(1)] assms(2) unfolding async_write_def by blast

theorem async_write_sends_buffer_witness:
  "\<exists>s'. async_write chunk_write [1, 2, 3, 4, 5] [9] = (Inr 5, s') \<and> s' = [9] @ [1, 2, 3, 4, 5]"
proof -
  have e: "async_write chunk_write [1, 2, 3, 4, 5] [9] = (Inr 5, [9, 1, 2, 3, 4, 5])" by code_simp
  from async_write_sends_buffer [OF chunk_write_sink e] show ?thesis using e by simp
qed

end
