(* ===== verification/Expected.thy ===== *)
theory Expected
  imports Errors
begin

text \<open>
  The fallback for \<open>std::expected\<close> in \<open>expected.hpp\<close>: a variant of a value and an error.
  The overloads for lvalues, const lvalues and rvalues of a member compute the same result
  and are one definition here; what a moved-from object holds is not modelled. The void
  specialisation is the class at the type \<open>unit\<close>, with definitions of its own. A callable is
  a function on a state, so that it shows whether it was called. Reading the wrong
  alternative through a \<open>noexcept\<close> member ends the program: \<open>None\<close>.
\<close>

section \<open>Data\<close>

datatype 'e bad_expected_access = Bad_expected_access (bea_err: 'e)

datatype 'e unexpected = Unexpected (un_error: 'e)

text \<open>\<open>std::variant<T, E>\<close> with its index.\<close>

datatype ('t, 'e) expected = Alt0 't | Alt1 'e

type_synonym 'e expected_void = "(unit, 'e) expected"

section \<open>Operations\<close>

definition ex_value :: "'t \<Rightarrow> ('t, 'e) expected" where
  "ex_value v = Alt0 v"

text \<open>Construction from \<open>unexpected<G>\<close>, where \<open>conv\<close> converts \<open>G\<close> to \<open>E\<close>.\<close>

definition ex_unexpected :: "('g \<Rightarrow> 'e) \<Rightarrow> 'g unexpected \<Rightarrow> ('t, 'e) expected" where
  "ex_unexpected conv u = Alt1 (conv (un_error u))"

definition has_value :: "('t, 'e) expected \<Rightarrow> bool" where
  "has_value x = (case x of Alt0 _ \<Rightarrow> True | Alt1 _ \<Rightarrow> False)"

definition ex_error :: "('t, 'e) expected \<Rightarrow> 'e option" where
  "ex_error x = (case x of Alt0 _ \<Rightarrow> None | Alt1 e \<Rightarrow> Some e)"

definition ex_deref :: "('t, 'e) expected \<Rightarrow> 't option" where
  "ex_deref x = (case x of Alt0 v \<Rightarrow> Some v | Alt1 _ \<Rightarrow> None)"

definition ex_get :: "('t, 'e) expected \<Rightarrow> 'e bad_expected_access + 't" where
  "ex_get x =
     (if \<not> has_value x then Inl (Bad_expected_access (the (ex_error x))) else Inr (the (ex_deref x)))"

definition value_or :: "('t, 'e) expected \<Rightarrow> 't \<Rightarrow> 't" where
  "value_or x d = (if has_value x then the (ex_deref x) else d)"

definition and_then ::
  "('t, 'e) expected \<Rightarrow> ('t \<Rightarrow> 's \<Rightarrow> ('u, 'e) expected \<times> 's) \<Rightarrow> 's \<Rightarrow> ('u, 'e) expected \<times> 's" where
  "and_then x f s =
     (if has_value x then f (the (ex_deref x)) s
      else (ex_unexpected id (Unexpected (the (ex_error x))), s))"

definition ex_transform ::
  "('t, 'e) expected \<Rightarrow> ('t \<Rightarrow> 's \<Rightarrow> 'u \<times> 's) \<Rightarrow> 's \<Rightarrow> ('u, 'e) expected \<times> 's" where
  "ex_transform x f s =
     (if has_value x then (case f (the (ex_deref x)) s of (v, s') \<Rightarrow> (ex_value v, s'))
      else (ex_unexpected id (Unexpected (the (ex_error x))), s))"

definition or_else ::
  "('t, 'e) expected \<Rightarrow> ('e \<Rightarrow> 's \<Rightarrow> ('t, 'g) expected \<times> 's) \<Rightarrow> 's \<Rightarrow> ('t, 'g) expected \<times> 's" where
  "or_else x f s =
     (if has_value x then (ex_value (the (ex_deref x)), s) else f (the (ex_error x)) s)"

text \<open>Comparisons; \<open>eqt\<close> and \<open>eqe\<close> are the \<open>operator==\<close> of values and of errors.\<close>

definition unexpected_eq :: "('e \<Rightarrow> 'e \<Rightarrow> bool) \<Rightarrow> 'e unexpected \<Rightarrow> 'e unexpected \<Rightarrow> bool" where
  "unexpected_eq eqe a b = eqe (un_error a) (un_error b)"

definition expected_eq ::
  "('t \<Rightarrow> 't \<Rightarrow> bool) \<Rightarrow> ('e \<Rightarrow> 'e \<Rightarrow> bool) \<Rightarrow> ('t, 'e) expected \<Rightarrow> ('t, 'e) expected \<Rightarrow> bool" where
  "expected_eq eqt eqe l r =
     (if has_value l \<noteq> has_value r then False
      else if has_value l then eqt (the (ex_deref l)) (the (ex_deref r))
      else eqe (the (ex_error l)) (the (ex_error r)))"

definition expected_eq_value :: "('t \<Rightarrow> 't \<Rightarrow> bool) \<Rightarrow> ('t, 'e) expected \<Rightarrow> 't \<Rightarrow> bool" where
  "expected_eq_value eqt x v = (has_value x \<and> eqt (the (ex_deref x)) v)"

definition expected_eq_unexpected :: "('e \<Rightarrow> 'g \<Rightarrow> bool) \<Rightarrow> ('t, 'e) expected \<Rightarrow> 'g unexpected \<Rightarrow> bool" where
  "expected_eq_unexpected eqe x u = (\<not> has_value x \<and> eqe (the (ex_error x)) (un_error u))"

section \<open>The void specialisation\<close>

definition void_ok :: "'e expected_void" where
  "void_ok = Alt0 ()"

definition void_get :: "'e expected_void \<Rightarrow> 'e bad_expected_access + unit" where
  "void_get x = (if \<not> has_value x then Inl (Bad_expected_access (the (ex_error x))) else Inr ())"

definition void_and_then ::
  "'e expected_void \<Rightarrow> ('s \<Rightarrow> ('u, 'e) expected \<times> 's) \<Rightarrow> 's \<Rightarrow> ('u, 'e) expected \<times> 's" where
  "void_and_then x f s =
     (if has_value x then f s else (ex_unexpected id (Unexpected (the (ex_error x))), s))"

definition void_transform ::
  "'e expected_void \<Rightarrow> ('s \<Rightarrow> 'u \<times> 's) \<Rightarrow> 's \<Rightarrow> ('u, 'e) expected \<times> 's" where
  "void_transform x f s =
     (if has_value x then (case f s of (v, s') \<Rightarrow> (ex_value v, s'))
      else (ex_unexpected id (Unexpected (the (ex_error x))), s))"

definition void_or_else ::
  "'e expected_void \<Rightarrow> ('e \<Rightarrow> 's \<Rightarrow> 'g expected_void \<times> 's) \<Rightarrow> 's \<Rightarrow> 'g expected_void \<times> 's" where
  "void_or_else x f s = (if has_value x then (void_ok, s) else f (the (ex_error x)) s)"

section \<open>The sum type of the other theories\<close>

text \<open>
  \<open>result<T>\<close> is \<open>expected<T, std::error_code>\<close>; the other theories write it as a sum with
  the error on the left. \<open>sum_bind\<close> is its bind.
\<close>

definition to_sum :: "('t, 'e) expected \<Rightarrow> 'e + 't" where
  "to_sum x = (case x of Alt0 v \<Rightarrow> Inr v | Alt1 e \<Rightarrow> Inl e)"

definition sum_bind :: "'e + 't \<Rightarrow> ('t \<Rightarrow> 's \<Rightarrow> ('e + 'u) \<times> 's) \<Rightarrow> 's \<Rightarrow> ('e + 'u) \<times> 's" where
  "sum_bind x f s = (case x of Inr v \<Rightarrow> f v s | Inl e \<Rightarrow> (Inl e, s))"

lemmas expected_defs = ex_value_def ex_unexpected_def has_value_def ex_error_def ex_deref_def ex_get_def
  value_or_def and_then_def ex_transform_def or_else_def unexpected_eq_def expected_eq_def
  expected_eq_value_def expected_eq_unexpected_def void_ok_def void_get_def void_and_then_def
  void_transform_def void_or_else_def to_sum_def

lemma to_sum_iff: "to_sum x = Inr v \<longleftrightarrow> x = Alt0 v" "to_sum x = Inl e \<longleftrightarrow> x = Alt1 e"
  by (cases x; simp add: to_sum_def)+

lemma and_then_assoc:
  "(case and_then x f s of (y, s') \<Rightarrow> and_then y g s') = and_then x (\<lambda>v s. case f v s of (y, s') \<Rightarrow> and_then y g s') s"
  by (cases x) (simp_all add: expected_defs)

text \<open>
  Chaining with \<open>and_then\<close> is the bind of a monad that runs the steps in order and
  stops at the first error: it refines the bind of the sum type, it is associative, a value
  is its unit on both sides, \<open>transform\<close> is the map of that monad, \<open>or_else\<close> runs only on an
  error and recovers it, and the void specialisation is the class at the unit type.
\<close>

lemma expected_is_error_monad:
  "map_prod to_sum id (and_then x f s) = sum_bind (to_sum x) (\<lambda>v s. map_prod to_sum id (f v s)) s \<and>
   (case and_then x f s of (y, s') \<Rightarrow> and_then y g s') =
     and_then x (\<lambda>v s. case f v s of (y, s') \<Rightarrow> and_then y g s') s \<and>
   and_then (ex_value v) f s = f v s \<and> and_then x (\<lambda>v s. (ex_value v, s)) s = (x, s) \<and>
   ex_transform x h s = and_then x (\<lambda>v s. case h v s of (u, s') \<Rightarrow> (ex_value u, s')) s \<and>
   (has_value x \<longleftrightarrow> ex_error x = None) \<and>
   or_else x k s = (case ex_error x of None \<Rightarrow> (ex_value (the (ex_deref x)), s) | Some e \<Rightarrow> k e s) \<and>
   void_and_then y (f' ()) = and_then y f' \<and> void_or_else y k' = or_else y k' \<and> void_get y = ex_get y"
  using and_then_assoc [where x = x and f = f and s = s and g = g]
  by (cases x; cases y) (auto simp: expected_defs sum_bind_def fun_eq_iff id_def map_prod_def split: prod.splits)

text \<open>
  Comparing results by the library's operators is an equivalence whenever comparing
  values and errors is, it never relates a value to an error, and the comparisons with a
  bare value and with an \<open>unexpected\<close> agree with it.
\<close>

lemma expected_equality_agrees:
  assumes "equivp eqt" "equivp eqe"
  shows "equivp (expected_eq eqt eqe) \<and>
    expected_eq_value eqt x v = expected_eq eqt eqe x (ex_value v) \<and>
    expected_eq_unexpected eqe x (Unexpected e) = expected_eq eqt eqe x (ex_unexpected id (Unexpected e)) \<and>
    (expected_eq eqt eqe x y \<longrightarrow> has_value x = has_value y)"
proof -
  have t: "eqt a a" "eqe b b" for a b using assms by (simp_all add: equivp_reflp)
  have "reflp (expected_eq eqt eqe)"
    by (rule reflpI) (simp add: expected_defs t split: expected.split)
  moreover have "symp (expected_eq eqt eqe)"
  proof (rule sympI)
    fix a b assume "expected_eq eqt eqe a b"
    then show "expected_eq eqt eqe b a"
      by (cases a; cases b; simp add: expected_defs) (blast intro: equivp_symp [OF assms(1)] equivp_symp [OF assms(2)])+
  qed
  moreover have "transp (expected_eq eqt eqe)"
  proof (rule transpI)
    fix a b c assume "expected_eq eqt eqe a b" "expected_eq eqt eqe b c"
    then show "expected_eq eqt eqe a c"
      by (cases a; cases b; cases c; simp add: expected_defs) (blast intro: equivp_transp [OF assms(1)] equivp_transp [OF assms(2)])+
  qed
  ultimately show ?thesis by (cases x; cases y) (auto simp: expected_defs intro: equivpI)
qed

end
