(* ===== verification/Buffers.thy ===== *)
theory Buffers
  imports Prelude
begin

text \<open>
  \<open>net/buffer.hpp\<close>: buffers as an address with a size in bytes, both 64-bit words, their
  arithmetic, and the \<open>buffer(...)\<close> helpers over spans and containers. A container of
  \<open>n\<close> elements is the address of its first element, \<open>n\<close>, and the size of an element.
  Memory is a function from addresses to bytes.
\<close>

section \<open>Data\<close>

record const_buffer =
  cb_data :: u64
  cb_size :: u64

record mutable_buffer =
  mb_data :: u64
  mb_size :: u64

text \<open>\<open>std::span<T>\<close>: address, number of elements; \<open>sp_elem\<close> is \<open>sizeof(T)\<close>.\<close>

record span =
  sp_data :: u64
  sp_count :: u64
  sp_elem :: u64

section \<open>Operations\<close>

definition const_buffer_init :: const_buffer where
  "const_buffer_init = \<lparr>cb_data = 0, cb_size = 0\<rparr>"

definition mutable_buffer_init :: mutable_buffer where
  "mutable_buffer_init = \<lparr>mb_data = 0, mb_size = 0\<rparr>"

definition cb_empty :: "const_buffer \<Rightarrow> bool" where
  "cb_empty b \<longleftrightarrow> cb_size b = 0"

definition mb_empty :: "mutable_buffer \<Rightarrow> bool" where
  "mb_empty b \<longleftrightarrow> mb_size b = 0"

definition cb_advance :: "const_buffer \<Rightarrow> u64 \<Rightarrow> const_buffer" where
  "cb_advance b n = (let n = (if n > cb_size b then cb_size b else n)
     in b\<lparr>cb_data := cb_data b + n, cb_size := cb_size b - n\<rparr>)"

definition mb_advance :: "mutable_buffer \<Rightarrow> u64 \<Rightarrow> mutable_buffer" where
  "mb_advance b n = (let n = (if n > mb_size b then mb_size b else n)
     in b\<lparr>mb_data := mb_data b + n, mb_size := mb_size b - n\<rparr>)"

definition cb_as_span :: "const_buffer \<Rightarrow> span" where
  "cb_as_span b = \<lparr>sp_data = cb_data b, sp_count = cb_size b, sp_elem = 1\<rparr>"

definition mb_as_span :: "mutable_buffer \<Rightarrow> span" where
  "mb_as_span b = \<lparr>sp_data = mb_data b, sp_count = mb_size b, sp_elem = 1\<rparr>"

definition cb_of_mutable :: "mutable_buffer \<Rightarrow> const_buffer" where
  "cb_of_mutable b = (let sp = mb_as_span b in \<lparr>cb_data = sp_data sp, cb_size = sp_count sp\<rparr>)"

text \<open>\<open>buffer(b, max_size_in_bytes)\<close>.\<close>

definition cb_limit :: "const_buffer \<Rightarrow> u64 \<Rightarrow> const_buffer" where
  "cb_limit b m = (if m < cb_size b then \<lparr>cb_data = sp_data (cb_as_span b), cb_size = m\<rparr> else b)"

definition mb_limit :: "mutable_buffer \<Rightarrow> u64 \<Rightarrow> mutable_buffer" where
  "mb_limit b m = (if m < mb_size b then \<lparr>mb_data = sp_data (mb_as_span b), mb_size = m\<rparr> else b)"

text \<open>\<open>std::as_bytes\<close> and \<open>std::as_writable_bytes\<close>.\<close>

definition as_bytes :: "span \<Rightarrow> span" where
  "as_bytes s = \<lparr>sp_data = sp_data s, sp_count = sp_count s * sp_elem s, sp_elem = 1\<rparr>"

definition cb_of_bytes :: "span \<Rightarrow> const_buffer" where
  "cb_of_bytes s = \<lparr>cb_data = sp_data s, cb_size = sp_count s\<rparr>"

definition mb_of_bytes :: "span \<Rightarrow> mutable_buffer" where
  "mb_of_bytes s = \<lparr>mb_data = sp_data s, mb_size = sp_count s\<rparr>"

definition cb_of_span :: "span \<Rightarrow> const_buffer" where
  "cb_of_span s = cb_of_bytes (as_bytes s)"

definition mb_of_span :: "span \<Rightarrow> mutable_buffer" where
  "mb_of_span s = mb_of_bytes (as_bytes s)"

text \<open>
  C arrays, \<open>std::array\<close>, \<open>std::vector\<close> and strings: a span over their elements, and with
  a limit the limited buffer of that.
\<close>

definition container_span :: "u64 \<Rightarrow> u64 \<Rightarrow> u64 \<Rightarrow> span" where
  "container_span p n e = \<lparr>sp_data = p, sp_count = n, sp_elem = e\<rparr>"

definition array_buffer :: "u64 \<Rightarrow> u64 \<Rightarrow> u64 \<Rightarrow> mutable_buffer" where
  "array_buffer p n e = mb_of_span (container_span p n e)"

definition array_const_buffer :: "u64 \<Rightarrow> u64 \<Rightarrow> u64 \<Rightarrow> const_buffer" where
  "array_const_buffer p n e = cb_of_span (container_span p n e)"

definition vector_buffer :: "u64 \<Rightarrow> u64 \<Rightarrow> u64 \<Rightarrow> mutable_buffer" where
  "vector_buffer p n e = mb_of_span (container_span p n e)"

definition vector_buffer_limited :: "u64 \<Rightarrow> u64 \<Rightarrow> u64 \<Rightarrow> u64 \<Rightarrow> mutable_buffer" where
  "vector_buffer_limited p n e m = mb_limit (vector_buffer p n e) m"

definition string_buffer :: "u64 \<Rightarrow> u64 \<Rightarrow> u64 \<Rightarrow> mutable_buffer" where
  "string_buffer p n e = mb_of_bytes (as_bytes (container_span p n e))"

definition string_const_buffer :: "u64 \<Rightarrow> u64 \<Rightarrow> u64 \<Rightarrow> const_buffer" where
  "string_const_buffer p n e = cb_of_bytes (as_bytes (container_span p n e))"

definition string_view_buffer :: "u64 \<Rightarrow> u64 \<Rightarrow> u64 \<Rightarrow> const_buffer" where
  "string_view_buffer p n e = cb_of_bytes (as_bytes (container_span p n e))"

definition cb_plus :: "const_buffer \<Rightarrow> u64 \<Rightarrow> const_buffer" where
  "cb_plus b n = cb_advance b n"

definition mb_plus :: "mutable_buffer \<Rightarrow> u64 \<Rightarrow> mutable_buffer" where
  "mb_plus b n = mb_advance b n"

definition cb_buffer_size :: "const_buffer \<Rightarrow> u64" where
  "cb_buffer_size b = cb_size b"

definition mb_buffer_size :: "mutable_buffer \<Rightarrow> u64" where
  "mb_buffer_size b = mb_size b"

definition cb_buffer_cast :: "const_buffer \<Rightarrow> u64" where
  "cb_buffer_cast b = cb_data b"

definition mb_buffer_cast :: "mutable_buffer \<Rightarrow> u64" where
  "mb_buffer_cast b = mb_data b"

definition mb_of_pointer :: "u64 \<Rightarrow> u64 \<Rightarrow> mutable_buffer" where
  "mb_of_pointer p n = \<lparr>mb_data = p, mb_size = n\<rparr>"

definition cb_of_pointer :: "u64 \<Rightarrow> u64 \<Rightarrow> const_buffer" where
  "cb_of_pointer p n = \<lparr>cb_data = p, cb_size = n\<rparr>"

definition array_buffer_limited :: "u64 \<Rightarrow> u64 \<Rightarrow> u64 \<Rightarrow> u64 \<Rightarrow> mutable_buffer" where
  "array_buffer_limited p n e m = mb_limit (array_buffer p n e) m"

definition array_const_buffer_limited :: "u64 \<Rightarrow> u64 \<Rightarrow> u64 \<Rightarrow> u64 \<Rightarrow> const_buffer" where
  "array_const_buffer_limited p n e m = cb_limit (array_const_buffer p n e) m"

definition std_array_buffer :: "u64 \<Rightarrow> u64 \<Rightarrow> u64 \<Rightarrow> mutable_buffer" where
  "std_array_buffer p n e = mb_of_span (container_span p n e)"

definition std_array_const_buffer :: "u64 \<Rightarrow> u64 \<Rightarrow> u64 \<Rightarrow> const_buffer" where
  "std_array_const_buffer p n e = cb_of_span (container_span p n e)"

definition std_array_buffer_limited :: "u64 \<Rightarrow> u64 \<Rightarrow> u64 \<Rightarrow> u64 \<Rightarrow> mutable_buffer" where
  "std_array_buffer_limited p n e m = mb_limit (std_array_buffer p n e) m"

definition std_array_const_buffer_limited :: "u64 \<Rightarrow> u64 \<Rightarrow> u64 \<Rightarrow> u64 \<Rightarrow> const_buffer" where
  "std_array_const_buffer_limited p n e m = cb_limit (std_array_const_buffer p n e) m"

definition vector_const_buffer :: "u64 \<Rightarrow> u64 \<Rightarrow> u64 \<Rightarrow> const_buffer" where
  "vector_const_buffer p n e = cb_of_span (container_span p n e)"

definition vector_const_buffer_limited :: "u64 \<Rightarrow> u64 \<Rightarrow> u64 \<Rightarrow> u64 \<Rightarrow> const_buffer" where
  "vector_const_buffer_limited p n e m = cb_limit (vector_const_buffer p n e) m"

definition string_buffer_limited :: "u64 \<Rightarrow> u64 \<Rightarrow> u64 \<Rightarrow> u64 \<Rightarrow> mutable_buffer" where
  "string_buffer_limited p n e m = mb_limit (string_buffer p n e) m"

definition string_const_buffer_limited :: "u64 \<Rightarrow> u64 \<Rightarrow> u64 \<Rightarrow> u64 \<Rightarrow> const_buffer" where
  "string_const_buffer_limited p n e m = cb_limit (string_const_buffer p n e) m"

section \<open>The bytes of a buffer\<close>

text \<open>The addresses a buffer covers, in order; \<open>in_memory\<close>: its range does not wrap.\<close>

definition cb_addrs :: "const_buffer \<Rightarrow> nat list" where
  "cb_addrs b = [unat (cb_data b) ..< unat (cb_data b) + unat (cb_size b)]"

definition cb_in_memory :: "const_buffer \<Rightarrow> bool" where
  "cb_in_memory b \<longleftrightarrow> unat (cb_data b) + unat (cb_size b) < 2 ^ 64"

text \<open>
  Every overload over a container of \<open>n\<close> elements of \<open>e\<close> bytes is one of two views, the limited
  ones over its first \<open>m\<close> bytes at most; the mutable and the constant overload agree.
\<close>

definition whole_view :: "u64 \<Rightarrow> u64 \<Rightarrow> u64 \<Rightarrow> const_buffer" where
  "whole_view p n e = \<lparr>cb_data = p, cb_size = n * e\<rparr>"

definition limited_view :: "u64 \<Rightarrow> u64 \<Rightarrow> u64 \<Rightarrow> u64 \<Rightarrow> const_buffer" where
  "limited_view p n e m = \<lparr>cb_data = p, cb_size = min m (n * e)\<rparr>"

lemmas buffer_overload_defs = mb_of_span_def cb_of_span_def mb_of_bytes_def cb_of_bytes_def as_bytes_def container_span_def
  mb_limit_def cb_limit_def mb_as_span_def cb_as_span_def cb_of_mutable_def Let_def

lemma container_views:
  "cb_of_mutable (array_buffer p n e) = whole_view p n e" "array_const_buffer p n e = whole_view p n e"
  "cb_of_mutable (std_array_buffer p n e) = whole_view p n e" "std_array_const_buffer p n e = whole_view p n e"
  "cb_of_mutable (vector_buffer p n e) = whole_view p n e" "vector_const_buffer p n e = whole_view p n e"
  "cb_of_mutable (string_buffer p n e) = whole_view p n e" "string_const_buffer p n e = whole_view p n e"
  "string_view_buffer p n e = whole_view p n e"
  by (simp_all add: array_buffer_def array_const_buffer_def std_array_buffer_def std_array_const_buffer_def vector_buffer_def
      vector_const_buffer_def string_buffer_def string_const_buffer_def string_view_buffer_def whole_view_def buffer_overload_defs)

lemma cb_limit_whole: "cb_limit (whole_view p n e) m = limited_view p n e m"
  by (auto simp: whole_view_def limited_view_def cb_limit_def cb_as_span_def min_def)

lemma cb_of_mb_limit: "cb_of_mutable (mb_limit b m) = cb_limit (cb_of_mutable b) m"
  by (simp add: mb_limit_def cb_limit_def cb_of_mutable_def mb_as_span_def cb_as_span_def)

lemma container_views_limited:
  "cb_of_mutable (array_buffer_limited p n e m) = limited_view p n e m" "array_const_buffer_limited p n e m = limited_view p n e m"
  "cb_of_mutable (std_array_buffer_limited p n e m) = limited_view p n e m" "std_array_const_buffer_limited p n e m = limited_view p n e m"
  "cb_of_mutable (vector_buffer_limited p n e m) = limited_view p n e m" "vector_const_buffer_limited p n e m = limited_view p n e m"
  "cb_of_mutable (string_buffer_limited p n e m) = limited_view p n e m" "string_const_buffer_limited p n e m = limited_view p n e m"
  by (simp_all add: array_buffer_limited_def array_const_buffer_limited_def std_array_buffer_limited_def std_array_const_buffer_limited_def
      vector_buffer_limited_def vector_const_buffer_limited_def string_buffer_limited_def string_const_buffer_limited_def
      cb_of_mb_limit container_views cb_limit_whole)

lemma cb_of_mutable_facts:
  "cb_of_mutable (mb_advance b n) = cb_advance (cb_of_mutable b) n"
  "cb_of_mutable (mb_limit b n) = cb_limit (cb_of_mutable b) n"
  "cb_of_mutable (mb_of_span s) = cb_of_span s"
  by (simp_all add: cb_of_mutable_def mb_advance_def cb_advance_def mb_limit_def cb_limit_def mb_as_span_def
      cb_as_span_def mb_of_span_def cb_of_span_def mb_of_bytes_def cb_of_bytes_def Let_def)

lemma unat_add_small: "unat (a :: u64) + unat b < 2 ^ 64 \<Longrightarrow> unat (a + b) = unat a + unat b"
  by (simp add: unat_word_ariths)

lemma cb_advance_unat:
  assumes "cb_in_memory b"
  shows "unat (cb_size (cb_advance b n)) = unat (cb_size b) - unat n"
    "unat (cb_data (cb_advance b n)) = unat (cb_data b) + min (unat n) (unat (cb_size b))"
proof -
  let ?n = "if n > cb_size b then cb_size b else n"
  have n: "unat ?n = min (unat n) (unat (cb_size b))" by (simp add: word_less_nat_alt min_def)
  have "?n \<le> cb_size b" by (simp add: not_less)
  then have "unat (cb_size b - ?n) = unat (cb_size b) - unat ?n" by (rule unat_sub)
  then show "unat (cb_size (cb_advance b n)) = unat (cb_size b) - unat n"
    unfolding n by (simp add: cb_advance_def Let_def)
  have "unat (cb_data b + ?n) = unat (cb_data b) + unat ?n"
    using assms n by (intro unat_add_small) (simp add: cb_in_memory_def)
  then show "unat (cb_data (cb_advance b n)) = unat (cb_data b) + min (unat n) (unat (cb_size b))"
    unfolding n by (simp add: cb_advance_def Let_def)
qed

lemma cb_advance_addrs: "cb_in_memory b \<Longrightarrow> cb_addrs (cb_advance b n) = drop (unat n) (cb_addrs b)"
  by (simp add: cb_addrs_def cb_advance_unat min_def)

lemma cb_advance_in_memory: "cb_in_memory b \<Longrightarrow> cb_in_memory (cb_advance b n)"
  by (simp add: cb_in_memory_def [of "cb_advance b n"] cb_advance_unat) (simp add: cb_in_memory_def)

lemma cb_limit_addrs: "cb_addrs (cb_limit b m) = take (unat m) (cb_addrs b)"
  by (auto simp: cb_addrs_def cb_limit_def cb_as_span_def word_less_nat_alt)

lemma cb_limit_in_memory: "cb_in_memory b \<Longrightarrow> cb_in_memory (cb_limit b m)"
  by (auto simp: cb_in_memory_def cb_limit_def cb_as_span_def word_less_nat_alt)

lemma span_addrs:
  assumes "unat p + unat n * unat e < 2 ^ 64"
  shows "cb_addrs (cb_of_span (container_span p n e)) = [unat p ..< unat p + unat n * unat e]"
    "cb_in_memory (cb_of_span (container_span p n e))"
proof -
  have "unat (n * e) = unat n * unat e" using assms by (simp add: unat_word_ariths)
  then show "cb_addrs (cb_of_span (container_span p n e)) = [unat p ..< unat p + unat n * unat e]"
    "cb_in_memory (cb_of_span (container_span p n e))"
    using assms by (simp_all add: cb_addrs_def cb_in_memory_def cb_of_span_def cb_of_bytes_def as_bytes_def container_span_def)
qed

section \<open>Properties\<close>

text \<open>
  Buffers never reach outside the object they were made from. The buffer of a
  container covers exactly its bytes; advancing by any number of bytes drops that many
  from its front and a limit keeps as many at most, so every buffer derived from it, in any
  order, covers a contiguous part of the container; and a writable buffer covers the same
  bytes as its read-only copy.
\<close>

lemma buffers_stay_in_container:
  assumes "unat p + unat n * unat e < 2 ^ 64"
  defines "b \<equiv> vector_buffer p n e" and "bytes \<equiv> [unat p ..< unat p + unat n * unat e]"
  shows "cb_addrs (cb_of_mutable b) = bytes \<and>
    cb_addrs (cb_of_mutable (mb_advance b i)) = drop (unat i) bytes \<and>
    cb_addrs (cb_of_mutable (mb_limit b m)) = take (unat m) bytes \<and>
    cb_addrs (cb_of_mutable (mb_limit (mb_advance (mb_advance b i) j) m)) =
      take (unat m) (drop (unat i + unat j) bytes) \<and>
    cb_addrs (cb_advance (array_const_buffer p n e) i) = drop (unat i) bytes \<and>
    cb_addrs (string_view_buffer p n e) = bytes"
proof -
  note s = span_addrs [OF assms(1)]
  have "string_view_buffer p n e = cb_of_span (container_span p n e)"
    "array_const_buffer p n e = cb_of_span (container_span p n e)" "b = mb_of_span (container_span p n e)"
    by (simp_all add: string_view_buffer_def cb_of_span_def array_const_buffer_def b_def vector_buffer_def)
  then show ?thesis
    using s by (simp add: cb_of_mutable_facts cb_advance_addrs cb_limit_addrs cb_advance_in_memory bytes_def add.commute
        del: drop_upt take_upt)
qed

lemma buffers_stay_in_container_witness:
  "cb_addrs (cb_of_mutable (mb_limit (mb_advance (mb_advance (vector_buffer 1000 5 4) 8) 4) 6)) =
     [1012, 1013, 1014, 1015, 1016, 1017]"
proof -
  have "cb_addrs (cb_of_mutable (mb_limit (mb_advance (mb_advance (vector_buffer 1000 5 4) 8) 4) 6)) =
      take (unat (6 :: u64)) (drop (unat (8 :: u64) + unat (4 :: u64))
        [unat (1000 :: u64) ..< unat (1000 :: u64) + unat (5 :: u64) * unat (4 :: u64)])"
    using buffers_stay_in_container [of 1000 5 4] by simp
  then show ?thesis by (simp add: upt_conv_Cons)
qed

end
