(* ===== verification/UringBackend.thy ===== *)
theory UringBackend
  imports EpollBackend
begin

unbundle bit_operations_syntax

text \<open>
  \<open>impl/backends/uring.ipp\<close>: the backend over io_uring. Every descriptor has one one-shot
  poll request, which is requested again after each completion. \<open>add_fd\<close> and \<open>remove_fd\<close>
  record what is to be submitted; the reactor thread submits it when it waits.

  The submission ring is the list of entries prepared but not yet submitted and the list
  of those handed to the kernel. What \<open>io_uring_submit\<close> answers at its \<open>n\<close>-th call is
  \<open>sub n\<close>, a negative value being the error number; the completions of a wait are an
  argument. The ring has 256 entries, the size asked for in the constructor.
\<close>

section \<open>Packing\<close>

definition tag_poll :: u64 where "tag_poll = 0"
definition tag_wakeup :: u64 where "tag_wakeup = 1"
definition tag_remove :: u64 where "tag_remove = 2"

definition pack_fd :: "int \<Rightarrow> u64 \<Rightarrow> u32 \<Rightarrow> u64" where
  "pack_fd fd tag gen =
     push_bit 34 (ucast gen) OR push_bit 2 (ucast (word_of_int fd :: u32)) OR (tag AND 3)"

definition unpack_tag :: "u64 \<Rightarrow> u64" where
  "unpack_tag data = data AND 3"

definition ur_unpack_fd :: "u64 \<Rightarrow> int" where
  "ur_unpack_fd data = sint (ucast (drop_bit 2 data AND 0xFFFFFFFF) :: u32)"

definition ur_unpack_gen :: "u64 \<Rightarrow> u32" where
  "ur_unpack_gen data = ucast (drop_bit 34 data)"

text \<open>Seconds and nanoseconds; the division of C++ truncates, and so does this for \<open>0 \<le> ms\<close>.\<close>

definition to_timespec :: "int \<Rightarrow> int \<times> int" where
  "to_timespec ms = (let clamped = min ms (2 ^ 31 - 1) in (clamped div 1000, clamped mod 1000 * 1000 * 1000))"

section \<open>The ring\<close>

datatype sqe = Poll_add int int u64 | Poll_remove u64 u64

record ring =
  rg_sq :: "sqe list"
  rg_kernel :: "sqe list"
  rg_calls :: nat

definition sq_entries :: nat where
  "sq_entries = 256"

definition get_sqe :: "ring \<Rightarrow> bool" where
  "get_sqe r \<longleftrightarrow> length (rg_sq r) < sq_entries"

definition ring_submit :: "(nat \<Rightarrow> int) \<Rightarrow> ring \<Rightarrow> int \<times> ring" where
  "ring_submit sub r =
     (let ans = sub (rg_calls r); r1 = r\<lparr>rg_calls := rg_calls r + 1\<rparr>
      in (ans, if ans < 0 then r1 else r1\<lparr>rg_kernel := rg_kernel r @ rg_sq r, rg_sq := []\<rparr>))"

definition ring_push :: "sqe \<Rightarrow> ring \<Rightarrow> ring" where
  "ring_push e r = r\<lparr>rg_sq := rg_sq r @ [e]\<rparr>"

abbreviation (input) ENOBUFS :: int where "ENOBUFS \<equiv> 105"
abbreviation (input) ECANCELED :: int where "ECANCELED \<equiv> 125"
abbreviation (input) ETIME :: int where "ETIME \<equiv> 62"

definition submit_poll_add_entry :: "(nat \<Rightarrow> int) \<Rightarrow> int \<Rightarrow> int \<Rightarrow> u64 \<Rightarrow> ring \<Rightarrow> unit result \<times> ring" where
  "submit_poll_add_entry sub fd msk ud r =
     (let finish = (\<lambda>r. let (ans, r') = ring_submit sub (ring_push (Poll_add fd msk ud) r)
                        in (if ans < 0 then Inl (generic_error (- ans)) else Inr (), r'))
      in if get_sqe r then finish r
         else (let (ans, r1) = ring_submit sub r
               in if ans < 0 then (Inl (generic_error (- ans)), r1)
                  else if get_sqe r1 then finish r1
                  else (Inl (generic_error ENOBUFS), r1)))"

definition submit_poll_remove :: "(nat \<Rightarrow> int) \<Rightarrow> int \<Rightarrow> u64 \<Rightarrow> ring \<Rightarrow> ring" where
  "submit_poll_remove sub fd ud r =
     (let r1 = (if get_sqe r then r else snd (ring_submit sub r))
      in if get_sqe r1 then snd (ring_submit sub (ring_push (Poll_remove ud (pack_fd fd tag_remove 0)) r1))
         else r1)"

section \<open>Descriptors\<close>

record uring_poll_state =
  up_armed :: bool
  up_cancel_requested :: bool
  up_active_gen :: u32
  up_active_user_data :: u64
  up_active_mask :: int
  up_desired_mask :: int
  up_next_gen :: u32

definition poll_state_init :: uring_poll_state where
  "poll_state_init = \<lparr>up_armed = False, up_cancel_requested = False, up_active_gen = 0, up_active_user_data = 0,
     up_active_mask = 0, up_desired_mask = 0, up_next_gen = 1\<rparr>"

record pending_add =
  pa_fd :: int
  pa_mask :: int
  pa_user_data :: u64

record pending_remove =
  pr_fd :: int
  pr_user_data :: u64

record uring_backend =
  ub_ring :: ring
  ub_eventfd :: int
  ub_polls :: "int \<rightharpoonup> uring_poll_state"
  ub_adds :: "pending_add list"
  ub_removes :: "pending_remove list"
  ub_wakeup :: phase

definition arm_wakeup :: "(nat \<Rightarrow> int) \<Rightarrow> uring_backend \<Rightarrow> unit result \<times> uring_backend" where
  "arm_wakeup sub b =
     (let (res, r) = submit_poll_add_entry sub (ub_eventfd b) 25 (pack_fd 0 tag_wakeup 0) (ub_ring b)
      in (res, b\<lparr>ub_ring := r\<rparr>))"

text \<open>The constructor, given the answers of \<open>io_uring_queue_init\<close> and \<open>eventfd\<close>.\<close>

definition uring_init :: "(nat \<Rightarrow> int) \<Rightarrow> int \<Rightarrow> int + int \<Rightarrow> uring_backend result" where
  "uring_init sub ret event =
     (if ret < 0 then Inl (generic_error (- ret))
      else case event of
             Inl errno \<Rightarrow> Inl (generic_error errno)
           | Inr eventfd \<Rightarrow>
               (let (res, b) = arm_wakeup sub \<lparr>ub_ring = \<lparr>rg_sq = [], rg_kernel = [], rg_calls = 0\<rparr>,
                      ub_eventfd = eventfd, ub_polls = Map.empty, ub_adds = [], ub_removes = [], ub_wakeup = Running\<rparr>
                in case res of Inl e \<Rightarrow> Inl e | Inr _ \<Rightarrow> Inr b))"

definition uring_wakeup :: "bool \<Rightarrow> uring_backend \<Rightarrow> uring_backend \<times> bool" where
  "uring_wakeup write_ok b =
     (if ub_eventfd b < 0 then (b, False)
      else let (won, p) = notify (ub_wakeup b)
           in if \<not> won then (b\<lparr>ub_wakeup := p\<rparr>, False)
              else if write_ok then (b\<lparr>ub_wakeup := p\<rparr>, True)
              else (b\<lparr>ub_wakeup := notify_failed p\<rparr>, False))"

definition poll_mask :: int where
  "poll_mask = 8221"

text \<open>Requesting the poll of a descriptor, in \<open>add_fd\<close> and after a completion.\<close>

definition arm_poll :: "int \<Rightarrow> int \<Rightarrow> uring_poll_state \<Rightarrow> uring_poll_state" where
  "arm_poll fd msk st = st\<lparr>up_armed := True, up_cancel_requested := False, up_active_mask := msk,
     up_active_gen := up_next_gen st, up_next_gen := up_next_gen st + 1,
     up_active_user_data := pack_fd fd tag_poll (up_next_gen st)\<rparr>"

definition to_pending_add :: "int \<Rightarrow> uring_poll_state \<Rightarrow> pending_add" where
  "to_pending_add fd st = \<lparr>pa_fd = fd, pa_mask = up_active_mask st, pa_user_data = up_active_user_data st\<rparr>"

definition uring_add_fd :: "bool \<Rightarrow> int \<Rightarrow> uring_backend \<Rightarrow> uring_backend" where
  "uring_add_fd write_ok fd b =
     (let st0 = (case ub_polls b fd of Some st \<Rightarrow> st | None \<Rightarrow> poll_state_init);
          st = st0\<lparr>up_desired_mask := poll_mask\<rparr>
      in if up_armed st then
           (if up_active_mask st = poll_mask then b\<lparr>ub_polls := (ub_polls b)(fd \<mapsto> st)\<rparr>
            else if \<not> up_cancel_requested st then
              fst (uring_wakeup write_ok (b\<lparr>ub_polls := (ub_polls b)(fd \<mapsto> st\<lparr>up_cancel_requested := True\<rparr>),
                ub_removes := ub_removes b @ [\<lparr>pr_fd = fd, pr_user_data = up_active_user_data st\<rparr>]\<rparr>))
            else fst (uring_wakeup write_ok (b\<lparr>ub_polls := (ub_polls b)(fd \<mapsto> st)\<rparr>)))
         else (let st' = arm_poll fd poll_mask st
               in fst (uring_wakeup write_ok (b\<lparr>ub_polls := (ub_polls b)(fd \<mapsto> st'),
                    ub_adds := ub_adds b @ [to_pending_add fd st']\<rparr>))))"

definition uring_remove_fd :: "bool \<Rightarrow> int \<Rightarrow> uring_backend \<Rightarrow> uring_backend" where
  "uring_remove_fd write_ok fd b =
     (case ub_polls b fd of
        None \<Rightarrow> b
      | Some st0 \<Rightarrow>
          (let st = st0\<lparr>up_desired_mask := 0\<rparr>
           in if \<not> up_armed st then b\<lparr>ub_polls := (ub_polls b)(fd := None)\<rparr>
              else if \<not> up_cancel_requested st then
                fst (uring_wakeup write_ok (b\<lparr>ub_polls := (ub_polls b)(fd \<mapsto> st\<lparr>up_cancel_requested := True\<rparr>),
                  ub_removes := ub_removes b @ [\<lparr>pr_fd = fd, pr_user_data = up_active_user_data st\<rparr>]\<rparr>))
              else fst (uring_wakeup write_ok (b\<lparr>ub_polls := (ub_polls b)(fd \<mapsto> st)\<rparr>))))"

section \<open>Waiting\<close>

fun submit_removes :: "(nat \<Rightarrow> int) \<Rightarrow> pending_remove list \<Rightarrow> ring \<Rightarrow> ring" where
  "submit_removes sub [] r = r"
| "submit_removes sub (p # ps) r = submit_removes sub ps (submit_poll_remove sub (pr_fd p) (pr_user_data p) r)"

fun submit_adds :: "(nat \<Rightarrow> int) \<Rightarrow> pending_add list \<Rightarrow> ring \<Rightarrow> unit result \<times> ring" where
  "submit_adds sub [] r = (Inr (), r)"
| "submit_adds sub (p # ps) r =
     (case submit_poll_add_entry sub (pa_fd p) (pa_mask p) (pa_user_data p) r of
        (Inl e, r') \<Rightarrow> (Inl e, r')
      | (Inr _, r') \<Rightarrow> submit_adds sub ps r')"

definition flush_pending_updates :: "(nat \<Rightarrow> int) \<Rightarrow> uring_backend \<Rightarrow> unit result \<times> uring_backend" where
  "flush_pending_updates sub b =
     (let r1 = submit_removes sub (ub_removes b) (ub_ring b);
          (res, r2) = submit_adds sub (ub_adds b) r1
      in (res, b\<lparr>ub_adds := [], ub_removes := [], ub_ring := r2\<rparr>))"

record cqe =
  cq_data :: u64
  cq_res :: int

definition cqe_event :: "int \<Rightarrow> int \<Rightarrow> backend_event" where
  "cqe_event fd res =
     (let ev = (if res \<ge> 0 then word_of_int res else 0 :: u32);
          has_error = (ev AND 8 \<noteq> 0);
          has_hup = (ev AND (16 OR 0x2000) \<noteq> 0);
          has_read = (ev AND 1 \<noteq> 0);
          has_write = (ev AND 4 \<noteq> 0);
          is_error = (res < 0 \<or> has_error)
      in \<lparr>be_fd = fd, be_can_read = (is_error \<or> has_hup \<or> has_read), be_can_write = (is_error \<or> has_hup \<or> has_write),
          be_is_error = is_error,
          be_ec = (if is_error then (if res < 0 then generic_error (- res) else make_error_code connection_reset)
                   else no_error)\<rparr>)"

text \<open>The critical section of \<open>handle_cqe\<close>: whether the generation matched, and what to arm.\<close>

definition poll_completed ::
  "int \<Rightarrow> u32 \<Rightarrow> uring_backend \<Rightarrow> bool \<times> pending_add list \<times> uring_backend" where
  "poll_completed fd gen b =
     (case ub_polls b fd of
        None \<Rightarrow> (False, [], b)
      | Some st0 \<Rightarrow>
          (let matched = (up_armed st0 \<and> up_active_gen st0 = gen);
               st1 = (if matched then st0\<lparr>up_armed := False, up_cancel_requested := False,
                        up_active_user_data := 0, up_active_gen := 0, up_active_mask := 0\<rparr> else st0);
               rearm = (\<not> up_armed st1 \<and> up_desired_mask st1 \<noteq> 0);
               st2 = (if rearm then arm_poll fd (up_desired_mask st1) st1 else st1);
               arms = (if rearm then [to_pending_add fd st2] else [])
           in (matched, arms,
               b\<lparr>ub_polls := (ub_polls b)(fd := (if \<not> up_armed st2 \<and> up_desired_mask st2 = 0 then None else Some st2))\<rparr>)))"

definition handle_cqe ::
  "(nat \<Rightarrow> int) \<Rightarrow> cqe \<Rightarrow> backend_event list \<times> pending_add list \<times> uring_backend \<Rightarrow>
     unit result \<times> backend_event list \<times> pending_add list \<times> uring_backend" where
  "handle_cqe sub c x =
     (let (out, local_arms, b) = x; tag = unpack_tag (cq_data c)
      in if tag = tag_wakeup then
           (let (res, b') = arm_wakeup sub (b\<lparr>ub_wakeup := consume_notification (ub_wakeup b)\<rparr>)
            in (res, out, local_arms, b'))
         else if tag = tag_remove then (Inr (), out, local_arms, b)
         else
           (let fd = ur_unpack_fd (cq_data c);
                (matched, arms, b') = poll_completed fd (ur_unpack_gen (cq_data c)) b
            in (Inr (),
                if \<not> matched \<or> cq_res c = - ECANCELED then out else out @ [cqe_event fd (cq_res c)],
                local_arms @ arms, b')))"

fun handle_cqes ::
  "(nat \<Rightarrow> int) \<Rightarrow> cqe list \<Rightarrow> backend_event list \<times> pending_add list \<times> uring_backend \<Rightarrow>
     unit result \<times> backend_event list \<times> pending_add list \<times> uring_backend" where
  "handle_cqes sub [] x = (Inr (), x)"
| "handle_cqes sub (c # cs) x =
     (case handle_cqe sub c x of (Inl e, x') \<Rightarrow> (Inl e, x') | (Inr _, x') \<Rightarrow> handle_cqes sub cs x')"

text \<open>
  \<open>wait\<close> after the first flush: the answer of \<open>io_uring_wait_cqe\<close> with the completions
  found, first one and batch. \<open>finish_wait\<close> runs on every way out.
\<close>

definition uring_finish :: "uring_backend \<Rightarrow> uring_backend" where
  "uring_finish b = b\<lparr>ub_wakeup := finish_wait (ub_wakeup b)\<rparr>"

definition uring_collect ::
  "(nat \<Rightarrow> int) \<Rightarrow> int + cqe list \<Rightarrow> uring_backend \<Rightarrow> unit result \<times> backend_event list \<times> uring_backend" where
  "uring_collect sub k b =
     (case k of
        Inl ret \<Rightarrow> (if ret = - EINTR \<or> ret = - EAGAIN \<or> ret = - ETIME then Inr () else Inl (generic_error (- ret)), [], b)
      | Inr cs \<Rightarrow>
          (case handle_cqes sub cs ([], [], b) of
             (Inl e, out, arms, b1) \<Rightarrow> (Inl e, out, b1)
           | (Inr _, out, arms, b1) \<Rightarrow>
               (case submit_adds sub arms (ub_ring b1) of
                  (Inl e, r) \<Rightarrow> (Inl e, out, b1\<lparr>ub_ring := r\<rparr>)
                | (Inr _, r) \<Rightarrow> (case flush_pending_updates sub (b1\<lparr>ub_ring := r\<rparr>) of (res, b2) \<Rightarrow> (res, out, b2)))))"

definition uring_wait ::
  "(nat \<Rightarrow> int) \<Rightarrow> int + cqe list \<Rightarrow> uring_backend \<Rightarrow> unit result \<times> backend_event list \<times> uring_backend" where
  "uring_wait sub k b =
     (case flush_pending_updates sub b of
        (Inl e, b1) \<Rightarrow> (Inl e, [], uring_finish b1)
      | (Inr _, b1) \<Rightarrow> (case uring_collect sub k b1 of (res, out, b2) \<Rightarrow> (res, out, uring_finish b2)))"

definition uring_prepare_wait :: "uring_backend \<Rightarrow> uring_backend" where
  "uring_prepare_wait b = b\<lparr>ub_wakeup := begin_wait (ub_wakeup b)\<rparr>"

section \<open>Round trips\<close>

lemma unpack_tag_pack: "unpack_tag (pack_fd fd tag gen) = tag AND 3"
proof -
  have m: "(3 :: u64) = mask 2" by (simp add: mask_eq_exp_minus_1)
  show ?thesis unfolding unpack_tag_def pack_fd_def m
    by (intro bit_word_eqI) (auto simp: bit_simps)
qed

lemma unpack_word_pack_fd:
  "(ucast (drop_bit 2 (pack_fd fd tag gen) AND 0xFFFFFFFF) :: u32) = word_of_int fd"
proof -
  have m: "(0xFFFFFFFF :: u64) = mask 32" "(3 :: u64) = mask 2" by (simp_all add: mask_eq_exp_minus_1)
  show ?thesis unfolding pack_fd_def m
    by (intro bit_word_eqI) (auto simp: bit_simps)
qed

lemma ur_unpack_fd_pack: "- (2 ^ 31) \<le> fd \<Longrightarrow> fd < 2 ^ 31 \<Longrightarrow> ur_unpack_fd (pack_fd fd tag gen) = fd"
  by (simp add: ur_unpack_fd_def unpack_word_pack_fd sint_word_of_int_range)

lemma ur_unpack_gen_pack: "ur_unpack_gen (pack_fd fd tag gen) = take_bit 30 gen"
proof -
  have m: "(3 :: u64) = mask 2" by (simp add: mask_eq_exp_minus_1)
  show ?thesis unfolding ur_unpack_gen_def pack_fd_def m
    by (intro bit_word_eqI) (auto simp: bit_simps)
qed

lemma take_bit_30_id: "take_bit 30 gen = gen \<longleftrightarrow> unat (gen :: u32) < 2 ^ 30"
  by (metis take_bit_nat_eq_self_iff unsigned_take_bit_eq word_unat_eq_iff)

section \<open>Invariant\<close>

text \<open>
  Outside its critical sections every descriptor in the map has its one poll requested,
  under the user data of its current generation, and a descriptor nobody is interested in
  has its cancellation requested.
\<close>

definition poll_ok :: "int \<Rightarrow> uring_poll_state \<Rightarrow> bool" where
  "poll_ok fd st \<longleftrightarrow> up_armed st \<and> up_active_user_data st = pack_fd fd tag_poll (up_active_gen st) \<and>
     up_active_mask st = poll_mask \<and> (up_desired_mask st = poll_mask \<or> up_desired_mask st = 0 \<and> up_cancel_requested st) \<and>
     up_next_gen st = up_active_gen st + 1"

definition ub_inv :: "uring_backend \<Rightarrow> bool" where
  "ub_inv b \<longleftrightarrow> (\<forall>fd st. ub_polls b fd = Some st \<longrightarrow> poll_ok fd st)"

lemma ub_invD: "ub_inv b \<Longrightarrow> ub_polls b fd = Some st \<Longrightarrow> poll_ok fd st"
  by (simp add: ub_inv_def)

lemma uring_wakeup_frame [simp]:
  "ub_polls (fst (uring_wakeup w b)) = ub_polls b" "ub_adds (fst (uring_wakeup w b)) = ub_adds b"
  "ub_removes (fst (uring_wakeup w b)) = ub_removes b" "ub_ring (fst (uring_wakeup w b)) = ub_ring b"
  by (simp_all add: uring_wakeup_def split: prod.splits)

lemma poll_mask_nonzero [simp]: "poll_mask \<noteq> 0"
  by (simp add: poll_mask_def)

lemma ub_inv_update: "ub_inv b \<Longrightarrow> (\<And>st. x = Some st \<Longrightarrow> poll_ok fd st) \<Longrightarrow>
    ub_polls b' = (ub_polls b)(fd := x) \<Longrightarrow> ub_inv b'"
  by (simp add: ub_inv_def)

lemma ub_inv_add: "ub_inv b \<Longrightarrow> ub_inv (uring_add_fd w fd b)"
  by (cases "ub_polls b fd")
     (auto simp: uring_add_fd_def Let_def arm_poll_def poll_state_init_def ub_inv_def poll_ok_def split: if_splits)

lemma ub_inv_remove: "ub_inv b \<Longrightarrow> ub_inv (uring_remove_fd w fd b)"
  by (cases "ub_polls b fd") (auto simp: uring_remove_fd_def Let_def ub_inv_def poll_ok_def split: if_splits)

definition disarmed :: "uring_poll_state \<Rightarrow> uring_poll_state" where
  "disarmed st = st\<lparr>up_armed := False, up_cancel_requested := False, up_active_user_data := 0,
     up_active_gen := 0, up_active_mask := 0\<rparr>"

lemma poll_completed_cases:
  assumes "ub_polls b fd = Some st" "poll_ok fd st"
  shows "gen \<noteq> up_active_gen st \<Longrightarrow> poll_completed fd gen b = (False, [], b)"
    "gen = up_active_gen st \<Longrightarrow> up_desired_mask st = 0 \<Longrightarrow>
       poll_completed fd gen b = (True, [], b\<lparr>ub_polls := (ub_polls b)(fd := None)\<rparr>)"
    "gen = up_active_gen st \<Longrightarrow> up_desired_mask st = poll_mask \<Longrightarrow>
       poll_completed fd gen b = (True, [to_pending_add fd (arm_poll fd poll_mask (disarmed st))],
         b\<lparr>ub_polls := (ub_polls b)(fd \<mapsto> arm_poll fd poll_mask (disarmed st))\<rparr>)"
  using assms
  by (auto simp: poll_completed_def poll_ok_def disarmed_def arm_poll_def Let_def fun_upd_idem)

lemma poll_ok_rearmed: "poll_ok fd st \<Longrightarrow> up_desired_mask st = poll_mask \<Longrightarrow> poll_ok fd (arm_poll fd poll_mask (disarmed st))"
  by (simp add: poll_ok_def arm_poll_def disarmed_def)

lemma ub_inv_completed:
  assumes inv: "ub_inv b" and c: "poll_completed fd gen b = (m, arms, b')" shows "ub_inv b'"
proof (cases "ub_polls b fd")
  case None
  then show ?thesis using assms by (simp add: poll_completed_def)
next
  case (Some st)
  have ok: "poll_ok fd st" using inv Some by (rule ub_invD)
  note pc = poll_completed_cases [OF Some ok, of gen, unfolded c prod.inject]
  consider "gen \<noteq> up_active_gen st" | "gen = up_active_gen st" "up_desired_mask st = 0"
    | "gen = up_active_gen st" "up_desired_mask st = poll_mask"
    using ok unfolding poll_ok_def by blast
  then show ?thesis
  proof cases
    case 1
    have "b' = b" using pc(1) [OF 1] by blast
    show ?thesis unfolding \<open>b' = b\<close> by (rule inv)
  next
    case 2
    have e: "b' = b\<lparr>ub_polls := (ub_polls b)(fd := None)\<rparr>" using pc(2) [OF 2] by blast
    show ?thesis unfolding e using inv by (rule ub_inv_update [of b None fd]) simp_all
  next
    case 3
    have e: "b' = b\<lparr>ub_polls := (ub_polls b)(fd \<mapsto> arm_poll fd poll_mask (disarmed st))\<rparr>" using pc(3) [OF 3] by blast
    show ?thesis unfolding e using inv
      by (rule ub_inv_update [of b "Some (arm_poll fd poll_mask (disarmed st))" fd])
         (use poll_ok_rearmed [OF ok 3(2)] in simp_all)
  qed
qed

lemma arm_wakeup_polls: "arm_wakeup sub b = (res, b') \<Longrightarrow> ub_polls b' = ub_polls b"
  by (auto simp: arm_wakeup_def split: prod.splits)

lemma ub_inv_cong: "ub_polls b' = ub_polls b \<Longrightarrow> ub_inv b' = ub_inv b"
  by (simp add: ub_inv_def)

lemma ub_inv_handle_cqe:
  assumes "ub_inv b" "handle_cqe sub c (out, arms, b) = (res, out', arms', b')"
  shows "ub_inv b'"
proof -
  have "ub_inv b1" if "arm_wakeup sub (b\<lparr>ub_wakeup := p\<rparr>) = (res, b1)" for p b1
    using arm_wakeup_polls [OF that] assms(1) by (simp add: ub_inv_def)
  then show ?thesis using assms ub_inv_completed [OF assms(1)]
    by (auto simp: handle_cqe_def Let_def split: prod.splits if_splits)
qed

lemma ub_inv_handle_cqes: "ub_inv b \<Longrightarrow> handle_cqes sub cs (out, arms, b) = (res, out', arms', b') \<Longrightarrow> ub_inv b'"
proof (induction cs arbitrary: b out arms)
  case (Cons c cs)
  obtain r o1 a1 b1 where h: "handle_cqe sub c (out, arms, b) = (r, o1, a1, b1)" by (cases "handle_cqe sub c (out, arms, b)") auto
  have "ub_inv b1" using Cons.prems(1) h by (rule ub_inv_handle_cqe)
  then show ?case using Cons.prems(2) Cons.IH h by (cases r) auto
qed simp

lemma flush_polls: "flush_pending_updates sub b = (res, b') \<Longrightarrow> ub_polls b' = ub_polls b"
  by (auto simp: flush_pending_updates_def Let_def split: prod.splits)

lemma ub_inv_wait:
  assumes "ub_inv b" "uring_wait sub k b = (res, out, b')" shows "ub_inv b'"
proof -
  obtain r1 b1 where f: "flush_pending_updates sub b = (r1, b1)" by fastforce
  have 1: "ub_inv b1" using assms(1) flush_polls [OF f] by (simp add: ub_inv_def)
  obtain r2 o2 b2 where c: "uring_collect sub k b1 = (r2, o2, b2)" by (cases "uring_collect sub k b1") auto
  have "ub_inv b2"
  proof (cases k)
    case (Inr cs)
    obtain r3 o3 a3 b3 where h: "handle_cqes sub cs ([], [], b1) = (r3, o3, a3, b3)"
      by (cases "handle_cqes sub cs ([], [], b1)") auto
    have 3: "ub_inv b3" using 1 h by (rule ub_inv_handle_cqes)
    have "ub_polls b2 = ub_polls b3"
      using c h Inr flush_polls [of sub "b3\<lparr>ub_ring := _\<rparr>"]
      by (auto simp: uring_collect_def split: sum.splits prod.splits)
    then show ?thesis using 3 by (simp add: ub_inv_def)
  qed (use c 1 in \<open>auto simp: uring_collect_def\<close>)
  moreover have "b' = uring_finish b1 \<or> b' = uring_finish b2"
    using assms(2) f c by (cases r1) (auto simp: uring_wait_def)
  ultimately show ?thesis using 1 by (auto simp: uring_finish_def ub_inv_def)
qed

section \<open>Properties\<close>

text \<open>A poll completion of a descriptor goes through the critical section.\<close>

lemma handle_cqe_poll:
  assumes fd: "- (2 ^ 31) \<le> fd" "fd < 2 ^ 31"
  shows "handle_cqe sub \<lparr>cq_data = pack_fd fd tag_poll gen, cq_res = res\<rparr> (out, arms, b) =
    (let (matched, more, b') = poll_completed fd (take_bit 30 gen) b
     in (Inr (), if \<not> matched \<or> res = - ECANCELED then out else out @ [cqe_event fd res], arms @ more, b'))"
  using ur_unpack_fd_pack [OF fd, of tag_poll gen]
  by (simp add: handle_cqe_def unpack_tag_pack ur_unpack_gen_pack tag_poll_def tag_wakeup_def tag_remove_def
      split: prod.splits)

text \<open>
  (C25) The completion of a descriptor's poll is reported once and the poll is requested
  again: one event is added, the poll is armed under the next generation and handed over
  for submission, and a second completion of the old request is ignored. When the descriptor
  was removed in the meantime, it is forgotten instead. Generations below \<open>2 ^ 30\<close>.
\<close>

theorem uring_completion_rearms:
  assumes inv: "ub_inv b" and st: "ub_polls b fd = Some st" and gen: "unat (up_active_gen st) < 2 ^ 30"
    and fd: "- (2 ^ 31) \<le> fd" "fd < 2 ^ 31" and res: "res \<noteq> - ECANCELED"
  defines "c \<equiv> \<lparr>cq_data = up_active_user_data st, cq_res = res\<rparr>"
  shows "\<exists>more b'. handle_cqe sub c (out, arms, b) = (Inr (), out @ [cqe_event fd res], arms @ more, b') \<and>
     ub_inv b' \<and> handle_cqe sub c (out', arms', b') = (Inr (), out', arms', b') \<and>
     (if up_desired_mask st = 0 then more = [] \<and> ub_polls b' fd = None
      else \<exists>st'. ub_polls b' fd = Some st' \<and> up_active_gen st' = up_active_gen st + 1 \<and>
        more = [\<lparr>pa_fd = fd, pa_mask = poll_mask, pa_user_data = up_active_user_data st'\<rparr>])"
proof -
  have ok: "poll_ok fd st" using inv st by (rule ub_invD)
  have c: "c = \<lparr>cq_data = pack_fd fd tag_poll (up_active_gen st), cq_res = res\<rparr>" using ok by (simp add: c_def poll_ok_def)
  have g: "take_bit 30 (up_active_gen st) = up_active_gen st" using gen by (simp add: take_bit_30_id)
  note h = handle_cqe_poll [OF fd, of sub "up_active_gen st" res, folded c, unfolded g]
  show ?thesis
  proof (cases "up_desired_mask st = 0")
    case True
    let ?b = "b\<lparr>ub_polls := (ub_polls b)(fd := None)\<rparr>"
    have pc: "poll_completed fd (up_active_gen st) b = (True, [], ?b)"
      using poll_completed_cases(2) [OF st ok refl True] .
    moreover have "poll_completed fd (up_active_gen st) ?b = (False, [], ?b)" by (simp add: poll_completed_def)
    ultimately show ?thesis using h [of out arms b] h [of out' arms' ?b] res True ub_inv_completed [OF inv pc] by auto
  next
    case False
    let ?st = "arm_poll fd poll_mask (disarmed st)"
    let ?b = "b\<lparr>ub_polls := (ub_polls b)(fd \<mapsto> ?st)\<rparr>"
    have m: "up_desired_mask st = poll_mask" using ok False by (auto simp: poll_ok_def)
    have gen': "up_active_gen ?st = up_active_gen st + 1" using ok by (simp add: poll_ok_def arm_poll_def disarmed_def)
    have pc: "poll_completed fd (up_active_gen st) b = (True, [to_pending_add fd ?st], ?b)"
      using poll_completed_cases(3) [OF st ok refl m] .
    have "poll_completed fd (up_active_gen st) ?b = (False, [], ?b)"
      by (rule poll_completed_cases(1) [of _ _ ?st]) (use poll_ok_rearmed [OF ok m] gen' in simp_all)
    then have "handle_cqe sub c (out', arms', ?b) = (Inr (), out', arms', ?b)" using h [of out' arms' ?b] by simp
    moreover have "handle_cqe sub c (out, arms, b) = (Inr (), out @ [cqe_event fd res], arms @ [to_pending_add fd ?st], ?b)"
      using h [of out arms b] pc res by simp
    moreover have "to_pending_add fd ?st = \<lparr>pa_fd = fd, pa_mask = poll_mask, pa_user_data = up_active_user_data ?st\<rparr>"
      by (simp add: to_pending_add_def arm_poll_def)
    ultimately show ?thesis using ub_inv_completed [OF inv pc] gen' False
      by (intro exI [of _ "[to_pending_add fd ?st]"] exI [of _ ?b]) simp
  qed
qed

definition uring_ex :: uring_backend where
  "uring_ex = \<lparr>ub_ring = \<lparr>rg_sq = [], rg_kernel = [], rg_calls = 0\<rparr>, ub_eventfd = 3, ub_polls = Map.empty,
     ub_adds = [], ub_removes = [], ub_wakeup = Running\<rparr>"

lemma uring_ex_inv: "ub_inv uring_ex"
  by (simp add: ub_inv_def uring_ex_def)

theorem uring_completion_rearms_witness:
  "\<exists>st more b'. ub_polls (uring_add_fd True 7 uring_ex) 7 = Some st \<and>
     handle_cqe (\<lambda>_. 1) \<lparr>cq_data = up_active_user_data st, cq_res = 1\<rparr> ([], [], uring_add_fd True 7 uring_ex) =
       (Inr (), [cqe_event 7 1], more, b')"
proof -
  obtain st where st: "ub_polls (uring_add_fd True 7 uring_ex) 7 = Some st" "up_active_gen st = 1"
    by (simp add: uring_add_fd_def uring_ex_def poll_state_init_def arm_poll_def Let_def)
  from uring_completion_rearms [OF ub_inv_add [OF uring_ex_inv] st(1), of 1 "\<lambda>_. 1" "[]" "[]" "[]" "[]"] st
  show ?thesis by auto
qed

text \<open>
  The user data of a poll keeps the descriptor and the tag, but only the low 30 bits of
  the generation. From generation \<open>2 ^ 30\<close> on, the completion of a descriptor's current
  poll is taken for a stale one: no event is reported and the poll is not requested again.
\<close>

lemma uring_generation_truncated:
  assumes fd: "- (2 ^ 31) \<le> fd" "fd < 2 ^ 31" and tag: "tag \<in> {tag_poll, tag_wakeup, tag_remove}"
    and inv: "ub_inv b" and st: "ub_polls b fd = Some st" and gen: "2 ^ 30 \<le> unat (up_active_gen st)"
  shows "ur_unpack_fd (pack_fd fd tag g) = fd \<and> unpack_tag (pack_fd fd tag g) = tag \<and>
    (ur_unpack_gen (pack_fd fd tag g) = g \<longleftrightarrow> unat g < 2 ^ 30) \<and>
    handle_cqe sub \<lparr>cq_data = up_active_user_data st, cq_res = res\<rparr> (out, arms, b) = (Inr (), out, arms, b)"
proof -
  have ok: "poll_ok fd st" using inv st by (rule ub_invD)
  have "take_bit 30 (up_active_gen st) \<noteq> up_active_gen st" using gen by (simp add: take_bit_30_id)
  note pc = poll_completed_cases(1) [OF st ok this]
  have "up_active_user_data st = pack_fd fd tag_poll (up_active_gen st)" using ok by (simp add: poll_ok_def)
  then have "handle_cqe sub \<lparr>cq_data = up_active_user_data st, cq_res = res\<rparr> (out, arms, b) = (Inr (), out, arms, b)"
    using pc by (simp add: handle_cqe_poll [OF fd])
  then show ?thesis using tag
    by (auto simp: ur_unpack_fd_pack [OF fd] ur_unpack_gen_pack take_bit_30_id unpack_tag_pack
        tag_poll_def tag_wakeup_def tag_remove_def)
qed

definition uring_old :: uring_backend where
  "uring_old = uring_ex\<lparr>ub_polls := [7 \<mapsto> \<lparr>up_armed = True, up_cancel_requested = False, up_active_gen = 2 ^ 30,
     up_active_user_data = pack_fd 7 tag_poll (2 ^ 30), up_active_mask = poll_mask, up_desired_mask = poll_mask,
     up_next_gen = 2 ^ 30 + 1\<rparr>]\<rparr>"

lemma uring_generation_truncated_witness:
  "handle_cqe (\<lambda>_. 1) \<lparr>cq_data = pack_fd 7 tag_poll (2 ^ 30), cq_res = 1\<rparr> ([], [], uring_old) = (Inr (), [], [], uring_old)"
proof -
  obtain st where st: "ub_polls uring_old 7 = Some st" "up_active_gen st = 2 ^ 30"
    "up_active_user_data st = pack_fd 7 tag_poll (2 ^ 30)"
    by (simp add: uring_old_def)
  have "ub_inv uring_old" by (simp add: ub_inv_def uring_old_def poll_ok_def)
  from uring_generation_truncated [of 7 tag_poll, OF _ _ _ this st(1), of 0 "\<lambda>_. 1" 1 "[]" "[]"] st
  show ?thesis by simp
qed

text \<open>Polls the kernel still works on after a sequence of submissions, by user data.\<close>

fun outstanding :: "sqe list \<Rightarrow> u64 list \<Rightarrow> u64 list" where
  "outstanding [] us = us"
| "outstanding (Poll_add fd msk ud # es) us = outstanding es (us @ [ud])"
| "outstanding (Poll_remove target ud # es) us = outstanding es (remove1 target us)"

lemma flush_remove_add:
  assumes "rg_sq (ub_ring b) = []" "\<And>n. 0 \<le> sub n"
    and "ub_removes b = [r]" "ub_adds b = [a]"
  shows "fst (flush_pending_updates sub b) = Inr () \<and>
    rg_kernel (ub_ring (snd (flush_pending_updates sub b))) = rg_kernel (ub_ring b) @
      [Poll_remove (pr_user_data r) (pack_fd (pr_fd r) tag_remove 0), Poll_add (pa_fd a) (pa_mask a) (pa_user_data a)] \<and>
    ub_polls (snd (flush_pending_updates sub b)) = ub_polls b \<and>
    ub_adds (snd (flush_pending_updates sub b)) = [] \<and> ub_removes (snd (flush_pending_updates sub b)) = []"
proof -
  have "\<not> sub n < 0" for n using assms(2) [of n] by simp
  then show ?thesis using assms(1,3,4)
    by (simp add: flush_pending_updates_def submit_poll_remove_def submit_poll_add_entry_def ring_submit_def ring_push_def
        get_sqe_def sq_entries_def Let_def)
qed

text \<open>
  A descriptor that is added and removed before the reactor thread submits is polled
  nevertheless: removals are submitted before additions, so the kernel is asked to cancel a
  poll it does not have yet and then given that poll. The descriptor stays armed, and
  adding its number again, for another file, requests no poll.
\<close>

lemma uring_add_remove_reordered:
  fixes w :: bool and sub :: "nat \<Rightarrow> int"
  assumes "ub_polls b fd = None" "ub_adds b = []" "ub_removes b = []" "rg_sq (ub_ring b) = []" "\<And>n. 0 \<le> sub n"
    and "ub_inv b" "outstanding (rg_kernel (ub_ring b)) [] = us" "pack_fd fd tag_poll 1 \<notin> set us"
  defines "b2 \<equiv> snd (flush_pending_updates sub (uring_remove_fd w fd (uring_add_fd w fd b)))"
  shows "outstanding (rg_kernel (ub_ring b2)) [] = us @ [pack_fd fd tag_poll 1] \<and>
    ub_adds (uring_add_fd w fd b2) = [] \<and> ub_removes (uring_add_fd w fd b2) = []"
proof -
  have app: "outstanding (xs @ ys) vs = outstanding ys (outstanding xs vs)" for xs ys vs
    by (induction xs vs rule: outstanding.induct) simp_all
  let ?b1 = "uring_remove_fd w fd (uring_add_fd w fd b)"
  define st where "st = (arm_poll fd poll_mask (poll_state_init\<lparr>up_desired_mask := poll_mask\<rparr>))
    \<lparr>up_desired_mask := 0, up_cancel_requested := True\<rparr>"
  have st: "ub_polls ?b1 fd = Some st" "up_active_mask st = poll_mask" "up_armed st"
    using assms(1) by (simp_all add: uring_add_fd_def uring_remove_fd_def st_def arm_poll_def poll_state_init_def Let_def)
  have "ub_removes ?b1 = [\<lparr>pr_fd = fd, pr_user_data = pack_fd fd tag_poll 1\<rparr>]"
    "ub_adds ?b1 = [\<lparr>pa_fd = fd, pa_mask = poll_mask, pa_user_data = pack_fd fd tag_poll 1\<rparr>]"
    "ub_ring ?b1 = ub_ring b"
    using assms(1-3) by (simp_all add: uring_add_fd_def uring_remove_fd_def arm_poll_def poll_state_init_def to_pending_add_def Let_def)
  then have k: "rg_kernel (ub_ring b2) = rg_kernel (ub_ring b) @ [Poll_remove (pack_fd fd tag_poll 1) (pack_fd fd tag_remove 0),
      Poll_add fd poll_mask (pack_fd fd tag_poll 1)]" "ub_polls b2 fd = Some st" "ub_adds b2 = []" "ub_removes b2 = []"
    using flush_remove_add [of ?b1 sub] assms(4,5) st(1) unfolding b2_def by simp_all
  show ?thesis using k st(2,3) assms(7,8) by (simp add: app uring_add_fd_def Let_def remove1_idem)
qed

lemma uring_add_remove_reordered_witness:
  "outstanding (rg_kernel (ub_ring (snd (flush_pending_updates (\<lambda>_. 1)
     (uring_remove_fd True 7 (uring_add_fd True 7 uring_ex)))))) [] = [pack_fd 7 tag_poll 1]"
proof -
  have "outstanding (rg_kernel (ub_ring (snd (flush_pending_updates (\<lambda>_. 1)
     (uring_remove_fd True 7 (uring_add_fd True 7 uring_ex)))))) [] = [] @ [pack_fd 7 tag_poll 1]"
    by (rule conjunct1 [OF uring_add_remove_reordered]) (simp_all add: uring_ex_def uring_ex_inv [unfolded uring_ex_def])
  then show ?thesis by simp
qed

end
