(* ===== verification/SocketBase.thy ===== *)
theory SocketBase
  imports Errors Prelude
begin

text \<open>
  \<open>detail/socket/fd_resource.hpp\<close>, \<open>detail/socket/socket_impl_base.hpp\<close> and
  \<open>impl/socket/socket_impl_base.ipp\<close>: the shared ownership of a descriptor, waiting for
  readiness, cancelling, closing and releasing, with any number of threads.

  Resources are objects of a heap, alive until nobody holds them; \<open>sk_current\<close> is the
  atomic pointer \<open>res_\<close>. Every wait of a coroutine is a little machine whose steps are
  what happens between its suspension points and around the mutexes; the other members
  that change more than one thing are the tasks of threads. Taking a handle out of the
  resource and calling its \<open>cancel\<close> is one step: the call only adds to \<open>sk_cancelled\<close>, the
  handles whose operations the reactor has been told to abort. The reactor itself is
  modelled elsewhere: here a registered operation completes at any time with any result,
  and registering on a descriptor aborts the operation it replaces.
\<close>

section \<open>The resource\<close>

record fd_resource =
  rs_fd :: int
  rs_closing :: bool
  rs_inflight :: nat
  rs_read_epoch :: u64
  rs_write_epoch :: u64
  rs_read_handle :: "nat option"
  rs_write_handle :: "nat option"

definition fd_resource_init :: "int \<Rightarrow> fd_resource" where
  "fd_resource_init fd = \<lparr>rs_fd = fd, rs_closing = False, rs_inflight = 0, rs_read_epoch = 0, rs_write_epoch = 0,
     rs_read_handle = None, rs_write_handle = None\<rparr>"

definition rs_mark_closing :: "fd_resource \<Rightarrow> fd_resource" where
  "rs_mark_closing R = R\<lparr>rs_closing := True\<rparr>"

definition release_fd :: "fd_resource \<Rightarrow> int \<times> fd_resource" where
  "release_fd R = (rs_fd R, R\<lparr>rs_fd := -1\<rparr>)"

definition add_inflight :: "fd_resource \<Rightarrow> fd_resource" where
  "add_inflight R = R\<lparr>rs_inflight := rs_inflight R + 1\<rparr>"

definition remove_inflight :: "fd_resource \<Rightarrow> fd_resource" where
  "remove_inflight R = R\<lparr>rs_inflight := rs_inflight R - 1\<rparr>"

definition rs_cancel_epoch :: "bool \<Rightarrow> fd_resource \<Rightarrow> u64" where
  "rs_cancel_epoch is_read R = (if is_read then rs_read_epoch R else rs_write_epoch R)"

definition rs_handle :: "bool \<Rightarrow> fd_resource \<Rightarrow> nat option" where
  "rs_handle is_read R = (if is_read then rs_read_handle R else rs_write_handle R)"

text \<open>The handle to cancel, when it is not accepted, and the resource.\<close>

definition set_read_handle :: "nat \<Rightarrow> u64 \<Rightarrow> fd_resource \<Rightarrow> nat option \<times> fd_resource" where
  "set_read_handle h expected_cancel_epoch R =
     (if \<not> rs_closing R \<and> rs_fd R \<ge> 0 \<and> rs_read_epoch R = expected_cancel_epoch
      then (None, R\<lparr>rs_read_handle := Some h\<rparr>) else (Some h, R))"

definition set_write_handle :: "nat \<Rightarrow> u64 \<Rightarrow> fd_resource \<Rightarrow> nat option \<times> fd_resource" where
  "set_write_handle h expected_cancel_epoch R =
     (if \<not> rs_closing R \<and> rs_fd R \<ge> 0 \<and> rs_write_epoch R = expected_cancel_epoch
      then (None, R\<lparr>rs_write_handle := Some h\<rparr>) else (Some h, R))"

definition set_handle :: "bool \<Rightarrow> nat \<Rightarrow> u64 \<Rightarrow> fd_resource \<Rightarrow> nat option \<times> fd_resource" where
  "set_handle is_read h e R = (if is_read then set_read_handle h e R else set_write_handle h e R)"

text \<open>\<open>cancel_read_handle\<close> and \<open>cancel_write_handle\<close>: the epoch first, then the handle.\<close>

definition bump_cancel_epoch :: "bool \<Rightarrow> fd_resource \<Rightarrow> fd_resource" where
  "bump_cancel_epoch is_read R =
     (if is_read then R\<lparr>rs_read_epoch := rs_read_epoch R + 1\<rparr> else R\<lparr>rs_write_epoch := rs_write_epoch R + 1\<rparr>)"

definition take_handle :: "bool \<Rightarrow> fd_resource \<Rightarrow> nat option \<times> fd_resource" where
  "take_handle is_read R =
     (if is_read then (rs_read_handle R, R\<lparr>rs_read_handle := None\<rparr>)
      else (rs_write_handle R, R\<lparr>rs_write_handle := None\<rparr>))"

definition cancel_all_handles :: "fd_resource \<Rightarrow> nat set \<times> fd_resource" where
  "cancel_all_handles R =
     (set_option (rs_read_handle R) \<union> set_option (rs_write_handle R),
      R\<lparr>rs_read_handle := None, rs_write_handle := None\<rparr>)"

section \<open>The socket\<close>

datatype wait_pc =
    W_idle
  | W_holding nat                  \<comment> \<open>holds what \<open>acquire_resource()\<close> gave\<close>
  | W_guarded nat bool             \<comment> \<open>operation guard taken, before the hop to the reactor\<close>
  | W_epoch nat bool u64           \<comment> \<open>cancel epoch read\<close>
  | W_registered nat bool u64 nat  \<comment> \<open>registered, before \<open>set_read_handle\<close>\<close>
  | W_waiting nat bool nat
  | W_resumed nat "unit result"
  | W_done "unit result"

datatype task_pc =
    T_idle
  | T_mark nat          \<comment> \<open>taken out of \<open>res_\<close>, before \<open>mark_closing()\<close>\<close>
  | T_cancel_all nat    \<comment> \<open>before \<open>cancel_all_handles()\<close>\<close>
  | T_cancel nat bool   \<comment> \<open>holds the resource, before the epoch is bumped\<close>
  | T_bumped nat bool   \<comment> \<open>epoch bumped, before the handle is taken\<close>
  | T_release nat       \<comment> \<open>taken out of \<open>res_\<close> by \<open>release()\<close>\<close>

datatype fd_end = Closed nat int | Released nat int

fun end_of :: "fd_end \<Rightarrow> nat" where
  "end_of (Closed r fd) = r"
| "end_of (Released r fd) = r"

record sock =
  sk_current :: "nat option"
  sk_res :: "nat \<rightharpoonup> fd_resource"
  sk_next :: nat
  sk_wait :: "nat \<Rightarrow> wait_pc"
  sk_task :: "nat \<Rightarrow> task_pc"
  sk_handles :: nat
  sk_cancelled :: "nat set"
  sk_ended :: "fd_end list"

definition sock_init :: sock where
  "sock_init = \<lparr>sk_current = None, sk_res = Map.empty, sk_next = 0, sk_wait = (\<lambda>_. W_idle), sk_task = (\<lambda>_. T_idle),
     sk_handles = 0, sk_cancelled = {}, sk_ended = []\<rparr>"

fun wait_res :: "wait_pc \<Rightarrow> nat option" where
  "wait_res (W_holding r) = Some r"
| "wait_res (W_guarded r k) = Some r"
| "wait_res (W_epoch r k e) = Some r"
| "wait_res (W_registered r k e h) = Some r"
| "wait_res (W_waiting r k h) = Some r"
| "wait_res (W_resumed r x) = Some r"
| "wait_res _ = None"

text \<open>The resource on which a wait has its operation guard.\<close>

fun guard_res :: "wait_pc \<Rightarrow> nat option" where
  "guard_res (W_holding r) = None"
| "guard_res p = wait_res p"

fun task_res :: "task_pc \<Rightarrow> nat option" where
  "task_res T_idle = None"
| "task_res (T_mark r) = Some r"
| "task_res (T_cancel_all r) = Some r"
| "task_res (T_cancel r k) = Some r"
| "task_res (T_bumped r k) = Some r"
| "task_res (T_release r) = Some r"

definition holds :: "sock \<Rightarrow> nat \<Rightarrow> bool" where
  "holds s r \<longleftrightarrow> sk_current s = Some r \<or> (\<exists>i. wait_res (sk_wait s i) = Some r) \<or> (\<exists>j. task_res (sk_task s j) = Some r)"

definition put_res :: "nat \<Rightarrow> fd_resource \<Rightarrow> sock \<Rightarrow> sock" where
  "put_res r R s = s\<lparr>sk_res := (sk_res s)(r \<mapsto> R)\<rparr>"

definition put_wait :: "nat \<Rightarrow> wait_pc \<Rightarrow> sock \<Rightarrow> sock" where
  "put_wait i p s = s\<lparr>sk_wait := (sk_wait s)(i := p)\<rparr>"

definition put_task :: "nat \<Rightarrow> task_pc \<Rightarrow> sock \<Rightarrow> sock" where
  "put_task j t s = s\<lparr>sk_task := (sk_task s)(j := t)\<rparr>"

definition tell_cancel :: "nat set \<Rightarrow> sock \<Rightarrow> sock" where
  "tell_cancel hs s = s\<lparr>sk_cancelled := sk_cancelled s \<union> hs\<rparr>"

definition deref :: "nat \<Rightarrow> sock \<Rightarrow> fd_resource" where
  "deref r s = the (sk_res s r)"

definition sk_install :: "int \<Rightarrow> sock \<Rightarrow> sock" where
  "sk_install fd s = s\<lparr>sk_res := (sk_res s)(sk_next s \<mapsto> fd_resource_init fd), sk_current := Some (sk_next s),
     sk_next := sk_next s + 1\<rparr>"

text \<open>
  \<open>set_cloexec\<close>, \<open>set_nonblocking\<close> (the \<open>errno\<close> of the one that fails) and \<open>add_fd\<close>, shared
  by \<open>open\<close> and \<open>assign\<close>. The list holds the descriptors closed on failure.
\<close>

definition adopt_fd :: "int \<Rightarrow> int option \<Rightarrow> bool \<Rightarrow> sock \<Rightarrow> unit result \<times> int list \<times> sock" where
  "adopt_fd fd flags_errno add_ok s =
     (case flags_errno of
        Some errno \<Rightarrow> (fail (map_socket_errno errno), [fd], s)
      | None \<Rightarrow> if \<not> add_ok then (fail_with internal_error, [fd], s) else (ok, [], sk_install fd s))"

definition socket_open :: "int + int \<Rightarrow> int option \<Rightarrow> bool \<Rightarrow> sock \<Rightarrow> unit result \<times> int list \<times> sock" where
  "socket_open fd flags_errno add_ok s =
     (if sk_current s \<noteq> None then (fail_with already_open, [], s)
      else case fd of
             Inl errno \<Rightarrow> (fail (generic_error errno), [], s)
           | Inr fd \<Rightarrow> adopt_fd fd flags_errno add_ok s)"

text \<open>\<open>res_.exchange(nullptr)\<close> of \<open>close\<close> and \<open>assign\<close>, by thread \<open>j\<close>.\<close>

definition close_take :: "nat \<Rightarrow> sock \<Rightarrow> sock" where
  "close_take j s =
     (case sk_current s of None \<Rightarrow> s | Some r \<Rightarrow> put_task j (T_mark r) (s\<lparr>sk_current := None\<rparr>))"

definition close_mark :: "nat \<Rightarrow> nat \<Rightarrow> sock \<Rightarrow> sock" where
  "close_mark j r s = put_task j (T_cancel_all r) (put_res r (rs_mark_closing (deref r s)) s)"

definition cancel_all :: "nat \<Rightarrow> nat \<Rightarrow> sock \<Rightarrow> sock" where
  "cancel_all j r s =
     (let (hs, R) = cancel_all_handles (deref r s) in tell_cancel hs (put_task j T_idle (put_res r R s)))"

text \<open>\<open>assign\<close>: the check, then as \<open>close\<close>, then the new descriptor.\<close>

definition assign_begin :: "nat \<Rightarrow> int \<Rightarrow> sock \<Rightarrow> unit result \<times> sock" where
  "assign_begin j fd s = (if fd < 0 then (fail_with invalid_argument, s) else (ok, close_take j s))"

definition assign_end :: "int \<Rightarrow> int option \<Rightarrow> bool \<Rightarrow> sock \<Rightarrow> unit result \<times> int list \<times> sock" where
  "assign_end fd flags_errno add_ok s = adopt_fd fd flags_errno add_ok s"

definition sk_cancel :: "nat \<Rightarrow> sock \<Rightarrow> sock" where
  "sk_cancel j s = (case sk_current s of None \<Rightarrow> s | Some r \<Rightarrow> put_task j (T_cancel_all r) s)"

definition sk_cancel_kind :: "nat \<Rightarrow> bool \<Rightarrow> sock \<Rightarrow> sock" where
  "sk_cancel_kind j is_read s = (case sk_current s of None \<Rightarrow> s | Some r \<Rightarrow> put_task j (T_cancel r is_read) s)"

definition cancel_bump :: "nat \<Rightarrow> nat \<Rightarrow> bool \<Rightarrow> sock \<Rightarrow> sock" where
  "cancel_bump j r is_read s = put_task j (T_bumped r is_read) (put_res r (bump_cancel_epoch is_read (deref r s)) s)"

definition cancel_take :: "nat \<Rightarrow> nat \<Rightarrow> bool \<Rightarrow> sock \<Rightarrow> sock" where
  "cancel_take j r is_read s =
     (let (h, R) = take_handle is_read (deref r s) in tell_cancel (set_option h) (put_task j T_idle (put_res r R s)))"

definition release_begin :: "nat \<Rightarrow> sock \<Rightarrow> unit result \<times> sock" where
  "release_begin j s =
     (case sk_current s of
        None \<Rightarrow> (fail_with not_open, s)
      | Some r \<Rightarrow>
          if rs_inflight (deref r s) \<noteq> 0 then (fail_with busy, s)
          else (ok, put_task j (T_release r) (s\<lparr>sk_current := None\<rparr>)))"

definition release_end :: "nat \<Rightarrow> nat \<Rightarrow> sock \<Rightarrow> int \<times> sock" where
  "release_end j r s =
     (let (hs, R1) = cancel_all_handles (rs_mark_closing (deref r s));
          (fd, R2) = release_fd R1;
          s1 = tell_cancel hs (put_task j T_idle (put_res r R2 s))
      in (fd, if fd \<ge> 0 then s1\<lparr>sk_ended := sk_ended s1 @ [Released r fd]\<rparr> else s1))"

text \<open>The destructor of a resource nobody holds.\<close>

definition rs_destroy :: "nat \<Rightarrow> sock \<Rightarrow> sock" where
  "rs_destroy r s =
     (let (hs, R1) = cancel_all_handles (deref r s);
          (fd, R2) = release_fd R1;
          s1 = tell_cancel hs (s\<lparr>sk_res := (sk_res s)(r := None)\<rparr>)
      in if fd < 0 then s1 else s1\<lparr>sk_ended := sk_ended s1 @ [Closed r fd]\<rparr>)"

section \<open>Waiting\<close>

definition make_operation_guard :: "nat option \<Rightarrow> sock \<Rightarrow> bool \<times> sock" where
  "make_operation_guard res s =
     (case res of
        None \<Rightarrow> (False, s)
      | Some r \<Rightarrow>
          if sk_current s \<noteq> Some r \<or> rs_closing (deref r s) \<or> rs_fd (deref r s) < 0 then (False, s)
          else (True, put_res r (add_inflight (deref r s)) s))"

definition wait_acquire :: "nat \<Rightarrow> bool \<Rightarrow> sock \<Rightarrow> sock" where
  "wait_acquire i is_read s =
     (case sk_current s of
        None \<Rightarrow> put_wait i (W_done (fail_with not_open)) s
      | Some r \<Rightarrow> put_wait i (W_holding r) s)"

definition wait_begin :: "nat \<Rightarrow> nat \<Rightarrow> bool \<Rightarrow> sock \<Rightarrow> sock" where
  "wait_begin i r is_read s =
     (let (inflight, s1) = make_operation_guard (Some r) s
      in if \<not> inflight then
           put_wait i (W_done (fail_with (if rs_closing (deref r s) then operation_aborted else not_open))) s1
         else put_wait i (W_guarded r is_read) s1)"

definition wait_epoch :: "nat \<Rightarrow> nat \<Rightarrow> bool \<Rightarrow> sock \<Rightarrow> sock" where
  "wait_epoch i r is_read s = put_wait i (W_epoch r is_read (rs_cancel_epoch is_read (deref r s))) s"

text \<open>Handles of the operations that registering for \<open>(r, is_read)\<close> replaces.\<close>

definition replaced :: "nat \<Rightarrow> bool \<Rightarrow> sock \<Rightarrow> nat set" where
  "replaced r is_read s = {h. \<exists>i. sk_wait s i = W_waiting r is_read h}"

definition wait_register :: "nat \<Rightarrow> nat \<Rightarrow> bool \<Rightarrow> u64 \<Rightarrow> sock \<Rightarrow> sock" where
  "wait_register i r is_read e s =
     (let h = sk_handles s
      in put_wait i (W_registered r is_read e h) (tell_cancel (replaced r is_read s) (s\<lparr>sk_handles := h + 1\<rparr>)))"

definition wait_set_handle :: "nat \<Rightarrow> nat \<Rightarrow> bool \<Rightarrow> u64 \<Rightarrow> nat \<Rightarrow> sock \<Rightarrow> sock" where
  "wait_set_handle i r is_read e h s =
     (let (rejected, R) = set_handle is_read h e (deref r s)
      in put_wait i (W_waiting r is_read h) (tell_cancel (set_option rejected) (put_res r R s)))"

definition wait_end :: "nat \<Rightarrow> nat \<Rightarrow> unit result \<Rightarrow> sock \<Rightarrow> sock" where
  "wait_end i r res s =
     (let R = deref r s; final = (if res = ok \<and> rs_closing R then fail_with operation_aborted else res)
      in put_wait i (W_done final) (put_res r (remove_inflight R) s))"

text \<open>
  An operation of a socket holds its resource and its guard from before its first wait until
  it returns: here its guard is dropped without a wait.
\<close>

definition operation_end :: "nat \<Rightarrow> nat \<Rightarrow> sock \<Rightarrow> sock" where
  "operation_end i r s = put_wait i W_idle (put_res r (remove_inflight (deref r s)) s)"

inductive sock_step :: "sock \<Rightarrow> sock \<Rightarrow> bool" where
  open_: "socket_open a e k s = (x, cl, t) \<Longrightarrow> (\<And>fd. a = Inr fd \<Longrightarrow> 0 \<le> fd) \<Longrightarrow> sock_step s t"
| assign: "assign_end fd e k s = (x, cl, t) \<Longrightarrow> 0 \<le> fd \<Longrightarrow> sock_step s t"
| close: "sk_task s j = T_idle \<Longrightarrow> sock_step s (close_take j s)"
| mark: "sk_task s j = T_mark r \<Longrightarrow> sock_step s (close_mark j r s)"
| cancel_handles: "sk_task s j = T_cancel_all r \<Longrightarrow> sock_step s (cancel_all j r s)"
| cancel: "sk_task s j = T_idle \<Longrightarrow> sock_step s (sk_cancel j s)"
| cancel_kind: "sk_task s j = T_idle \<Longrightarrow> sock_step s (sk_cancel_kind j k s)"
| bump: "sk_task s j = T_cancel r k \<Longrightarrow> sock_step s (cancel_bump j r k s)"
| take: "sk_task s j = T_bumped r k \<Longrightarrow> sock_step s (cancel_take j r k s)"
| release: "sk_task s j = T_idle \<Longrightarrow> sock_step s (snd (release_begin j s))"
| release_end: "sk_task s j = T_release r \<Longrightarrow> sock_step s (snd (release_end j r s))"
| destroy: "sk_res s r \<noteq> None \<Longrightarrow> \<not> holds s r \<Longrightarrow> sock_step s (rs_destroy r s)"
| acquire: "sk_wait s i = W_idle \<Longrightarrow> sock_step s (wait_acquire i k s)"
| begin_wait: "sk_wait s i = W_holding r \<Longrightarrow> sock_step s (wait_begin i r k s)"
| epoch: "sk_wait s i = W_guarded r k \<Longrightarrow> sock_step s (wait_epoch i r k s)"
| register: "sk_wait s i = W_epoch r k e \<Longrightarrow> (\<And>j r k e h. sk_wait s j \<noteq> W_registered r k e h) \<Longrightarrow>
    sock_step s (wait_register i r k e s)"
| set_handle: "sk_wait s i = W_registered r k e h \<Longrightarrow> sock_step s (wait_set_handle i r k e h s)"
| complete: "sk_wait s i = W_waiting r k h \<Longrightarrow> sock_step s (put_wait i (W_resumed r x) s)"
| end_wait: "sk_wait s i = W_resumed r x \<Longrightarrow> sock_step s (wait_end i r x s)"
| share: "sk_wait s i = W_idle \<Longrightarrow> holds s r \<Longrightarrow> sock_step s (put_wait i (W_holding r) s)"
| drop: "sk_wait s i = W_holding r \<Longrightarrow> sock_step s (put_wait i W_idle s)"
| end_operation: "sk_wait s i = W_guarded r k \<Longrightarrow> sock_step s (operation_end i r s)"
| again: "sk_wait s i = W_done x \<Longrightarrow> sock_step s (put_wait i W_idle s)"

section \<open>Invariant\<close>

definition guards :: "sock \<Rightarrow> nat \<Rightarrow> nat set" where
  "guards s r = {i. guard_res (sk_wait s i) = Some r}"

definition held_alive :: "sock \<Rightarrow> bool" where
  "held_alive s \<longleftrightarrow> (\<forall>r. holds s r \<longrightarrow> sk_res s r \<noteq> None) \<and>
     (\<forall>r \<ge> sk_next s. sk_res s r = None \<and> r \<notin> end_of ` set (sk_ended s))"

definition current_open :: "sock \<Rightarrow> bool" where
  "current_open s \<longleftrightarrow>
     (\<forall>r R. sk_current s = Some r \<longrightarrow> sk_res s r = Some R \<longrightarrow> \<not> rs_closing R \<and> 0 \<le> rs_fd R) \<and>
     (\<forall>j r. sk_task s j = T_mark r \<or> sk_task s j = T_release r \<longrightarrow> sk_current s \<noteq> Some r)"

text \<open>Registering and storing the handle is one piece of work of the reactor thread.\<close>

fun is_registered :: "wait_pc \<Rightarrow> bool" where
  "is_registered (W_registered r k e h) = True"
| "is_registered _ = False"

fun is_waiting :: "wait_pc \<Rightarrow> bool" where
  "is_waiting (W_waiting r k h) = True"
| "is_waiting _ = False"

definition one_registered :: "(nat \<Rightarrow> wait_pc) \<Rightarrow> bool" where
  "one_registered f \<longleftrightarrow> (\<exists>\<^sub>\<le>\<^sub>1 i. is_registered (f i))"

definition waits_known :: "sock \<Rightarrow> bool" where
  "waits_known s \<longleftrightarrow>
     (\<forall>i r k h R. sk_wait s i = W_waiting r k h \<longrightarrow> sk_res s r = Some R \<longrightarrow>
        h \<in> sk_cancelled s \<or> rs_handle k R = Some h) \<and>
     one_registered (sk_wait s) \<and>
     (\<forall>i j r k e h h'. sk_wait s i = W_registered r k e h \<longrightarrow> sk_wait s j = W_waiting r k h' \<longrightarrow> h' \<in> sk_cancelled s)"

definition closing_told :: "sock \<Rightarrow> bool" where
  "closing_told s \<longleftrightarrow>
     (\<forall>r R. sk_res s r = Some R \<longrightarrow> rs_closing R \<longrightarrow>
        (\<exists>j. sk_task s j = T_cancel_all r) \<or> (\<forall>k. rs_handle k R = None))"

definition guards_counted :: "sock \<Rightarrow> bool" where
  "guards_counted s \<longleftrightarrow>
     (\<forall>r. finite (guards s r)) \<and> (\<forall>r R. sk_res s r = Some R \<longrightarrow> rs_inflight R = card (guards s r)) \<and>
     (\<forall>j r. sk_task s j = T_release r \<longrightarrow> guards s r = {})"

definition ended_once :: "sock \<Rightarrow> bool" where
  "ended_once s \<longleftrightarrow> distinct (map end_of (sk_ended s)) \<and>
     (\<forall>r \<in> end_of ` set (sk_ended s). guards s r = {} \<and> (\<forall>R. sk_res s r = Some R \<longrightarrow> rs_fd R = -1))"

definition sock_inv :: "sock \<Rightarrow> bool" where
  "sock_inv s \<longleftrightarrow> held_alive s \<and> current_open s \<and> waits_known s \<and> closing_told s \<and> guards_counted s \<and> ended_once s"

lemmas sock_inv_defs = sock_inv_def held_alive_def current_open_def waits_known_def closing_told_def
  guards_counted_def ended_once_def

lemma put_simps [simp]:
  "sk_current (put_res r R s) = sk_current s" "sk_res (put_res r R s) = (sk_res s)(r \<mapsto> R)"
  "sk_next (put_res r R s) = sk_next s" "sk_wait (put_res r R s) = sk_wait s" "sk_task (put_res r R s) = sk_task s"
  "sk_handles (put_res r R s) = sk_handles s" "sk_cancelled (put_res r R s) = sk_cancelled s" "sk_ended (put_res r R s) = sk_ended s"
  "sk_current (put_wait i p s) = sk_current s" "sk_res (put_wait i p s) = sk_res s"
  "sk_next (put_wait i p s) = sk_next s" "sk_wait (put_wait i p s) = (sk_wait s)(i := p)" "sk_task (put_wait i p s) = sk_task s"
  "sk_handles (put_wait i p s) = sk_handles s" "sk_cancelled (put_wait i p s) = sk_cancelled s" "sk_ended (put_wait i p s) = sk_ended s"
  "sk_current (put_task j t s) = sk_current s" "sk_res (put_task j t s) = sk_res s"
  "sk_next (put_task j t s) = sk_next s" "sk_wait (put_task j t s) = sk_wait s" "sk_task (put_task j t s) = (sk_task s)(j := t)"
  "sk_handles (put_task j t s) = sk_handles s" "sk_cancelled (put_task j t s) = sk_cancelled s" "sk_ended (put_task j t s) = sk_ended s"
  "sk_current (tell_cancel hs s) = sk_current s" "sk_res (tell_cancel hs s) = sk_res s"
  "sk_next (tell_cancel hs s) = sk_next s" "sk_wait (tell_cancel hs s) = sk_wait s" "sk_task (tell_cancel hs s) = sk_task s"
  "sk_handles (tell_cancel hs s) = sk_handles s" "sk_cancelled (tell_cancel hs s) = sk_cancelled s \<union> hs"
  "sk_ended (tell_cancel hs s) = sk_ended s"
  by (simp_all add: put_res_def put_wait_def put_task_def tell_cancel_def)

lemma guards_simps [simp]:
  "guards (put_res r R s) = guards s" "guards (put_task j t s) = guards s" "guards (tell_cancel hs s) = guards s"
  "guards (sk_current_update f s) = guards s" "guards (sk_res_update g s) = guards s"
  "guards (sk_next_update n s) = guards s" "guards (sk_ended_update e s) = guards s" "guards (sk_handles_update h' s) = guards s"
  by (simp_all add: guards_def fun_eq_iff)

lemma holds_simps [simp]:
  "holds (put_res r R s) = holds s" "holds (tell_cancel hs s) = holds s" "holds (sk_res_update g s) = holds s"
  "holds (sk_next_update n s) = holds s" "holds (sk_ended_update e s) = holds s" "holds (sk_handles_update h' s) = holds s"
  by (simp_all add: holds_def fun_eq_iff)

lemma guard_wait_res: "guard_res p = Some r \<Longrightarrow> wait_res p = Some r"
  by (cases p) simp_all

lemma sock_inv_init: "sock_inv sock_init"
  by (simp add: sock_inv_defs sock_init_def holds_def guards_def one_registered_def Uniq_def)

lemma sock_inv_alive: "sock_inv s \<Longrightarrow> holds s r \<Longrightarrow> sk_res s r = Some (deref r s)"
  by (auto simp: sock_inv_def held_alive_def deref_def)

lemma waits_knownI:
  assumes "\<And>i r k h R. sk_wait s i = W_waiting r k h \<Longrightarrow> sk_res s r = Some R \<Longrightarrow>
      h \<in> sk_cancelled s \<or> rs_handle k R = Some h"
    and "one_registered (sk_wait s)"
    and "\<And>i j r k e h h'. sk_wait s i = W_registered r k e h \<Longrightarrow> sk_wait s j = W_waiting r k h' \<Longrightarrow> h' \<in> sk_cancelled s"
  shows "waits_known s"
  using assms unfolding waits_known_def by blast

lemma sock_invD_waits:
  assumes "sock_inv s"
  shows "sk_wait s i = W_waiting r k h \<Longrightarrow> sk_res s r = Some R \<Longrightarrow> h \<in> sk_cancelled s \<or> rs_handle k R = Some h"
    "one_registered (sk_wait s)"
    "sk_wait s i = W_registered r k e h \<Longrightarrow> sk_wait s j = W_waiting r k h' \<Longrightarrow> h' \<in> sk_cancelled s"
  using assms unfolding sock_inv_def waits_known_def by blast+

lemma waits_known_tell:
  assumes "waits_known s" shows "waits_known (tell_cancel hs s)"
  using assms unfolding waits_known_def put_simps by blast

lemma sock_inv_tell: "sock_inv s \<Longrightarrow> sock_inv (tell_cancel hs s)"
  using waits_known_tell [of s hs]
  by (simp add: sock_inv_def held_alive_def current_open_def closing_told_def guards_counted_def ended_once_def)

lemma sock_inv_put_res:
  assumes inv: "sock_inv s" and R: "sk_res s r = Some R"
    and same: "rs_inflight R' = rs_inflight R" "rs_fd R' = rs_fd R \<or> rs_fd R' = -1 \<and> sk_current s \<noteq> Some r"
    and closing: "rs_closing R' \<Longrightarrow> sk_current s \<noteq> Some r"
    and handles: "\<And>k h. rs_handle k R = Some h \<Longrightarrow> rs_handle k R' = Some h \<or> h \<in> sk_cancelled s"
    and told: "rs_closing R' \<Longrightarrow> (\<exists>j. sk_task s j = T_cancel_all r) \<or> (\<forall>k. rs_handle k R' = None)"
  shows "sock_inv (put_res r R' s)"
proof -
  have "held_alive (put_res r R' s)" using inv R by (auto simp: sock_inv_def held_alive_def)
  moreover have "current_open (put_res r R' s)"
  proof -
    have "current_open s" using inv by (simp add: sock_inv_def)
    then show ?thesis using R same(2) closing unfolding current_open_def put_simps
      by (metis fun_upd_apply option.inject)
  qed
  moreover have "waits_known (put_res r R' s)"
  proof (rule waits_knownI)
    fix i q k h Q assume w: "sk_wait (put_res r R' s) i = W_waiting q k h" and Q: "sk_res (put_res r R' s) q = Some Q"
    show "h \<in> sk_cancelled (put_res r R' s) \<or> rs_handle k Q = Some h"
      using sock_invD_waits(1) [OF inv, of i q k h] w Q R handles [of k h] by (cases "q = r") auto
  qed (use sock_invD_waits(2,3) [OF inv] in auto)
  moreover have "closing_told (put_res r R' s)" using inv R told by (simp add: sock_inv_def closing_told_def)
  moreover have "guards_counted (put_res r R' s)" using inv R same(1) by (simp add: sock_inv_def guards_counted_def)
  moreover have "ended_once (put_res r R' s)" using inv R same(2) by (auto simp: sock_inv_def ended_once_def)
  ultimately show ?thesis by (simp add: sock_inv_def)
qed

lemma sock_invD_alive:
  assumes "sock_inv s"
  shows "holds s r \<Longrightarrow> sk_res s r \<noteq> None" "sk_next s \<le> r \<Longrightarrow> sk_res s r = None"
    "sk_next s \<le> r \<Longrightarrow> r \<notin> end_of ` set (sk_ended s)"
  using assms unfolding sock_inv_def held_alive_def by blast+

lemma sock_invD_current:
  assumes "sock_inv s"
  shows "sk_current s = Some r \<Longrightarrow> sk_res s r = Some R \<Longrightarrow> \<not> rs_closing R \<and> 0 \<le> rs_fd R"
    "sk_task s j = T_mark r \<Longrightarrow> sk_current s \<noteq> Some r" "sk_task s j = T_release r \<Longrightarrow> sk_current s \<noteq> Some r"
  using assms unfolding sock_inv_def current_open_def by blast+

lemma sock_invD_guards:
  assumes "sock_inv s"
  shows "finite (guards s r)" "sk_res s r = Some R \<Longrightarrow> rs_inflight R = card (guards s r)"
    "sk_task s j = T_release r \<Longrightarrow> guards s r = {}"
    "r \<in> end_of ` set (sk_ended s) \<Longrightarrow> guards s r = {}"
    "r \<in> end_of ` set (sk_ended s) \<Longrightarrow> sk_res s r = Some R \<Longrightarrow> rs_fd R = -1"
    "distinct (map end_of (sk_ended s))"
  using assms unfolding sock_inv_def guards_counted_def ended_once_def by blast+

lemma sock_invD_told:
  "sock_inv s \<Longrightarrow> sk_res s r = Some R \<Longrightarrow> rs_closing R \<Longrightarrow>
     (\<exists>j. sk_task s j = T_cancel_all r) \<or> (\<forall>k. rs_handle k R = None)"
  unfolding sock_inv_def closing_told_def by blast

lemma current_not_ended:
  assumes inv: "sock_inv s" and c: "sk_current s = Some r" shows "r \<notin> end_of ` set (sk_ended s)"
proof
  assume e: "r \<in> end_of ` set (sk_ended s)"
  obtain R where R: "sk_res s r = Some R" using sock_invD_alive(1) [OF inv, of r] c by (auto simp: holds_def)
  show False using sock_invD_current(1) [OF inv c R] sock_invD_guards(5) [OF inv e R] by simp
qed

lemma holds_put_task: "holds (put_task j t s) r \<Longrightarrow> holds s r \<or> task_res t = Some r"
  by (auto simp: holds_def split: if_splits)

lemma holds_put_wait: "holds (put_wait i p s) r \<Longrightarrow> holds s r \<or> wait_res p = Some r"
  by (auto simp: holds_def split: if_splits)

lemma sock_inv_put_task:
  assumes inv: "sock_inv s"
    and alive: "\<And>r. task_res t = Some r \<Longrightarrow> sk_res s r \<noteq> None"
    and leaving: "\<And>r. t = T_mark r \<or> t = T_release r \<Longrightarrow> sk_current s \<noteq> Some r"
    and release: "\<And>r. t = T_release r \<Longrightarrow> guards s r = {}"
    and told: "\<And>r R k. sk_task s j = T_cancel_all r \<Longrightarrow> sk_res s r = Some R \<Longrightarrow> rs_handle k R = None"
  shows "sock_inv (put_task j t s)"
proof -
  have "held_alive (put_task j t s)"
    using sock_invD_alive [OF inv] holds_put_task [of j t s] alive unfolding held_alive_def put_simps by blast
  moreover have "current_open (put_task j t s)"
    using sock_invD_current [OF inv] leaving unfolding current_open_def put_simps by (metis fun_upd_apply)
  moreover have "waits_known (put_task j t s)" using inv by (simp add: sock_inv_def waits_known_def)
  moreover have "closing_told (put_task j t s)"
    using sock_invD_told [OF inv] told unfolding closing_told_def put_simps by (metis fun_upd_apply)
  moreover have "guards_counted (put_task j t s)"
    using sock_invD_guards(1-3) [OF inv] release unfolding guards_counted_def put_simps guards_simps by (metis fun_upd_apply)
  moreover have "ended_once (put_task j t s)" using inv by (simp add: sock_inv_def ended_once_def)
  ultimately show ?thesis by (simp add: sock_inv_def)
qed

text \<open>A wait moves on without registering or starting to wait.\<close>

lemma waits_known_put_wait:
  assumes inv: "sock_inv s" and p: "\<not> is_registered p" "\<not> is_waiting p"
  shows "waits_known (put_wait i p s)"
proof (rule waits_knownI)
  fix i' r k h R assume "sk_wait (put_wait i p s) i' = W_waiting r k h" "sk_res (put_wait i p s) r = Some R"
  then show "h \<in> sk_cancelled (put_wait i p s) \<or> rs_handle k R = Some h"
    using sock_invD_waits(1) [OF inv] p(2) by (auto split: if_splits)
next
  show "one_registered (sk_wait (put_wait i p s))"
    using sock_invD_waits(2) [OF inv] p(1) by (auto simp: one_registered_def Uniq_def)
next
  fix i' j r k e h h' assume "sk_wait (put_wait i p s) i' = W_registered r k e h" "sk_wait (put_wait i p s) j = W_waiting r k h'"
  then show "h' \<in> sk_cancelled (put_wait i p s)"
    using sock_invD_waits(3) [OF inv] p by (auto split: if_splits)
qed

lemma waits_known_put_res:
  assumes wk: "waits_known s" and R: "sk_res s r = Some R" and same: "\<And>k. rs_handle k R' = rs_handle k R"
  shows "waits_known (put_res r R' s)"
proof (rule waits_knownI)
  fix i q k h Q assume "sk_wait (put_res r R' s) i = W_waiting q k h" "sk_res (put_res r R' s) q = Some Q"
  then have w: "sk_wait s i = W_waiting q k h" and Q: "Q = R' \<and> q = r \<or> sk_res s q = Some Q"
    by (auto split: if_splits)
  from wk w have "h \<in> sk_cancelled s \<or> rs_handle k Q' = Some h" if "sk_res s q = Some Q'" for Q'
    using that unfolding waits_known_def by blast
  then show "h \<in> sk_cancelled (put_res r R' s) \<or> rs_handle k Q = Some h" using Q R same by auto
qed (use wk in \<open>simp add: waits_known_def, unfold waits_known_def, force\<close>)

lemma sock_inv_parts:
  assumes "sock_inv s" shows "current_open s" "closing_told s" "ended_once s"
  using assms by (simp_all only: sock_inv_def)

lemma current_open_cong:
  "sk_current t = sk_current s \<Longrightarrow> sk_res t = sk_res s \<Longrightarrow> sk_task t = sk_task s \<Longrightarrow> current_open s \<Longrightarrow> current_open t"
  by (simp only: current_open_def)

lemma closing_told_cong: "sk_res t = sk_res s \<Longrightarrow> sk_task t = sk_task s \<Longrightarrow> closing_told s \<Longrightarrow> closing_told t"
  by (simp only: closing_told_def)

lemma current_open_put_res:
  assumes c: "current_open s" and R: "sk_res s r = Some R" and same: "rs_closing R' = rs_closing R" "rs_fd R' = rs_fd R"
  shows "current_open (put_res r R' s)"
  using c R same unfolding current_open_def put_simps by (metis fun_upd_apply option.inject)

lemma closing_told_put_res:
  assumes c: "closing_told s" and R: "sk_res s r = Some R" and same: "rs_closing R' = rs_closing R"
    and h: "\<And>k. rs_closing R \<Longrightarrow> rs_handle k R' = rs_handle k R"
  shows "closing_told (put_res r R' s)"
  unfolding closing_told_def
proof (intro allI impI)
  fix q Q assume Q: "sk_res (put_res r R' s) q = Some Q" "rs_closing Q"
  show "(\<exists>j. sk_task (put_res r R' s) j = T_cancel_all q) \<or> (\<forall>k. rs_handle k Q = None)"
  proof (cases "q = r")
    case True
    then have e: "Q = R'" "rs_closing R" using Q same by auto
    then show ?thesis using c [unfolded closing_told_def, rule_format, OF R] h True by simp
  qed (use Q c in \<open>simp add: closing_told_def\<close>)
qed

lemma ended_once_put_res:
  assumes c: "ended_once s" and R: "sk_res s r = Some R" and same: "rs_fd R' = rs_fd R"
  shows "ended_once (put_res r R' s)"
  using assms by (auto simp: ended_once_def)

lemma guards_put_wait:
  assumes "finite (guards s r)"
  shows "finite (guards (put_wait i p s) r)"
    "card (guards (put_wait i p s) r) + (if guard_res (sk_wait s i) = Some r then 1 else 0) =
       card (guards s r) + (if guard_res p = Some r then 1 else 0)"
  using card_update [of "\<lambda>p. guard_res p = Some r" "sk_wait s" i p] assms by (simp_all add: guards_def)

lemma guards_put_wait_same: "guard_res p = guard_res (sk_wait s i) \<Longrightarrow> guards (put_wait i p s) r = guards s r"
  by (auto simp: guards_def)

lemma guards_put_wait_subset: "guards (put_wait i p s) r \<subseteq> guards s r \<union> {j. guard_res p = Some r}"
  by (auto simp: guards_def split: if_splits)

lemma sock_inv_put_wait:
  assumes inv: "sock_inv s" and p: "\<not> is_registered p" "\<not> is_waiting p"
    and alive: "\<And>r. wait_res p = Some r \<Longrightarrow> sk_res s r \<noteq> None"
    and g: "guard_res p = guard_res (sk_wait s i)"
  shows "sock_inv (put_wait i p s)"
proof -
  have "held_alive (put_wait i p s)"
    using sock_invD_alive [OF inv] holds_put_wait [of i p s] alive unfolding held_alive_def put_simps by blast
  moreover have "waits_known (put_wait i p s)" using inv p by (rule waits_known_put_wait)
  ultimately show ?thesis using inv
    by (simp add: sock_inv_def current_open_def closing_told_def guards_counted_def ended_once_def guards_put_wait_same [OF g])
qed

text \<open>A wait gets or drops its operation guard on the resource \<open>r\<close>.\<close>

lemma sock_inv_guard:
  assumes inv: "sock_inv s" and p: "\<not> is_registered p" "\<not> is_waiting p"
    and R: "sk_res s r = Some R" and alive: "\<And>q. wait_res p = Some q \<Longrightarrow> q = r"
    and old: "\<And>q. guard_res (sk_wait s i) = Some q \<Longrightarrow> q = r"
    and new: "\<And>q. guard_res p = Some q \<Longrightarrow> sk_current s = Some r"
    and n: "n + (if guard_res (sk_wait s i) = Some r then 1 else 0) = rs_inflight R + (if guard_res p = Some r then 1 else 0)"
  shows "sock_inv (put_wait i p (put_res r (R\<lparr>rs_inflight := n\<rparr>) s))" (is "sock_inv ?t")
proof -
  let ?R = "R\<lparr>rs_inflight := n\<rparr>"
  have g: "guards ?t q = guards (put_wait i p s) q" for q by (simp add: guards_def)
  have sub: "guards ?t q = {}" if "guards s q = {}" "sk_current s \<noteq> Some q" for q
    using guards_put_wait_subset [of i p s q] that new alive guard_wait_res [of p q] unfolding g by blast
  have same: "rs_closing ?R = rs_closing R" "rs_fd ?R = rs_fd R" "rs_handle k ?R = rs_handle k R" for k
    by (simp_all add: rs_handle_def)
  have dom: "sk_res ?t q = None \<longleftrightarrow> sk_res s q = None" for q using R by simp
  have hold: "holds s q \<or> q = r" if "holds ?t q" for q
    using holds_put_wait [OF that] alive by auto
  have "held_alive ?t"
    unfolding held_alive_def dom
  proof (intro conjI allI impI)
    fix q assume "holds ?t q"
    then show "sk_res s q \<noteq> None" using hold [of q] sock_invD_alive(1) [OF inv] R by auto
  qed (use sock_invD_alive(2,3) [OF inv] in simp_all)
  moreover have "current_open ?t"
    by (rule current_open_cong [OF _ _ _ current_open_put_res [OF sock_inv_parts(1) [OF inv] R same(1,2)]]) simp_all
  moreover have "waits_known ?t"
  proof -
    have "waits_known (put_res r ?R (put_wait i p s))"
      using waits_known_put_wait [OF inv p] _ same(3) by (rule waits_known_put_res) (simp add: R)
    moreover have "put_res r ?R (put_wait i p s) = ?t" by (simp add: put_res_def put_wait_def)
    ultimately show ?thesis by simp
  qed
  moreover have "closing_told ?t"
    by (rule closing_told_cong [OF _ _ closing_told_put_res [OF sock_inv_parts(2) [OF inv] R same(1,3)]]) simp_all
  moreover have "guards_counted ?t"
  proof -
    have "card (guards ?t r) = n" using guards_put_wait(2) [OF sock_invD_guards(1) [OF inv], of i p r] n
      sock_invD_guards(2) [OF inv R] unfolding g by simp
    moreover have "guards ?t q = guards s q" if "q \<noteq> r" for q
      using that old alive guard_wait_res [of p q] by (auto simp: guards_def)
    moreover have "guards ?t q = {}" if "sk_task s j = T_release q" for j q
      using sub sock_invD_guards(3) [OF inv that] sock_invD_current(3) [OF inv that] by blast
    moreover have "rs_inflight Q = card (guards ?t q)" if "sk_res ?t q = Some Q" for q Q
      using that calculation(1,2) sock_invD_guards(2) [OF inv, of q Q] by (cases "q = r") auto
    moreover have "finite (guards ?t q)" for q
      unfolding g using guards_put_wait(1) [OF sock_invD_guards(1) [OF inv]] .
    ultimately show ?thesis unfolding guards_counted_def by simp
  qed
  moreover have "ended_once ?t"
    using ended_once_put_res [OF _ R same(2)] inv sub sock_invD_guards(4) [OF inv] current_not_ended [OF inv]
    unfolding sock_inv_def ended_once_def put_simps by blast
  ultimately show ?thesis by (simp add: sock_inv_def)
qed

section \<open>Steps keep the invariant\<close>

lemma guards_holds: "i \<in> guards s r \<Longrightarrow> holds s r"
  using guard_wait_res by (auto simp: guards_def holds_def)

lemma sock_inv_clear_current:
  assumes inv: "sock_inv s" shows "sock_inv (s\<lparr>sk_current := None\<rparr>)"
proof -
  have "holds (s\<lparr>sk_current := None\<rparr>) r \<Longrightarrow> holds s r" for r by (auto simp: holds_def)
  then have "held_alive (s\<lparr>sk_current := None\<rparr>)"
    using sock_invD_alive [OF inv] by (auto simp: held_alive_def)
  then show ?thesis using inv
    by (simp add: sock_inv_def current_open_def waits_known_def closing_told_def guards_counted_def ended_once_def)
qed

lemma sock_inv_install:
  assumes inv: "sock_inv s" and fd: "0 \<le> fd" shows "sock_inv (sk_install fd s)"
proof -
  let ?r = "sk_next s" and ?t = "sk_install fd s"
  have t: "sk_res ?t = (sk_res s)(?r \<mapsto> fd_resource_init fd)" "sk_current ?t = Some ?r" "sk_wait ?t = sk_wait s"
    "sk_task ?t = sk_task s" "sk_next ?t = Suc ?r" "sk_ended ?t = sk_ended s" "sk_cancelled ?t = sk_cancelled s"
    by (simp_all add: sk_install_def)
  have g: "guards ?t = guards s" by (simp add: sk_install_def)
  have nh: "\<not> holds s ?r" using sock_invD_alive(1,2) [OF inv, of ?r] by auto
  have "holds ?t q \<Longrightarrow> holds s q \<or> q = ?r" for q by (auto simp: holds_def t)
  then have "held_alive ?t" using sock_invD_alive [OF inv] by (auto simp: held_alive_def t)
  moreover have "current_open ?t"
  proof -
    have "sk_task s j \<noteq> T_mark ?r" "sk_task s j \<noteq> T_release ?r" for j
      using nh unfolding holds_def by (metis task_res.simps)+
    then show ?thesis using fd by (auto simp: current_open_def t fd_resource_init_def)
  qed
  moreover have "waits_known ?t"
  proof (rule waits_knownI)
    fix i q k h Q assume w: "sk_wait ?t i = W_waiting q k h" "sk_res ?t q = Some Q"
    have "q \<noteq> ?r" using w(1) nh unfolding holds_def t by (metis wait_res.simps(5))
    then show "h \<in> sk_cancelled ?t \<or> rs_handle k Q = Some h" using w sock_invD_waits(1) [OF inv] by (auto simp: t)
  qed (use sock_invD_waits(2,3) [OF inv] in \<open>auto simp: t\<close>)
  moreover have "closing_told ?t"
    using sock_invD_told [OF inv] by (auto simp: closing_told_def t fd_resource_init_def)
  moreover have "guards_counted ?t"
  proof -
    have "guards s ?r = {}" using nh guards_holds by blast
    then show ?thesis using sock_invD_guards(1-3) [OF inv]
      by (auto simp: guards_counted_def g t fd_resource_init_def)
  qed
  moreover have "ended_once ?t"
    unfolding ended_once_def g t
  proof (intro conjI ballI allI impI)
    fix q assume q: "q \<in> end_of ` set (sk_ended s)"
    show "guards s q = {}" using inv q by (rule sock_invD_guards(4))
    fix Q assume "((sk_res s)(?r \<mapsto> fd_resource_init fd)) q = Some Q"
    then show "rs_fd Q = -1" using sock_invD_guards(5) [OF inv q] sock_invD_alive(3) [OF inv, of ?r] q
      by (auto split: if_splits)
  qed (rule sock_invD_guards(6) [OF inv])
  ultimately show ?thesis by (simp add: sock_inv_def)
qed

lemma sock_inv_ended:
  assumes inv: "sock_inv s" and r: "r < sk_next s" "r \<notin> end_of ` set (sk_ended s)" "guards s r = {}"
    "\<And>R. sk_res s r = Some R \<Longrightarrow> rs_fd R = -1" and e: "end_of e = r"
  shows "sock_inv (s\<lparr>sk_ended := sk_ended s @ [e]\<rparr>)"
  using assms by (auto simp: sock_inv_def held_alive_def current_open_def waits_known_def closing_told_def
      guards_counted_def ended_once_def)

lemma sock_inv_drop:
  assumes inv: "sock_inv s" and r: "\<not> holds s r" shows "sock_inv (s\<lparr>sk_res := (sk_res s)(r := None)\<rparr>)" (is "sock_inv ?t")
proof -
  have g: "guards ?t = guards s" by simp
  have "held_alive ?t" using inv r by (auto simp: sock_inv_def held_alive_def)
  moreover have "current_open ?t" using inv unfolding sock_inv_def current_open_def by simp
  moreover have "waits_known ?t"
    by (rule waits_knownI) (use sock_invD_waits [OF inv] in \<open>auto split: if_splits\<close>)
  moreover have "closing_told ?t" using inv by (auto simp: sock_inv_def closing_told_def)
  moreover have "guards_counted ?t" using inv unfolding sock_inv_def guards_counted_def g by auto
  moreover have "ended_once ?t" using inv unfolding sock_inv_def ended_once_def g by auto
  ultimately show ?thesis by (simp add: sock_inv_def)
qed

lemma bump_simps [simp]:
  "rs_closing (bump_cancel_epoch k R) = rs_closing R" "rs_fd (bump_cancel_epoch k R) = rs_fd R"
  "rs_inflight (bump_cancel_epoch k R) = rs_inflight R" "rs_handle k' (bump_cancel_epoch k R) = rs_handle k' R"
  by (simp_all add: bump_cancel_epoch_def rs_handle_def)

lemma take_handle_simps [simp]:
  "fst (take_handle k R) = rs_handle k R" "rs_closing (snd (take_handle k R)) = rs_closing R"
  "rs_fd (snd (take_handle k R)) = rs_fd R" "rs_inflight (snd (take_handle k R)) = rs_inflight R"
  "rs_handle k' (snd (take_handle k R)) = (if k' = k then None else rs_handle k' R)"
  by (auto simp: take_handle_def rs_handle_def)

lemma put_commutes:
  "tell_cancel hs (put_task j t (put_res r R s)) = put_task j t (put_res r R (tell_cancel hs s))"
  "put_task j t (put_res r R s) = put_res r R (put_task j t s)"
  by (simp_all add: tell_cancel_def put_task_def put_res_def)

lemma task_holds: "task_res (sk_task s j) = Some r \<Longrightarrow> holds s r"
  by (auto simp: holds_def)

lemma wait_holds: "wait_res (sk_wait s i) = Some r \<Longrightarrow> holds s r"
  by (auto simp: holds_def)

lemma sock_inv_close_take:
  assumes inv: "sock_inv s" and j: "sk_task s j = T_idle" shows "sock_inv (close_take j s)"
proof (cases "sk_current s")
  case (Some r)
  have "sk_res s r \<noteq> None" using sock_invD_alive(1) [OF inv, of r] Some by (simp add: holds_def)
  then show ?thesis using sock_inv_clear_current [OF inv] j Some
    by (simp add: close_take_def) (rule sock_inv_put_task, simp_all)
qed (simp add: close_take_def inv)

lemma sock_inv_close_mark:
  assumes inv: "sock_inv s" and j: "sk_task s j = T_mark r" shows "sock_inv (close_mark j r s)"
proof -
  have R: "sk_res s r = Some (deref r s)" using inv by (rule sock_inv_alive) (simp add: task_holds [of s j] j)
  have c: "sk_current s \<noteq> Some r" using inv j by (rule sock_invD_current(2))
  have "sock_inv (put_task j (T_cancel_all r) s)" by (rule sock_inv_put_task) (use inv j R in simp_all)
  then show ?thesis unfolding close_mark_def put_commutes(2)
    by (rule sock_inv_put_res) (use R c in \<open>auto simp: rs_mark_closing_def rs_handle_def\<close>)
qed

lemma sock_inv_cancel_all:
  assumes inv: "sock_inv s" and j: "sk_task s j = T_cancel_all r" shows "sock_inv (cancel_all j r s)"
proof -
  let ?R = "deref r s" and ?hs = "fst (cancel_all_handles (deref r s))"
  let ?R' = "snd (cancel_all_handles ?R)"
  have R: "sk_res s r = Some ?R" using inv by (rule sock_inv_alive) (simp add: task_holds [of s j] j)
  have "sock_inv (put_res r ?R' (tell_cancel ?hs s))"
    by (rule sock_inv_put_res [OF sock_inv_tell [OF inv]])
       (use R sock_invD_current(1) [OF inv _ R] in \<open>auto simp: cancel_all_handles_def rs_handle_def split: if_splits\<close>)
  then have "sock_inv (put_task j T_idle (put_res r ?R' (tell_cancel ?hs s)))"
    by (rule sock_inv_put_task) (use j in \<open>auto simp: cancel_all_handles_def rs_handle_def\<close>)
  then show ?thesis by (simp add: cancel_all_def Let_def case_prod_unfold put_commutes(1))
qed

lemma sock_inv_cancel_task:
  assumes inv: "sock_inv s" and j: "sk_task s j = T_idle" and c: "sk_current s = Some r"
    and t: "t = T_cancel_all r \<or> t = T_cancel r k"
  shows "sock_inv (put_task j t s)"
proof -
  have "sk_res s r \<noteq> None" using sock_invD_alive(1) [OF inv, of r] c by (simp add: holds_def)
  then show ?thesis by (intro sock_inv_put_task) (use inv j t in auto)
qed

lemma sock_inv_cancel_bump:
  assumes inv: "sock_inv s" and j: "sk_task s j = T_cancel r k" shows "sock_inv (cancel_bump j r k s)"
proof -
  let ?R = "deref r s"
  have R: "sk_res s r = Some ?R" using inv by (rule sock_inv_alive) (simp add: task_holds [of s j] j)
  have "sock_inv (put_res r (bump_cancel_epoch k ?R) s)"
    by (rule sock_inv_put_res [OF inv R])
       (use sock_invD_current(1) [OF inv _ R] sock_invD_told [OF inv R] in auto)
  then show ?thesis unfolding cancel_bump_def by (rule sock_inv_put_task) (use j in simp_all)
qed

lemma sock_inv_cancel_take:
  assumes inv: "sock_inv s" and j: "sk_task s j = T_bumped r k" shows "sock_inv (cancel_take j r k s)"
proof -
  let ?R = "deref r s" and ?h = "set_option (rs_handle k (deref r s))"
  let ?R' = "snd (take_handle k ?R)"
  have R: "sk_res s r = Some ?R" using inv by (rule sock_inv_alive) (simp add: task_holds [of s j] j)
  have "sock_inv (put_res r ?R' (tell_cancel ?h s))"
    by (rule sock_inv_put_res [OF sock_inv_tell [OF inv], where r = r and R = ?R])
       (use R sock_invD_current(1) [OF inv _ R] sock_invD_told [OF inv R] in \<open>auto split: if_splits\<close>)
  then have "sock_inv (put_task j T_idle (put_res r ?R' (tell_cancel ?h s)))"
    by (rule sock_inv_put_task) (use j in simp_all)
  then show ?thesis by (simp add: cancel_take_def Let_def case_prod_unfold put_commutes(1))
qed

lemma sock_inv_release_begin:
  assumes inv: "sock_inv s" and j: "sk_task s j = T_idle" shows "sock_inv (snd (release_begin j s))"
proof (cases "sk_current s")
  case None
  then show ?thesis using inv by (simp add: release_begin_def)
next
  case (Some r)
  show ?thesis
  proof (cases "rs_inflight (deref r s) = 0")
    case True
    have R: "sk_res s r = Some (deref r s)" using inv by (rule sock_inv_alive) (simp add: holds_def Some)
    have g: "guards s r = {}" using sock_invD_guards(1,2) [OF inv, of r] R True by simp
    show ?thesis using Some True sock_inv_clear_current [OF inv]
      by (simp add: release_begin_def) (rule sock_inv_put_task, use j R g in simp_all)
  qed (use Some inv in \<open>simp add: release_begin_def\<close>)
qed

lemma sock_inv_release_end:
  assumes inv: "sock_inv s" and j: "sk_task s j = T_release r" shows "sock_inv (snd (release_end j r s))"
proof -
  let ?R = "deref r s" and ?hs = "fst (cancel_all_handles (rs_mark_closing (deref r s)))"
  let ?R' = "snd (release_fd (snd (cancel_all_handles (rs_mark_closing ?R))))"
  let ?s1 = "put_res r ?R' (tell_cancel ?hs s)" and ?s2 = "put_task j T_idle (put_res r ?R' (tell_cancel ?hs s))"
  have R: "sk_res s r = Some ?R" using inv by (rule sock_inv_alive) (simp add: task_holds [of s j] j)
  have c: "sk_current s \<noteq> Some r" using inv j by (rule sock_invD_current(3))
  have "sock_inv ?s1"
    by (rule sock_inv_put_res [OF sock_inv_tell [OF inv]])
       (use R c in \<open>auto simp: cancel_all_handles_def release_fd_def rs_mark_closing_def rs_handle_def split: if_splits\<close>)
  then have inv2: "sock_inv ?s2" by (rule sock_inv_put_task) (use j in simp_all)
  have "sock_inv (?s2\<lparr>sk_ended := sk_ended ?s2 @ [Released r (rs_fd ?R)]\<rparr>)" if "0 \<le> rs_fd ?R"
  proof (rule sock_inv_ended [OF inv2])
    show "r < sk_next ?s2" using sock_invD_alive(2) [OF inv, of r] R by (cases "r < sk_next s") auto
    show "r \<notin> end_of ` set (sk_ended ?s2)" using sock_invD_guards(5) [OF inv _ R] that by auto
    show "guards ?s2 r = {}" using sock_invD_guards(3) [OF inv j] by simp
  qed (simp_all add: release_fd_def)
  moreover have "fst (release_fd (snd (cancel_all_handles (rs_mark_closing ?R)))) = rs_fd ?R"
    by (simp add: release_fd_def cancel_all_handles_def rs_mark_closing_def)
  ultimately show ?thesis using inv2 by (simp add: release_end_def Let_def case_prod_unfold put_commutes(1))
qed

lemma sock_inv_destroy:
  assumes inv: "sock_inv s" and r: "sk_res s r \<noteq> None" "\<not> holds s r" shows "sock_inv (rs_destroy r s)"
proof -
  let ?R = "deref r s" and ?hs = "fst (cancel_all_handles (deref r s))"
  have R: "sk_res s r = Some ?R" using r(1) by (simp add: deref_def)
  let ?s1 = "tell_cancel ?hs (s\<lparr>sk_res := (sk_res s)(r := None)\<rparr>)"
  have inv1: "sock_inv ?s1" using sock_inv_drop [OF inv r(2)] by (rule sock_inv_tell)
  have "sock_inv (?s1\<lparr>sk_ended := sk_ended ?s1 @ [Closed r (rs_fd ?R)]\<rparr>)" if "0 \<le> rs_fd ?R"
  proof (rule sock_inv_ended [OF inv1])
    show "r < sk_next ?s1" using sock_invD_alive(2) [OF inv, of r] R by (cases "r < sk_next s") auto
    show "r \<notin> end_of ` set (sk_ended ?s1)" using sock_invD_guards(5) [OF inv _ R] that by auto
    show "guards ?s1 r = {}" using guards_holds r(2) by auto
  qed simp_all
  moreover have "fst (release_fd (snd (cancel_all_handles ?R))) = rs_fd ?R"
    by (simp add: release_fd_def cancel_all_handles_def)
  ultimately show ?thesis using inv1 by (simp add: rs_destroy_def Let_def case_prod_unfold)
qed

lemma sock_inv_wait_acquire:
  assumes inv: "sock_inv s" and i: "sk_wait s i = W_idle" shows "sock_inv (wait_acquire i k s)"
proof (cases "sk_current s")
  case None
  then show ?thesis by (simp add: wait_acquire_def) (rule sock_inv_put_wait [OF inv], use i in simp_all)
next
  case (Some r)
  have "sk_res s r \<noteq> None" using sock_invD_alive(1) [OF inv, of r] Some by (simp add: holds_def)
  then show ?thesis using Some by (simp add: wait_acquire_def) (rule sock_inv_put_wait [OF inv], use i in simp_all)
qed

lemma sock_inv_wait_begin:
  assumes inv: "sock_inv s" and i: "sk_wait s i = W_holding r" shows "sock_inv (wait_begin i r k s)"
proof (cases "sk_current s \<noteq> Some r \<or> rs_closing (deref r s) \<or> rs_fd (deref r s) < 0")
  case True
  have "sock_inv (put_wait i (W_done x) s)" for x by (rule sock_inv_put_wait [OF inv]) (use i in simp_all)
  then show ?thesis using True by (simp add: wait_begin_def make_operation_guard_def)
next
  case False
  let ?R = "deref r s"
  have R: "sk_res s r = Some ?R" using inv by (rule sock_inv_alive) (simp add: wait_holds [of s i] i)
  have "sock_inv (put_wait i (W_guarded r k) (put_res r (?R\<lparr>rs_inflight := rs_inflight ?R + 1\<rparr>) s))"
    by (rule sock_inv_guard [OF inv _ _ R]) (use i False in simp_all)
  then show ?thesis using False by (simp add: wait_begin_def make_operation_guard_def add_inflight_def)
qed

lemma sock_inv_wait_epoch:
  assumes inv: "sock_inv s" and i: "sk_wait s i = W_guarded r k" shows "sock_inv (wait_epoch i r k s)"
proof -
  have "sk_res s r \<noteq> None" using sock_invD_alive(1) [OF inv wait_holds, of i] i by simp
  then show ?thesis unfolding wait_epoch_def by (intro sock_inv_put_wait [OF inv]) (use i in simp_all)
qed

lemma sock_inv_complete:
  assumes inv: "sock_inv s" and i: "sk_wait s i = W_waiting r k h" shows "sock_inv (put_wait i (W_resumed r x) s)"
proof -
  have "sk_res s r \<noteq> None" using sock_invD_alive(1) [OF inv wait_holds, of i] i by simp
  then show ?thesis by (intro sock_inv_put_wait [OF inv]) (use i in simp_all)
qed

lemma sock_inv_wait_end:
  assumes inv: "sock_inv s" and i: "sk_wait s i = W_resumed r x" shows "sock_inv (wait_end i r x s)"
proof -
  let ?R = "deref r s"
  have R: "sk_res s r = Some ?R" using inv by (rule sock_inv_alive) (simp add: wait_holds [of s i] i)
  have "i \<in> guards s r" using i by (simp add: guards_def)
  then have "rs_inflight ?R \<noteq> 0" using sock_invD_guards(1,2) [OF inv, of r] R by auto
  then have "sock_inv (put_wait i (W_done y) (put_res r (?R\<lparr>rs_inflight := rs_inflight ?R - 1\<rparr>) s))" for y
    by (intro sock_inv_guard [OF inv _ _ R]) (use i in simp_all)
  then show ?thesis by (simp add: wait_end_def Let_def remove_inflight_def)
qed

lemma one_registered_other:
  assumes "one_registered f" "is_registered (f i)" "\<not> is_registered p"
  shows "\<not> is_registered ((f(i := p)) j)"
proof (cases "j = i")
  case False
  have "is_registered (f j) \<Longrightarrow> j = i" using assms(1,2) unfolding one_registered_def Uniq_def by blast
  then show ?thesis using False by auto
qed (use assms in simp)

lemma sock_inv_wait_register:
  assumes inv: "sock_inv s" and i: "sk_wait s i = W_epoch r k e"
    and none: "\<And>j r k e h. sk_wait s j \<noteq> W_registered r k e h"
  shows "sock_inv (wait_register i r k e s)" (is "sock_inv ?t")
proof -
  let ?h = "sk_handles s"
  let ?s1 = "tell_cancel (replaced r k s) (s\<lparr>sk_handles := ?h + 1\<rparr>)"
  have t: "?t = put_wait i (W_registered r k e ?h) ?s1" by (simp add: wait_register_def Let_def)
  have "sock_inv (s\<lparr>sk_handles := ?h + 1\<rparr>)"
    using inv by (simp add: sock_inv_def held_alive_def current_open_def waits_known_def closing_told_def
        guards_counted_def ended_once_def)
  then have inv1: "sock_inv ?s1" by (rule sock_inv_tell)
  have g: "guards ?t q = guards ?s1 q" for q unfolding t by (rule guards_put_wait_same) (simp add: i)
  have hold: "holds s q" if "holds ?t q" for q
    using that holds_put_wait [of i "W_registered r k e ?h" ?s1 q] wait_holds [of s i] i by (auto simp: t)
  have "held_alive ?t" using sock_invD_alive [OF inv] hold by (simp add: held_alive_def t)
  moreover have "waits_known ?t"
  proof (rule waits_knownI)
    fix i' q k' h' Q assume "sk_wait ?t i' = W_waiting q k' h'" "sk_res ?t q = Some Q"
    then show "h' \<in> sk_cancelled ?t \<or> rs_handle k' Q = Some h'"
      using sock_invD_waits(1) [OF inv1, of i' q k' h' Q] by (auto simp: t split: if_splits)
  next
    have "is_registered (sk_wait s j) \<Longrightarrow> False" for j using none [of j] by (cases "sk_wait s j") auto
    then show "one_registered (sk_wait ?t)" unfolding one_registered_def Uniq_def t by (auto split: if_splits)
  next
    fix i' j q k' e' h' h'' assume "sk_wait ?t i' = W_registered q k' e' h'" "sk_wait ?t j = W_waiting q k' h''"
    then have "q = r" "k' = k" "sk_wait s j = W_waiting q k' h''" using none by (auto simp: t split: if_splits)
    then show "h'' \<in> sk_cancelled ?t" by (auto simp: t replaced_def)
  qed
  moreover have "current_open ?t" "closing_told ?t" using inv1 by (simp_all add: t sock_inv_def current_open_def closing_told_def)
  moreover have "guards_counted ?t" "ended_once ?t"
    using inv1 unfolding sock_inv_def guards_counted_def ended_once_def g by (simp_all add: t)
  ultimately show ?thesis by (simp add: sock_inv_def)
qed

lemma set_handle_facts:
  assumes "set_handle k h e R = (rej, R')"
  shows "rs_closing R' = rs_closing R" "rs_fd R' = rs_fd R" "rs_inflight R' = rs_inflight R"
    "rej = Some h \<and> R' = R \<or> rej = None \<and> rs_handle k R' = Some h \<and> \<not> rs_closing R"
    "k' \<noteq> k \<Longrightarrow> rs_handle k' R' = rs_handle k' R"
  using assms by (auto simp: set_handle_def set_read_handle_def set_write_handle_def rs_handle_def split: if_splits)

lemma sock_inv_wait_set_handle:
  assumes inv: "sock_inv s" and i: "sk_wait s i = W_registered r k e h"
  shows "sock_inv (wait_set_handle i r k e h s)" (is "sock_inv ?t")
proof -
  let ?R = "deref r s"
  obtain rej R' where sh: "set_handle k h e ?R = (rej, R')" by fastforce
  note f = set_handle_facts [OF sh]
  let ?s1 = "tell_cancel (set_option rej) (put_res r R' s)"
  have t: "?t = put_wait i (W_waiting r k h) ?s1" by (simp add: wait_set_handle_def sh)
  have R: "sk_res s r = Some ?R" using inv by (rule sock_inv_alive) (simp add: wait_holds [of s i] i)
  have g: "guards ?t q = guards s q" for q unfolding t by (subst guards_put_wait_same) (simp_all add: i)
  have res: "sk_res ?t = (sk_res s)(r \<mapsto> R')" "sk_cancelled ?t = sk_cancelled s \<union> set_option rej"
    "sk_current ?t = sk_current s" "sk_task ?t = sk_task s" "sk_next ?t = sk_next s" "sk_ended ?t = sk_ended s"
    "sk_wait ?t = (sk_wait s)(i := W_waiting r k h)" by (simp_all add: t)
  have hold: "holds ?t q \<Longrightarrow> holds s q" for q using holds_put_wait [of i "W_waiting r k h" ?s1 q] wait_holds [of s i] i
    by (auto simp: t)
  have "r < sk_next s" using sock_invD_alive(2) [OF inv, of r] R by (cases "r < sk_next s") auto
  then have "held_alive ?t" using sock_invD_alive [OF inv] hold unfolding held_alive_def res by auto
  moreover have "waits_known ?t"
  proof (rule waits_knownI)
    fix i' q k' h' Q assume w: "sk_wait ?t i' = W_waiting q k' h'" and Q: "sk_res ?t q = Some Q"
    show "h' \<in> sk_cancelled ?t \<or> rs_handle k' Q = Some h'"
    proof (cases "i' = i")
      case True
      then have e: "q = r" "k' = k" "h' = h" using w by (simp_all add: res)
      have "Q = R'" using Q unfolding e res by simp
      then show ?thesis using f(4) unfolding e res by auto
    next
      case False
      then have w': "sk_wait s i' = W_waiting q k' h'" using w by (simp add: res)
      show ?thesis
      proof (cases "q = r \<and> k' = k")
        case True
        then show ?thesis using sock_invD_waits(3) [OF inv i] w' by (auto simp: res)
      next
        case False
        then show ?thesis using sock_invD_waits(1) [OF inv w'] Q R f(5) by (cases "q = r") (auto simp: res)
      qed
    qed
  next
    show "one_registered (sk_wait ?t)"
      using sock_invD_waits(2) [OF inv] by (auto simp: one_registered_def Uniq_def res)
  next
    fix i' j q k' e' h1 h2 assume "sk_wait ?t i' = W_registered q k' e' h1"
    then show "h2 \<in> sk_cancelled ?t"
      using one_registered_other [OF sock_invD_waits(2) [OF inv], of i "W_waiting r k h" i'] i by (auto simp: res split: if_splits)
  qed
  moreover have "current_open ?t" 
    by (rule current_open_cong [OF _ _ _ current_open_put_res [OF sock_inv_parts(1) [OF inv] R f(1,2)]]) (simp_all add: res)
  moreover have "closing_told ?t"
  proof -
    have "rs_closing ?R \<Longrightarrow> rs_handle k' R' = rs_handle k' ?R" for k' using f(4) by auto
    from closing_told_put_res [OF sock_inv_parts(2) [OF inv] R f(1) this] show ?thesis
      by (rule closing_told_cong [rotated 2]) (simp_all add: res)
  qed
  moreover have "guards_counted ?t" using sock_invD_guards(1-3) [OF inv] R f(3) unfolding guards_counted_def g res by auto
  moreover have "ended_once ?t" using ended_once_put_res [OF _ R f(2)] inv unfolding sock_inv_def ended_once_def g res by simp
  ultimately show ?thesis by (simp add: sock_inv_def)
qed

lemma sock_inv_share:
  assumes "sock_inv s" "sk_wait s i = W_idle" "holds s r" shows "sock_inv (put_wait i (W_holding r) s)"
  using assms(1) by (rule sock_inv_put_wait) (use assms sock_invD_alive(1) [OF assms(1)] in simp_all)

lemma sock_inv_reset:
  assumes "sock_inv s" "guard_res (sk_wait s i) = None" shows "sock_inv (put_wait i W_idle s)"
  using assms(1) by (rule sock_inv_put_wait) (use assms(2) in simp_all)

lemma sock_inv_operation_end:
  assumes inv: "sock_inv s" and i: "sk_wait s i = W_guarded r k" shows "sock_inv (operation_end i r s)"
proof -
  have R: "sk_res s r = Some (deref r s)" using inv by (rule sock_inv_alive) (simp add: wait_holds [of s i] i)
  have "rs_inflight (deref r s) = card (guards s r)" using sock_invD_guards(2) [OF inv R] .
  moreover have "i \<in> guards s r" by (simp add: guards_def i)
  ultimately have "0 < rs_inflight (deref r s)" using sock_invD_guards(1) [OF inv, of r] by (auto simp: card_gt_0_iff)
  then show ?thesis unfolding operation_end_def remove_inflight_def
    by (intro sock_inv_guard [OF inv _ _ R]) (simp_all add: i)
qed

lemma sock_inv_adopt: "sock_inv s \<Longrightarrow> 0 \<le> fd \<Longrightarrow> adopt_fd fd e k s = (x, cl, t) \<Longrightarrow> sock_inv t"
  using sock_inv_install [of s fd] by (auto simp: adopt_fd_def split: option.splits if_splits)

lemma sock_inv_step:
  assumes "sock_step s t" "sock_inv s" shows "sock_inv t"
  using assms
proof (induction rule: sock_step.induct)
  case (open_ a e k s x cl t)
  then show ?case using sock_inv_adopt by (auto simp: socket_open_def split: if_splits sum.splits)
next
  case (assign fd e k s x cl t)
  then show ?case using sock_inv_adopt by (simp add: assign_end_def)
next
  case (cancel s j)
  then show ?case using sock_inv_cancel_task by (simp add: sk_cancel_def split: option.split)
next
  case (cancel_kind s j k)
  then show ?case using sock_inv_cancel_task by (simp add: sk_cancel_kind_def split: option.split)
next
  case (register s i r k e)
  then show ?case by (intro sock_inv_wait_register)
qed (simp_all add: sock_inv_close_take sock_inv_close_mark sock_inv_cancel_all sock_inv_cancel_bump sock_inv_cancel_take
    sock_inv_release_begin sock_inv_release_end sock_inv_destroy sock_inv_wait_acquire sock_inv_wait_begin
    sock_inv_wait_epoch sock_inv_wait_set_handle sock_inv_complete sock_inv_wait_end
    sock_inv_share sock_inv_reset sock_inv_operation_end)

interpretation sock: inductive_invariant "\<lambda>s. s = sock_init" sock_step sock_inv
  by unfold_locales (simp_all add: sock_inv_init sock_inv_step)

section \<open>Running an interleaving\<close>

datatype sock_label = S_open int | S_close nat | S_mark nat | S_cancel nat | S_cancel_all nat | S_acquire nat
  | S_begin nat bool | S_epoch nat | S_register nat | S_set nat

text \<open>Only one wait is ever at the registered stage in these runs.\<close>

fun sock_do :: "sock_label \<Rightarrow> sock \<Rightarrow> sock option" where
  "sock_do (S_open fd) s = (if 0 \<le> fd then Some (snd (snd (socket_open (Inr fd) None True s))) else None)"
| "sock_do (S_close j) s = (if sk_task s j = T_idle then Some (close_take j s) else None)"
| "sock_do (S_mark j) s = (case sk_task s j of T_mark r \<Rightarrow> Some (close_mark j r s) | _ \<Rightarrow> None)"
| "sock_do (S_cancel j) s = (if sk_task s j = T_idle then Some (sk_cancel j s) else None)"
| "sock_do (S_cancel_all j) s = (case sk_task s j of T_cancel_all r \<Rightarrow> Some (cancel_all j r s) | _ \<Rightarrow> None)"
| "sock_do (S_acquire i) s = (if sk_wait s i = W_idle then Some (wait_acquire i True s) else None)"
| "sock_do (S_begin i k) s = (case sk_wait s i of W_holding r \<Rightarrow> Some (wait_begin i r k s) | _ \<Rightarrow> None)"
| "sock_do (S_epoch i) s = (case sk_wait s i of W_guarded r k \<Rightarrow> Some (wait_epoch i r k s) | _ \<Rightarrow> None)"
| "sock_do (S_register i) s = (case sk_wait s i of W_epoch r k e \<Rightarrow>
     (if \<forall>j r k e h. sk_wait s j \<noteq> W_registered r k e h then Some (wait_register i r k e s) else None) | _ \<Rightarrow> None)"
| "sock_do (S_set i) s = (case sk_wait s i of W_registered r k e h \<Rightarrow> Some (wait_set_handle i r k e h s) | _ \<Rightarrow> None)"

lemma sock_do_step: "sock_do l s = Some t \<Longrightarrow> sock_step s t"
proof (cases l)
  case (S_open fd)
  assume "sock_do l s = Some t"
  then have t: "0 \<le> fd" "t = snd (snd (socket_open (Inr fd) None True s))" using S_open by (simp_all split: if_splits)
  obtain x cl where "socket_open (Inr fd) None True s = (x, cl, t)"
    unfolding t(2) by (cases "socket_open (Inr fd) None True s") auto
  then show ?thesis by (rule sock_step.open_) (use t(1) in simp)
qed (auto intro: sock_step.intros split: if_splits wait_pc.splits task_pc.splits)

interpretation sock_run: labelled_steps "\<lambda>s. s = sock_init" sock_step sock_do
  by unfold_locales (fact sock_do_step)

lemmas sock_run_simps = sock_init_def socket_open_def adopt_fd_def sk_install_def fd_resource_init_def close_take_def
  close_mark_def rs_mark_closing_def cancel_all_def cancel_all_handles_def sk_cancel_def wait_acquire_def wait_begin_def
  make_operation_guard_def add_inflight_def wait_epoch_def rs_cancel_epoch_def wait_register_def replaced_def
  wait_set_handle_def set_handle_def set_read_handle_def deref_def ok_def fail_def Let_def

section \<open>Properties\<close>

text \<open>
  (C4) Closing reaches every wait: once the descriptor is marked closing and no thread is
  still busy with it, the handle of every coroutine that waits on it has been cancelled,
  however the registration and the closing were interleaved; and no coroutine that starts
  afterwards begins to wait on it.
\<close>

theorem close_reaches_every_wait:
  assumes "reach (\<lambda>s. s = sock_init) sock_step s"
    and "sk_res s r = Some R" "rs_closing R" "\<And>j. task_res (sk_task s j) \<noteq> Some r"
  shows "(sk_wait s i = W_waiting r is_read h \<longrightarrow> h \<in> sk_cancelled s) \<and> sk_current s \<noteq> Some r \<and>
    fst (make_operation_guard (Some r) s) = False"
proof -
  have inv: "sock_inv s" using assms(1) by (rule sock.reach_inv)
  have "sk_task s j \<noteq> T_cancel_all r" for j using assms(4) [of j] by auto
  then have "rs_handle is_read R = None" using sock_invD_told [OF inv assms(2,3)] by blast
  then have "sk_wait s i = W_waiting r is_read h \<longrightarrow> h \<in> sk_cancelled s"
    using sock_invD_waits(1) [OF inv _ assms(2), of i is_read h] by auto
  moreover have "sk_current s \<noteq> Some r" using sock_invD_current(1) [OF inv _ assms(2)] assms(3) by blast
  ultimately show ?thesis by (simp add: make_operation_guard_def)
qed

definition close_race :: "sock_label list" where
  "close_race = [S_open 7, S_acquire 0, S_begin 0 True, S_epoch 0, S_close 1, S_register 0, S_mark 1, S_cancel_all 1, S_set 0]"

theorem close_reaches_every_wait_witness:
  "\<exists>s. do_all sock_do close_race sock_init = Some s \<and> sk_wait s 0 = W_waiting 0 True 0 \<and> 0 \<in> sk_cancelled s"
proof -
  obtain s where s: "do_all sock_do close_race sock_init = Some s" "sk_wait s 0 = W_waiting 0 True 0"
    "sk_res s 0 = Some \<lparr>rs_fd = 7, rs_closing = True, rs_inflight = 1, rs_read_epoch = 0, rs_write_epoch = 0,
       rs_read_handle = None, rs_write_handle = None\<rparr>" "sk_task s = (\<lambda>_. T_idle)"
    by (simp add: close_race_def sock_run_simps fun_eq_iff)
  have "reach (\<lambda>s. s = sock_init) sock_step s" using reach_start s(1) by (rule sock_run.do_all_reach) simp
  from close_reaches_every_wait [OF this s(3), of 0 True 0] show ?thesis using s by auto
qed



text \<open>
  \<open>cancel()\<close> takes the handles without touching the cancel epochs: a coroutine that has
  started its wait and is between reading the epoch and storing its handle is not
  cancelled, and goes on waiting.
\<close>

lemma cancel_misses_registration:
  "\<exists>s. reach (\<lambda>s. s = sock_init) sock_step s \<and>
     do_all sock_do [S_open 7, S_acquire 0, S_begin 0 True, S_epoch 0, S_cancel 1, S_cancel_all 1, S_register 0, S_set 0]
       sock_init = Some s \<and> sk_wait s 0 = W_waiting 0 True 0 \<and> sk_cancelled s = {}"
proof -
  let ?ls = "[S_open 7, S_acquire 0, S_begin 0 True, S_epoch 0, S_cancel 1, S_cancel_all 1, S_register 0, S_set 0]"
  obtain s where s: "do_all sock_do ?ls sock_init = Some s" "sk_wait s 0 = W_waiting 0 True 0" "sk_cancelled s = {}"
    by (simp add: sock_run_simps fun_eq_iff)
  have "reach (\<lambda>s. s = sock_init) sock_step s" using reach_start s(1) by (rule sock_run.do_all_reach) simp
  then show ?thesis using s by blast
qed

end
