(* ===== verification/StreamSocket.thy ===== *)
theory StreamSocket
  imports SocketBase
begin

text \<open>
  \<open>detail/socket/op_state.hpp\<close>, \<open>detail/socket/stream_socket_impl.hpp\<close> and
  \<open>impl/socket/stream_socket_impl.ipp\<close>: connecting, reading and writing on a stream socket, with
  any number of coroutines and threads, on top of the descriptor's shared ownership.

  Operation \<open>i\<close> is a machine whose steps end where another thread may act in a way it can
  notice: around a check of the cancellation epoch, a system call, a wait and the store of the
  connection state. The waits of the base at the places \<open>2 * i\<close> and \<open>2 * i + 1\<close> belong to it: the
  first stands for its reference and operation guard, the second for the readiness wait it
  awaits. What the kernel answers to a system call is an argument of the step: \<open>Inl\<close> is an
  \<open>errno\<close>. A connect that succeeds returns 0 here.
\<close>

section \<open>op_state\<close>

record op_state =
  os_epoch :: u64
  os_active :: bool

definition op_state_init :: op_state where
  "op_state_init = \<lparr>os_epoch = 0, os_active = False\<rparr>"

definition try_start :: "op_state \<Rightarrow> u64 option \<times> op_state" where
  "try_start os = (if os_active os then (None, os) else (Some (os_epoch os), os\<lparr>os_active := True\<rparr>))"

definition op_finish :: "op_state \<Rightarrow> op_state" where
  "op_finish os = os\<lparr>os_active := False\<rparr>"

definition op_cancel :: "op_state \<Rightarrow> op_state" where
  "op_cancel os = os\<lparr>os_epoch := os_epoch os + 1\<rparr>"

definition is_epoch_current :: "u64 \<Rightarrow> op_state \<Rightarrow> bool" where
  "is_epoch_current v os \<longleftrightarrow> os_epoch os = v"

section \<open>State\<close>

datatype conn_state = Disconnected | Connecting | Connected

datatype shutdown_type = Receive | Send | Both

datatype op_kind = Connect | Read | Write

datatype op_pc =
    O_idle
  | O_begun op_kind nat           \<comment> \<open>holds the resource\<close>
  | O_checked op_kind nat         \<comment> \<open>open, before the operation guard\<close>
  | O_guarded op_kind nat         \<comment> \<open>before the state is read and \<open>try_start\<close>\<close>
  | O_check op_kind nat u64       \<comment> \<open>top of the loop\<close>
  | O_call op_kind nat u64        \<comment> \<open>before the system call\<close>
  | O_wait op_kind nat u64        \<comment> \<open>awaits readiness\<close>
  | O_recheck op_kind nat u64     \<comment> \<open>readiness reported\<close>
  | O_so_error nat u64            \<comment> \<open>before \<open>getsockopt(SO_ERROR)\<close>\<close>
  | O_last nat u64                \<comment> \<open>before the last check of a connect\<close>
  | O_commit nat u64              \<comment> \<open>before the store of \<open>connected\<close>\<close>
  | O_finish op_kind nat "nat result"
  | O_drop nat "nat result"       \<comment> \<open>before the operation guard is dropped\<close>
  | O_done "nat result"

datatype st_task =
    ST_idle
  | ST_close_bumped               \<comment> \<open>epochs bumped, before the stores of \<open>close()\<close>\<close>
  | ST_close_stored               \<comment> \<open>before \<open>base_.close()\<close>\<close>
  | ST_cancel "bool option"       \<comment> \<open>epochs bumped, before the cancel of the base\<close>

record stream_socket =
  ss_base :: sock
  ss_read :: op_state
  ss_write :: op_state
  ss_connect :: op_state
  ss_state :: conn_state
  ss_shut_read :: bool
  ss_shut_write :: bool
  ss_op :: "nat \<Rightarrow> op_pc"
  ss_task :: "nat \<Rightarrow> st_task"

definition stream_init :: stream_socket where
  "stream_init = \<lparr>ss_base = sock_init, ss_read = op_state_init, ss_write = op_state_init, ss_connect = op_state_init,
     ss_state = Disconnected, ss_shut_read = False, ss_shut_write = False, ss_op = (\<lambda>_. O_idle), ss_task = (\<lambda>_. ST_idle)\<rparr>"

fun op_of :: "op_kind \<Rightarrow> stream_socket \<Rightarrow> op_state" where
  "op_of Connect s = ss_connect s"
| "op_of Read s = ss_read s"
| "op_of Write s = ss_write s"

fun put_op :: "op_kind \<Rightarrow> op_state \<Rightarrow> stream_socket \<Rightarrow> stream_socket" where
  "put_op Connect os s = s\<lparr>ss_connect := os\<rparr>"
| "put_op Read os s = s\<lparr>ss_read := os\<rparr>"
| "put_op Write os s = s\<lparr>ss_write := os\<rparr>"

definition put_pc :: "nat \<Rightarrow> op_pc \<Rightarrow> stream_socket \<Rightarrow> stream_socket" where
  "put_pc i p s = s\<lparr>ss_op := (ss_op s)(i := p)\<rparr>"

definition put_base :: "sock \<Rightarrow> stream_socket \<Rightarrow> stream_socket" where
  "put_base b s = s\<lparr>ss_base := b\<rparr>"

definition put_st_task :: "nat \<Rightarrow> st_task \<Rightarrow> stream_socket \<Rightarrow> stream_socket" where
  "put_st_task j t s = s\<lparr>ss_task := (ss_task s)(j := t)\<rparr>"

definition set_state :: "conn_state \<Rightarrow> stream_socket \<Rightarrow> stream_socket" where
  "set_state c s = s\<lparr>ss_state := c\<rparr>"

definition clear_shutdown :: "stream_socket \<Rightarrow> stream_socket" where
  "clear_shutdown s = s\<lparr>ss_shut_read := False, ss_shut_write := False\<rparr>"

text \<open>\<open>!is_epoch_current(my_epoch) || res->closing()\<close>\<close>

definition stale :: "op_kind \<Rightarrow> nat \<Rightarrow> u64 \<Rightarrow> stream_socket \<Rightarrow> bool" where
  "stale k r e s \<longleftrightarrow> \<not> is_epoch_current e (op_of k s) \<or> rs_closing (deref r (ss_base s))"

text \<open>A return after \<open>try_start\<close>: a connect that fails leaves the socket disconnected.\<close>

definition give_up :: "nat \<Rightarrow> op_kind \<Rightarrow> nat \<Rightarrow> error_code \<Rightarrow> stream_socket \<Rightarrow> stream_socket" where
  "give_up i k r ec s = put_pc i (O_finish k r (fail ec)) (if k = Connect then set_state Disconnected s else s)"

section \<open>The operations\<close>

definition op_begin :: "nat \<Rightarrow> op_kind \<Rightarrow> stream_socket \<Rightarrow> stream_socket" where
  "op_begin i k s =
     (case sk_current (ss_base s) of
        None \<Rightarrow> put_pc i (O_done (fail_with not_open)) s
      | Some r \<Rightarrow> put_pc i (O_begun k r) (put_base (wait_acquire (2 * i) True (ss_base s)) s))"

definition leave_unguarded :: "nat \<Rightarrow> nat result \<Rightarrow> stream_socket \<Rightarrow> stream_socket" where
  "leave_unguarded i x s = put_pc i (O_done x) (put_base (put_wait (2 * i) W_idle (ss_base s)) s)"

definition op_open_check :: "nat \<Rightarrow> op_kind \<Rightarrow> nat \<Rightarrow> stream_socket \<Rightarrow> stream_socket" where
  "op_open_check i k r s =
     (let R = deref r (ss_base s)
      in if rs_fd R < 0 then leave_unguarded i (fail_with not_open) s
         else if k = Connect \<and> rs_closing R then leave_unguarded i (fail_with operation_aborted) s
         else put_pc i (O_checked k r) s)"

definition op_guard :: "nat \<Rightarrow> op_kind \<Rightarrow> nat \<Rightarrow> stream_socket \<Rightarrow> stream_socket" where
  "op_guard i k r s =
     (let (inflight, b) = make_operation_guard (Some r) (ss_base s)
      in if \<not> inflight then leave_unguarded i (fail_with operation_aborted) s
         else put_pc i (O_guarded k r) (put_base (put_wait (2 * i) (W_guarded r True) b) s))"

definition start_connect :: "nat \<Rightarrow> nat \<Rightarrow> stream_socket \<Rightarrow> stream_socket" where
  "start_connect i r s =
     (if ss_state s = Connecting then put_pc i (O_drop r (fail_with busy)) s
      else if ss_state s = Connected then put_pc i (O_drop r (fail_with already_connected)) s
      else case try_start (ss_connect s) of
             (None, _) \<Rightarrow> put_pc i (O_drop r (fail_with busy)) s
           | (Some e, os) \<Rightarrow> put_pc i (O_check Connect r e) (clear_shutdown (set_state Connecting (put_op Connect os s))))"

text \<open>\<open>async_read_some\<close> and \<open>async_write_some\<close> on a span of \<open>len\<close> bytes.\<close>

definition start_io :: "nat \<Rightarrow> op_kind \<Rightarrow> nat \<Rightarrow> nat \<Rightarrow> stream_socket \<Rightarrow> stream_socket" where
  "start_io i k r len s =
     (if ss_state s \<noteq> Connected then put_pc i (O_drop r (fail_with not_connected)) s
      else if k = Read \<and> ss_shut_read s then put_pc i (O_drop r (Inr 0)) s
      else if k = Write \<and> ss_shut_write s then put_pc i (O_drop r (fail_with broken_pipe)) s
      else case try_start (op_of k s) of
             (None, _) \<Rightarrow> put_pc i (O_drop r (fail_with busy)) s
           | (Some e, os) \<Rightarrow>
               put_pc i (if len = 0 then O_finish k r (Inr 0) else O_check k r e) (put_op k os s))"

definition op_check :: "nat \<Rightarrow> op_kind \<Rightarrow> nat \<Rightarrow> u64 \<Rightarrow> stream_socket \<Rightarrow> stream_socket" where
  "op_check i k r e s =
     (if stale k r e s then give_up i k r (make_error_code operation_aborted) s else put_pc i (O_call k r e) s)"

definition op_begin_wait :: "nat \<Rightarrow> op_kind \<Rightarrow> nat \<Rightarrow> u64 \<Rightarrow> stream_socket \<Rightarrow> stream_socket" where
  "op_begin_wait i k r e s = put_pc i (O_wait k r e) (put_base (put_wait (2 * i + 1) (W_holding r) (ss_base s)) s)"

definition call_connect :: "nat \<Rightarrow> nat \<Rightarrow> u64 \<Rightarrow> int + unit \<Rightarrow> stream_socket \<Rightarrow> stream_socket" where
  "call_connect i r e answer s =
     (case answer of
        Inr _ \<Rightarrow> put_pc i (O_commit r e) s
      | Inl errno \<Rightarrow>
          if errno = EINTR then put_pc i (O_check Connect r e) s
          else if errno = EISCONN then put_pc i (O_commit r e) s
          else if errno = EINPROGRESS \<or> errno = EALREADY \<or> errno = EAGAIN then op_begin_wait i Connect r e s
          else give_up i Connect r (map_socket_errno errno) s)"

definition call_io :: "nat \<Rightarrow> op_kind \<Rightarrow> nat \<Rightarrow> u64 \<Rightarrow> int + nat \<Rightarrow> stream_socket \<Rightarrow> stream_socket" where
  "call_io i k r e answer s =
     (case answer of
        Inr n \<Rightarrow> put_pc i (O_finish k r (Inr n)) s
      | Inl errno \<Rightarrow>
          if errno = EINTR then put_pc i (O_check k r e) s
          else if errno = EAGAIN \<or> errno = EWOULDBLOCK then op_begin_wait i k r e s
          else give_up i k r (map_socket_errno errno) s)"

definition op_waited :: "nat \<Rightarrow> op_kind \<Rightarrow> nat \<Rightarrow> u64 \<Rightarrow> unit result \<Rightarrow> stream_socket \<Rightarrow> stream_socket" where
  "op_waited i k r e wait_r s =
     (let s1 = put_base (put_wait (2 * i + 1) W_idle (ss_base s)) s
      in case wait_r of
           Inr _ \<Rightarrow> put_pc i (O_recheck k r e) s1
         | Inl ec \<Rightarrow>
             if k = Connect then
               if ec \<noteq> make_error_code eof \<and> ec \<noteq> make_error_code connection_reset then give_up i k r ec s1
               else put_pc i (O_recheck k r e) s1
             else if k = Read \<and> ec = make_error_code eof then put_pc i (O_finish k r (Inr 0)) s1
             else give_up i k r ec s1)"

definition op_recheck :: "nat \<Rightarrow> op_kind \<Rightarrow> nat \<Rightarrow> u64 \<Rightarrow> stream_socket \<Rightarrow> stream_socket" where
  "op_recheck i k r e s =
     (if stale k r e s then give_up i k r (make_error_code operation_aborted) s
      else put_pc i (if k = Connect then O_so_error r e else O_check k r e) s)"

text \<open>\<open>getsockopt\<close>: its \<open>errno\<close>, or the pending error of the socket.\<close>

definition call_so_error :: "nat \<Rightarrow> nat \<Rightarrow> u64 \<Rightarrow> int + int \<Rightarrow> stream_socket \<Rightarrow> stream_socket" where
  "call_so_error i r e answer s =
     (case answer of
        Inl errno \<Rightarrow> give_up i Connect r (map_socket_errno errno) s
      | Inr so_error \<Rightarrow>
          if so_error \<noteq> 0 then give_up i Connect r (map_socket_errno so_error) s else put_pc i (O_last r e) s)"

definition connect_last :: "nat \<Rightarrow> nat \<Rightarrow> u64 \<Rightarrow> stream_socket \<Rightarrow> stream_socket" where
  "connect_last i r e s =
     (if stale Connect r e s then give_up i Connect r (make_error_code operation_aborted) s
      else put_pc i (O_commit r e) s)"

definition connect_commit :: "nat \<Rightarrow> nat \<Rightarrow> stream_socket \<Rightarrow> stream_socket" where
  "connect_commit i r s = put_pc i (O_finish Connect r (Inr 0)) (set_state Connected s)"

text \<open>The scope guard, then the operation guard and the reference.\<close>

definition op_end :: "nat \<Rightarrow> op_kind \<Rightarrow> nat \<Rightarrow> nat result \<Rightarrow> stream_socket \<Rightarrow> stream_socket" where
  "op_end i k r x s = put_pc i (O_drop r x) (put_op k (op_finish (op_of k s)) s)"

definition op_drop :: "nat \<Rightarrow> nat \<Rightarrow> nat result \<Rightarrow> stream_socket \<Rightarrow> stream_socket" where
  "op_drop i r x s = put_pc i (O_done x) (put_base (operation_end (2 * i) r (ss_base s)) s)"

section \<open>Cancelling, closing, shutting down\<close>

definition bump_all :: "stream_socket \<Rightarrow> stream_socket" where
  "bump_all s = s\<lparr>ss_read := op_cancel (ss_read s), ss_write := op_cancel (ss_write s), ss_connect := op_cancel (ss_connect s)\<rparr>"

definition stream_cancel :: "nat \<Rightarrow> stream_socket \<Rightarrow> stream_socket" where
  "stream_cancel j s = put_st_task j (ST_cancel None) (bump_all s)"

definition stream_cancel_read :: "nat \<Rightarrow> stream_socket \<Rightarrow> stream_socket" where
  "stream_cancel_read j s = put_st_task j (ST_cancel (Some True)) (put_op Read (op_cancel (ss_read s)) s)"

definition stream_cancel_write :: "nat \<Rightarrow> stream_socket \<Rightarrow> stream_socket" where
  "stream_cancel_write j s = put_st_task j (ST_cancel (Some False)) (put_op Write (op_cancel (ss_write s)) s)"

definition stream_cancel_connect :: "nat \<Rightarrow> stream_socket \<Rightarrow> stream_socket" where
  "stream_cancel_connect j s = put_st_task j (ST_cancel (Some False)) (put_op Connect (op_cancel (ss_connect s)) s)"

definition base_cancel :: "nat \<Rightarrow> bool option \<Rightarrow> stream_socket \<Rightarrow> stream_socket" where
  "base_cancel j what s =
     put_st_task j ST_idle
       (put_base (case what of None \<Rightarrow> sk_cancel j (ss_base s) | Some is_read \<Rightarrow> sk_cancel_kind j is_read (ss_base s)) s)"

definition stream_close :: "nat \<Rightarrow> stream_socket \<Rightarrow> stream_socket" where
  "stream_close j s = put_st_task j ST_close_bumped (bump_all s)"

definition close_stores :: "nat \<Rightarrow> stream_socket \<Rightarrow> stream_socket" where
  "close_stores j s = put_st_task j ST_close_stored (clear_shutdown (set_state Disconnected s))"

definition base_close :: "nat \<Rightarrow> stream_socket \<Rightarrow> stream_socket" where
  "base_close j s = put_st_task j ST_idle (put_base (close_take j (ss_base s)) s)"

text \<open>The descriptor \<open>bind\<close> and \<open>shutdown\<close> work on.\<close>

definition usable_fd :: "sock \<Rightarrow> int result" where
  "usable_fd b =
     (case sk_current b of
        None \<Rightarrow> fail_with not_open
      | Some r \<Rightarrow>
          if rs_fd (deref r b) < 0 then fail_with not_open
          else if rs_closing (deref r b) then fail_with operation_aborted
          else Inr (rs_fd (deref r b)))"

text \<open>\<open>::bind\<close> on it, with the kernel's \<open>errno\<close> when it fails.\<close>

definition stream_bind :: "(int \<Rightarrow> int option) \<Rightarrow> stream_socket \<Rightarrow> unit result" where
  "stream_bind sys_bind s =
     (case usable_fd (ss_base s) of
        Inl ec \<Rightarrow> Inl ec
      | Inr fd \<Rightarrow> (case sys_bind fd of Some errno \<Rightarrow> fail (map_socket_errno errno) | None \<Rightarrow> ok))"

definition shutdown_how :: "shutdown_type \<Rightarrow> int" where
  "shutdown_how what = (case what of Receive \<Rightarrow> 0 | Send \<Rightarrow> 1 | Both \<Rightarrow> 2)"

definition stream_shutdown :: "(int \<Rightarrow> int \<Rightarrow> int option) \<Rightarrow> shutdown_type \<Rightarrow> stream_socket \<Rightarrow> unit result \<times> stream_socket" where
  "stream_shutdown sys_shutdown what s =
     (case usable_fd (ss_base s) of
        Inl ec \<Rightarrow> (Inl ec, s)
      | Inr fd \<Rightarrow>
          (case sys_shutdown fd (shutdown_how what) of
             Some errno \<Rightarrow> (if errno = ENOTCONN then fail_with not_connected else fail (map_socket_errno errno), s)
           | None \<Rightarrow>
               (ok, case what of
                      Receive \<Rightarrow> s\<lparr>ss_shut_read := True\<rparr>
                    | Send \<Rightarrow> s\<lparr>ss_shut_write := True\<rparr>
                    | Both \<Rightarrow> s\<lparr>ss_shut_read := True, ss_shut_write := True\<rparr>)))"

text \<open>\<open>assign\<close>: its assertions, and what it does once \<open>base_.assign\<close> has closed the previous descriptor.\<close>

definition assign_allowed :: "stream_socket \<Rightarrow> bool" where
  "assign_allowed s \<longleftrightarrow> ss_state s = Disconnected \<and>
     \<not> os_active (ss_read s) \<and> \<not> os_active (ss_write s) \<and> \<not> os_active (ss_connect s)"

definition stream_assign :: "int \<Rightarrow> int option \<Rightarrow> bool \<Rightarrow> stream_socket \<Rightarrow> unit result \<times> int list \<times> stream_socket" where
  "stream_assign fd flags_errno add_ok s =
     (case assign_end fd flags_errno add_ok (ss_base s) of
        (Inl ec, closed, b) \<Rightarrow> (Inl ec, closed, put_base b s)
      | (Inr _, closed, b) \<Rightarrow> (ok, closed, clear_shutdown (set_state Connected (put_base b s))))"

section \<open>Steps\<close>

text \<open>
  The base moves on its own account, except that it leaves alone the places of the operations
  and the waits that have not begun or are over.
\<close>

fun wait_running :: "wait_pc \<Rightarrow> bool" where
  "wait_running W_idle = False"
| "wait_running (W_done x) = False"
| "wait_running p = True"

definition base_may :: "sock \<Rightarrow> sock \<Rightarrow> bool" where
  "base_may b b' \<longleftrightarrow> sock_step b b' \<and> (\<forall>n. sk_wait b' n \<noteq> sk_wait b n \<longrightarrow> odd n \<and> wait_running (sk_wait b n))"

inductive stream_step :: "stream_socket \<Rightarrow> stream_socket \<Rightarrow> bool" where
  base: "base_may (ss_base s) b \<Longrightarrow> stream_step s (put_base b s)"
| op_begins: "ss_op s i = O_idle \<Longrightarrow> sk_wait (ss_base s) (2 * i) = W_idle \<Longrightarrow> stream_step s (op_begin i k s)"
| open_check: "ss_op s i = O_begun k r \<Longrightarrow> stream_step s (op_open_check i k r s)"
| guard: "ss_op s i = O_checked k r \<Longrightarrow> stream_step s (op_guard i k r s)"
| start_connects: "ss_op s i = O_guarded Connect r \<Longrightarrow> stream_step s (start_connect i r s)"
| start_ios: "ss_op s i = O_guarded k r \<Longrightarrow> k \<noteq> Connect \<Longrightarrow> stream_step s (start_io i k r n s)"
| check: "ss_op s i = O_check k r e \<Longrightarrow> stream_step s (op_check i k r e s)"
| connect_call: "ss_op s i = O_call Connect r e \<Longrightarrow> sk_wait (ss_base s) (2 * i + 1) = W_idle \<Longrightarrow>
    stream_step s (call_connect i r e a s)"
| io_call: "ss_op s i = O_call k r e \<Longrightarrow> k \<noteq> Connect \<Longrightarrow> sk_wait (ss_base s) (2 * i + 1) = W_idle \<Longrightarrow>
    stream_step s (call_io i k r e b s)"
| waited: "ss_op s i = O_wait k r e \<Longrightarrow> sk_wait (ss_base s) (2 * i + 1) = W_done x \<Longrightarrow> stream_step s (op_waited i k r e x s)"
| recheck: "ss_op s i = O_recheck k r e \<Longrightarrow> stream_step s (op_recheck i k r e s)"
| so_error: "ss_op s i = O_so_error r e \<Longrightarrow> stream_step s (call_so_error i r e c s)"
| last: "ss_op s i = O_last r e \<Longrightarrow> stream_step s (connect_last i r e s)"
| commit: "ss_op s i = O_commit r e \<Longrightarrow> stream_step s (connect_commit i r s)"
| finish: "ss_op s i = O_finish k r x \<Longrightarrow> stream_step s (op_end i k r x s)"
| drop: "ss_op s i = O_drop r x \<Longrightarrow> stream_step s (op_drop i r x s)"
| again: "ss_op s i = O_done x \<Longrightarrow> stream_step s (put_pc i O_idle s)"
| cancel: "ss_task s j = ST_idle \<Longrightarrow> stream_step s (stream_cancel j s)"
| cancel_read: "ss_task s j = ST_idle \<Longrightarrow> stream_step s (stream_cancel_read j s)"
| cancel_write: "ss_task s j = ST_idle \<Longrightarrow> stream_step s (stream_cancel_write j s)"
| cancel_connect: "ss_task s j = ST_idle \<Longrightarrow> stream_step s (stream_cancel_connect j s)"
| cancel_base: "ss_task s j = ST_cancel w \<Longrightarrow> sk_task (ss_base s) j = T_idle \<Longrightarrow> stream_step s (base_cancel j w s)"
| close: "ss_task s j = ST_idle \<Longrightarrow> stream_step s (stream_close j s)"
| close_store: "ss_task s j = ST_close_bumped \<Longrightarrow> stream_step s (close_stores j s)"
| close_base: "ss_task s j = ST_close_stored \<Longrightarrow> sk_task (ss_base s) j = T_idle \<Longrightarrow> stream_step s (base_close j s)"
| shutdown: "stream_step s (snd (stream_shutdown f w s))"
| assign: "assign_allowed s \<Longrightarrow> 0 \<le> fd \<Longrightarrow> stream_assign fd fe k s = (x, cl, t) \<Longrightarrow> stream_step s t"

section \<open>Invariant\<close>

text \<open>Between \<open>try_start\<close> and \<open>finish\<close>.\<close>

fun started :: "op_kind \<Rightarrow> op_pc \<Rightarrow> bool" where
  "started k (O_check k' r e) = (k' = k)"
| "started k (O_call k' r e) = (k' = k)"
| "started k (O_wait k' r e) = (k' = k)"
| "started k (O_recheck k' r e) = (k' = k)"
| "started k (O_so_error r e) = (k = Connect)"
| "started k (O_last r e) = (k = Connect)"
| "started k (O_commit r e) = (k = Connect)"
| "started k (O_finish k' r x) = (k' = k)"
| "started k p = False"

text \<open>A connect whose outcome is not stored yet.\<close>

fun connecting_pc :: "op_pc \<Rightarrow> bool" where
  "connecting_pc (O_finish k r x) = False"
| "connecting_pc p = started Connect p"

text \<open>The resource an operation works on: from its guard on.\<close>

fun guarded_res :: "op_pc \<Rightarrow> nat option" where
  "guarded_res O_idle = None"
| "guarded_res (O_begun k r) = None"
| "guarded_res (O_checked k r) = None"
| "guarded_res (O_guarded k r) = Some r"
| "guarded_res (O_check k r e) = Some r"
| "guarded_res (O_call k r e) = Some r"
| "guarded_res (O_wait k r e) = Some r"
| "guarded_res (O_recheck k r e) = Some r"
| "guarded_res (O_so_error r e) = Some r"
| "guarded_res (O_last r e) = Some r"
| "guarded_res (O_commit r e) = Some r"
| "guarded_res (O_finish k r x) = Some r"
| "guarded_res (O_drop r x) = Some r"
| "guarded_res (O_done x) = None"

fun op_slot_ok :: "op_pc \<Rightarrow> wait_pc \<Rightarrow> wait_pc \<Rightarrow> bool" where
  "op_slot_ok (O_begun k r) w w' = (w = W_holding r \<and> w' = W_idle)"
| "op_slot_ok (O_checked k r) w w' = (w = W_holding r \<and> w' = W_idle)"
| "op_slot_ok (O_wait k r e) w w' = (w = W_guarded r True)"
| "op_slot_ok p w w' = ((case guarded_res p of None \<Rightarrow> w = W_idle | Some r \<Rightarrow> w = W_guarded r True) \<and> w' = W_idle)"

definition slots_ok :: "(nat \<Rightarrow> op_pc) \<Rightarrow> (nat \<Rightarrow> wait_pc) \<Rightarrow> bool" where
  "slots_ok f w \<longleftrightarrow> (\<forall>i. op_slot_ok (f i) (w (2 * i)) (w (2 * i + 1)))"

definition excl :: "op_kind \<Rightarrow> (nat \<Rightarrow> op_pc) \<Rightarrow> bool \<Rightarrow> bool" where
  "excl k f active \<longleftrightarrow> (\<exists>\<^sub>\<le>\<^sub>1 i. started k (f i)) \<and> (active \<longleftrightarrow> (\<exists>i. started k (f i)))"

definition conn_ok :: "(nat \<Rightarrow> op_pc) \<Rightarrow> conn_state \<Rightarrow> bool" where
  "conn_ok f c \<longleftrightarrow> (c = Connecting \<longrightarrow> (\<exists>i. connecting_pc (f i)))"

definition stream_inv :: "stream_socket \<Rightarrow> bool" where
  "stream_inv s \<longleftrightarrow> sock_inv (ss_base s) \<and> slots_ok (ss_op s) (sk_wait (ss_base s)) \<and>
     (\<forall>k. excl k (ss_op s) (os_active (op_of k s))) \<and> conn_ok (ss_op s) (ss_state s)"

lemma put_fields [simp]:
  "ss_base (put_pc i p s) = ss_base s" "ss_state (put_pc i p s) = ss_state s" "ss_op (put_pc i p s) = (ss_op s)(i := p)"
  "ss_task (put_pc i p s) = ss_task s" "op_of k (put_pc i p s) = op_of k s"
  "ss_base (put_base b s) = b" "ss_state (put_base b s) = ss_state s" "ss_op (put_base b s) = ss_op s"
  "ss_task (put_base b s) = ss_task s" "op_of k (put_base b s) = op_of k s"
  "ss_base (set_state c s) = ss_base s" "ss_state (set_state c s) = c" "ss_op (set_state c s) = ss_op s"
  "ss_task (set_state c s) = ss_task s" "op_of k (set_state c s) = op_of k s"
  "ss_base (clear_shutdown s) = ss_base s" "ss_state (clear_shutdown s) = ss_state s" "ss_op (clear_shutdown s) = ss_op s"
  "ss_task (clear_shutdown s) = ss_task s" "op_of k (clear_shutdown s) = op_of k s"
  "ss_base (put_st_task j t s) = ss_base s" "ss_state (put_st_task j t s) = ss_state s" "ss_op (put_st_task j t s) = ss_op s"
  "ss_task (put_st_task j t s) = (ss_task s)(j := t)" "op_of k (put_st_task j t s) = op_of k s"
  by (cases k; simp add: put_pc_def put_base_def set_state_def clear_shutdown_def put_st_task_def)+

lemma put_op_fields [simp]:
  "ss_base (put_op k os s) = ss_base s" "ss_state (put_op k os s) = ss_state s" "ss_op (put_op k os s) = ss_op s"
  "ss_task (put_op k os s) = ss_task s" "op_of k' (put_op k os s) = (if k' = k then os else op_of k' s)"
  by (cases k; cases k'; simp)+

declare put_op.simps [simp del]

lemma excl_same: "excl k f a \<Longrightarrow> started k p = started k (f i) \<Longrightarrow> excl k (f(i := p)) a"
  unfolding excl_def Uniq_def by (auto split: if_splits)

lemma excl_start: "excl k f False \<Longrightarrow> excl k (f(i := p)) (started k p)"
  unfolding excl_def Uniq_def by auto

lemma excl_stop: "excl k f a \<Longrightarrow> started k (f i) \<Longrightarrow> \<not> started k p \<Longrightarrow> excl k (f(i := p)) False"
  unfolding excl_def Uniq_def by (auto split: if_splits)

lemma slots_ok_update:
  assumes "slots_ok f w" "op_slot_ok p (w' (2 * i)) (w' (2 * i + 1))" "\<And>n. n \<noteq> 2 * i \<Longrightarrow> n \<noteq> 2 * i + 1 \<Longrightarrow> w' n = w n"
  shows "slots_ok (f(i := p)) w'"
  unfolding slots_ok_def
proof
  fix j
  show "op_slot_ok ((f(i := p)) j) (w' (2 * j)) (w' (2 * j + 1))"
  proof (cases "j = i")
    case False
    then have "w' (2 * j) = w (2 * j)" "w' (2 * j + 1) = w (2 * j + 1)" by (intro assms(3); presburger)+
    then show ?thesis using False assms(1) by (simp add: slots_ok_def)
  qed (use assms(2) in simp)
qed

text \<open>A step of operation \<open>i\<close> that neither starts nor finishes it.\<close>

lemma stream_inv_move:
  assumes inv: "stream_inv s" and op: "ss_op t = (ss_op s)(i := p)"
    and base: "sock_inv (ss_base t)" "\<And>n. n \<noteq> 2 * i \<Longrightarrow> n \<noteq> 2 * i + 1 \<Longrightarrow> sk_wait (ss_base t) n = sk_wait (ss_base s) n"
    and slot: "op_slot_ok p (sk_wait (ss_base t) (2 * i)) (sk_wait (ss_base t) (2 * i + 1))"
    and st: "\<And>k. started k p = started k (ss_op s i)" "\<And>k. os_active (op_of k t) = os_active (op_of k s)"
    and conn: "ss_state t = Connecting \<Longrightarrow> ss_state s = Connecting \<and> (connecting_pc (ss_op s i) \<longrightarrow> connecting_pc p)"
  shows "stream_inv t"
proof -
  have "excl k (ss_op t) (os_active (op_of k t))" for k
    unfolding op st(2) using inv st(1) by (intro excl_same) (simp_all add: stream_inv_def)
  moreover have "slots_ok (ss_op t) (sk_wait (ss_base t))"
    unfolding op using inv slot base(2) by (intro slots_ok_update [of _ "sk_wait (ss_base s)"]) (simp_all add: stream_inv_def)
  moreover have "conn_ok (ss_op t) (ss_state t)"
    using inv conn unfolding stream_inv_def conn_ok_def op by (metis fun_upd_apply)
  ultimately show ?thesis using base(1) by (simp add: stream_inv_def)
qed

lemma stream_inv_keep:
  assumes inv: "stream_inv s" and "ss_op t = ss_op s" "sock_inv (ss_base t)" "slots_ok (ss_op s) (sk_wait (ss_base t))"
    and "\<And>k. os_active (op_of k t) = os_active (op_of k s)" "ss_state t = Connecting \<Longrightarrow> ss_state s = Connecting"
  shows "stream_inv t"
  using assms by (simp add: stream_inv_def conn_ok_def)

lemma stream_invD:
  assumes "stream_inv s"
  shows "sock_inv (ss_base s)" "op_slot_ok (ss_op s i) (sk_wait (ss_base s) (2 * i)) (sk_wait (ss_base s) (2 * i + 1))"
    "slots_ok (ss_op s) (sk_wait (ss_base s))" "excl k (ss_op s) (os_active (op_of k s))" "conn_ok (ss_op s) (ss_state s)"
  using assms unfolding stream_inv_def slots_ok_def by blast+

section \<open>Steps keep the invariant\<close>

lemma stream_inv_give_up:
  assumes inv: "stream_inv s" and st: "started k (ss_op s i)" and t: "ss_op t = ss_op s" "ss_state t = ss_state s"
      "\<And>k. os_active (op_of k t) = os_active (op_of k s)"
    and base: "sock_inv (ss_base t)" "\<And>n. n \<noteq> 2 * i \<Longrightarrow> n \<noteq> 2 * i + 1 \<Longrightarrow> sk_wait (ss_base t) n = sk_wait (ss_base s) n"
    and slot: "sk_wait (ss_base t) (2 * i) = W_guarded r True" "sk_wait (ss_base t) (2 * i + 1) = W_idle"
  shows "stream_inv (give_up i k r ec t)"
proof -
  have k: "started k' (ss_op s i) = (k' = k)" for k' using st by (cases "ss_op s i") auto
  have c: "connecting_pc (ss_op s i) \<Longrightarrow> k = Connect" using k [of Connect] by (cases "ss_op s i") auto
  show ?thesis using inv
    by (rule stream_inv_move [where i = i and p = "O_finish k r (fail ec)"])
       (use t base slot k c in \<open>auto simp: give_up_def split: if_splits\<close>)
qed

lemma stream_inv_leave:
  assumes inv: "stream_inv s" and p: "ss_op s i = O_begun k r \<or> ss_op s i = O_checked k r"
  shows "stream_inv (leave_unguarded i x s)"
  using inv
proof (rule stream_inv_move [where i = i and p = "O_done x"])
  have w: "sk_wait (ss_base s) (2 * i) = W_holding r" "sk_wait (ss_base s) (2 * i + 1) = W_idle"
    using stream_invD(2) [OF inv, of i] p by auto
  show "sock_inv (ss_base (leave_unguarded i x s))"
    using sock_inv_reset [OF stream_invD(1) [OF inv], of "2 * i"] w by (simp add: leave_unguarded_def)
  show "op_slot_ok (O_done x) (sk_wait (ss_base (leave_unguarded i x s)) (2 * i)) (sk_wait (ss_base (leave_unguarded i x s)) (2 * i + 1))"
    using w by (simp add: leave_unguarded_def)
qed (use p in \<open>auto simp: leave_unguarded_def\<close>)

lemma stream_inv_op_begin:
  assumes inv: "stream_inv s" and p: "ss_op s i = O_idle"
  shows "stream_inv (op_begin i k s)"
proof -
  have w: "sk_wait (ss_base s) (2 * i) = W_idle" "sk_wait (ss_base s) (2 * i + 1) = W_idle"
    using stream_invD(2) [OF inv, of i] p by auto
  show ?thesis
  proof (cases "sk_current (ss_base s)")
    case None
    show ?thesis using inv
      by (rule stream_inv_move [where i = i and p = "O_done (fail_with not_open)"])
         (use w p None stream_invD(1) [OF inv] in \<open>simp_all add: op_begin_def\<close>)
  next
    case (Some r)
    have "sock_inv (wait_acquire (2 * i) True (ss_base s))"
      using sock_inv_step [OF sock_step.acquire stream_invD(1) [OF inv]] w by blast
    then show ?thesis
      by (intro stream_inv_move [OF inv, where i = i and p = "O_begun k r"])
         (use w p Some in \<open>simp_all add: op_begin_def wait_acquire_def\<close>)
  qed
qed

lemma stream_inv_op_guard:
  assumes inv: "stream_inv s" and p: "ss_op s i = O_checked k r"
  shows "stream_inv (op_guard i k r s)"
proof -
  have w: "sk_wait (ss_base s) (2 * i) = W_holding r" "sk_wait (ss_base s) (2 * i + 1) = W_idle"
    using stream_invD(2) [OF inv, of i] p by auto
  obtain g b where g: "make_operation_guard (Some r) (ss_base s) = (g, b)" by fastforce
  show ?thesis
  proof (cases g)
    case False
    then show ?thesis using stream_inv_leave [OF inv, of i k r] p by (simp add: op_guard_def g)
  next
    case True
    have "sock_inv (wait_begin (2 * i) r True (ss_base s))"
      using sock_inv_step [OF sock_step.begin_wait stream_invD(1) [OF inv]] w by blast
    then have "sock_inv (put_wait (2 * i) (W_guarded r True) b)" using g True by (simp add: wait_begin_def)
    moreover have "sk_wait b = sk_wait (ss_base s)" using g by (auto simp: make_operation_guard_def split: if_splits)
    ultimately show ?thesis
      by (intro stream_inv_move [OF inv, where i = i and p = "O_guarded k r"])
         (use w p g True in \<open>simp_all add: op_guard_def\<close>)
  qed
qed

lemma stream_inv_try_start:
  assumes inv: "stream_inv s" and p: "ss_op s i = O_guarded k r" and o: "try_start (op_of k s) = (Some e, os)"
    and q: "\<And>k'. started k' q = (k' = k)" "guarded_res q = Some r" "\<And>w w'. op_slot_ok q w w' = (w = W_guarded r True \<and> w' = W_idle)"
    and t: "ss_op t = (ss_op s)(i := q)" "ss_base t = ss_base s" "\<And>k'. op_of k' t = (if k' = k then os else op_of k' s)"
    and c: "ss_state t = Connecting \<Longrightarrow> ss_state s = Connecting \<or> connecting_pc q"
  shows "stream_inv t"
proof -
  have a: "\<not> os_active (op_of k s)" "os_active os" using o by (auto simp: try_start_def split: if_splits)
  have "excl k' (ss_op t) (os_active (op_of k' t))" for k'
  proof (cases "k' = k")
    case True
    then show ?thesis using excl_start [of k "ss_op s" i q] stream_invD(4) [OF inv, of k] a q(1) t by simp
  next
    case False
    then show ?thesis unfolding t(1) using stream_invD(4) [OF inv, of k'] q(1) t(3) p by (intro excl_same) simp_all
  qed
  moreover have "slots_ok (ss_op t) (sk_wait (ss_base t))"
    unfolding t using stream_invD(2) [OF inv, of i] p q(3)
    by (intro slots_ok_update [OF stream_invD(3) [OF inv]]) simp_all
  moreover have "conn_ok (ss_op t) (ss_state t)"
    unfolding conn_ok_def t(1)
  proof
    assume "ss_state t = Connecting"
    then consider "connecting_pc q" | j where "connecting_pc (ss_op s j)"
      using c stream_invD(5) [OF inv] by (auto simp: conn_ok_def)
    then show "\<exists>j. connecting_pc (((ss_op s)(i := q)) j)" using p by cases (force intro: exI [of _ i], metis connecting_pc.simps(5) fun_upd_apply started.simps(12))
  qed
  ultimately show ?thesis using stream_invD(1) [OF inv] t(2) by (simp add: stream_inv_def)
qed

text \<open>An operation past its guard, and not waiting, moves on.\<close>

lemma stream_inv_pc:
  assumes inv: "stream_inv s" and g: "guarded_res (ss_op s i) = Some r" "\<And>w w'. op_slot_ok (ss_op s i) w w' = (w = W_guarded r True \<and> w' = W_idle)"
    and q: "\<And>k. started k q = started k (ss_op s i)" "\<And>w w'. op_slot_ok q w w' = (w = W_guarded r True \<and> w' = W_idle)"
    and c: "connecting_pc (ss_op s i) \<Longrightarrow> connecting_pc q"
  shows "stream_inv (put_pc i q s)"
  using stream_invD(1) [OF inv] stream_invD(2) [OF inv, of i] g
  by (intro stream_inv_move [OF inv, where i = i and p = q]) (use q c in simp_all)

lemma stream_inv_begin_wait:
  assumes inv: "stream_inv s" and p: "ss_op s i = O_call k r e"
  shows "stream_inv (op_begin_wait i k r e s)"
proof -
  let ?b = "ss_base s"
  have w: "sk_wait ?b (2 * i) = W_guarded r True" "sk_wait ?b (2 * i + 1) = W_idle"
    using stream_invD(2) [OF inv, of i] p by auto
  have "holds ?b r" using w(1) unfolding holds_def by (metis wait_res.simps(2))
  then have "sock_inv (put_wait (2 * i + 1) (W_holding r) ?b)"
    using sock_inv_step [OF sock_step.share stream_invD(1) [OF inv]] w(2) by blast
  then show ?thesis
    by (intro stream_inv_move [OF inv, where i = i and p = "O_wait k r e"]) (use w p in \<open>simp_all add: op_begin_wait_def\<close>)
qed

lemma stream_inv_abort:
  assumes inv: "stream_inv s" and st: "started k (ss_op s i)"
    and g: "\<And>w w'. op_slot_ok (ss_op s i) w w' = (w = W_guarded r True \<and> w' = W_idle)"
  shows "stream_inv (give_up i k r ec s)"
  by (rule stream_inv_give_up [OF inv st]) (use stream_invD(1) [OF inv] stream_invD(2) [OF inv, of i] g in simp_all)

lemma stream_inv_op_waited:
  assumes inv: "stream_inv s" and p: "ss_op s i = O_wait k r e" and d: "sk_wait (ss_base s) (2 * i + 1) = W_done x"
  shows "stream_inv (op_waited i k r e x s)"
proof -
  let ?s1 = "put_base (put_wait (2 * i + 1) W_idle (ss_base s)) s"
  have w: "sk_wait (ss_base s) (2 * i) = W_guarded r True" using stream_invD(2) [OF inv, of i] p by auto
  have b: "sock_inv (put_wait (2 * i + 1) W_idle (ss_base s))"
    using sock_inv_reset [OF stream_invD(1) [OF inv]] d by simp
  have give: "stream_inv (give_up i k r ec ?s1)" for ec
    by (rule stream_inv_give_up [OF inv, of k]) (use p b w in simp_all)
  have recheck: "stream_inv (put_pc i (O_recheck k r e) ?s1)"
    by (rule stream_inv_move [OF inv, where i = i and p = "O_recheck k r e"]) (use p b w in simp_all)
  have fin: "stream_inv (put_pc i (O_finish k r (Inr 0)) ?s1)" if "k = Read"
    by (rule stream_inv_move [OF inv, where i = i and p = "O_finish k r (Inr 0)"]) (use p b w that in simp_all)
  show ?thesis using give recheck fin by (auto simp: op_waited_def Let_def split: sum.split)
qed

lemma stream_inv_op_end:
  assumes inv: "stream_inv s" and p: "ss_op s i = O_finish k r x"
  shows "stream_inv (op_end i k r x s)" (is "stream_inv ?t")
proof -
  have op: "ss_op ?t = (ss_op s)(i := O_drop r x)" by (simp add: op_end_def)
  have "excl k' (ss_op ?t) (os_active (op_of k' ?t))" for k'
  proof (cases "k' = k")
    case True
    then show ?thesis using excl_stop [OF stream_invD(4) [OF inv], of k i "O_drop r x"] p
      by (simp add: op_end_def op_finish_def)
  next
    case False
    then show ?thesis unfolding op using stream_invD(4) [OF inv, of k'] p
      by (intro excl_same) (simp_all add: op_end_def)
  qed
  moreover have "slots_ok (ss_op ?t) (sk_wait (ss_base ?t))"
    unfolding op using stream_invD(2) [OF inv, of i] p
    by (intro slots_ok_update [OF stream_invD(3) [OF inv]]) (simp_all add: op_end_def)
  moreover have "conn_ok (ss_op ?t) (ss_state ?t)"
    using stream_invD(5) [OF inv] p unfolding conn_ok_def op by (auto simp: op_end_def) (metis connecting_pc.simps(1))
  ultimately show ?thesis using stream_invD(1) [OF inv] by (simp add: stream_inv_def op_end_def)
qed

lemma stream_inv_op_drop:
  assumes inv: "stream_inv s" and p: "ss_op s i = O_drop r x"
  shows "stream_inv (op_drop i r x s)"
proof -
  have w: "sk_wait (ss_base s) (2 * i) = W_guarded r True" "sk_wait (ss_base s) (2 * i + 1) = W_idle"
    using stream_invD(2) [OF inv, of i] p by auto
  have "sock_inv (operation_end (2 * i) r (ss_base s))" using sock_inv_operation_end [OF stream_invD(1) [OF inv] w(1)] .
  then show ?thesis
    by (intro stream_inv_move [OF inv, where i = i and p = "O_done x"]) (use w p in \<open>simp_all add: op_drop_def operation_end_def\<close>)
qed

lemma stream_inv_start_connect:
  assumes inv: "stream_inv s" and p: "ss_op s i = O_guarded Connect r"
  shows "stream_inv (start_connect i r s)"
proof -
  have d: "stream_inv (put_pc i (O_drop r x) s)" for x by (rule stream_inv_pc [OF inv, of i r]) (use p in auto)
  obtain g os where g: "try_start (ss_connect s) = (g, os)" by fastforce
  show ?thesis
  proof (cases g)
    case (Some e)
    then have "stream_inv (put_pc i (O_check Connect r e) (clear_shutdown (set_state Connecting (put_op Connect os s))))"
      by (intro stream_inv_try_start [OF inv p, where q = "O_check Connect r e"]) (use g in auto)
    then show ?thesis using d g Some by (simp add: start_connect_def)
  qed (use d g in \<open>simp add: start_connect_def\<close>)
qed

lemma stream_inv_start_io:
  assumes inv: "stream_inv s" and p: "ss_op s i = O_guarded k r" and k: "k \<noteq> Connect"
  shows "stream_inv (start_io i k r n s)"
proof -
  have d: "stream_inv (put_pc i (O_drop r x) s)" for x by (rule stream_inv_pc [OF inv, of i r]) (use p in auto)
  obtain g os where g: "try_start (op_of k s) = (g, os)" by fastforce
  let ?q = "\<lambda>e. if n = 0 then O_finish k r (Inr 0) else O_check k r e"
  show ?thesis
  proof (cases g)
    case (Some e)
    then have "stream_inv (put_pc i (?q e) (put_op k os s))"
      by (intro stream_inv_try_start [OF inv p, where q = "?q e"]) (use g k in auto)
    then show ?thesis using d g Some by (simp add: start_io_def)
  qed (use d g in \<open>simp add: start_io_def\<close>)
qed

lemma stream_inv_call:
  assumes inv: "stream_inv s"
  shows "ss_op s i = O_call Connect r e \<Longrightarrow> stream_inv (call_connect i r e a s)"
    "ss_op s i = O_call k r e \<Longrightarrow> k \<noteq> Connect \<Longrightarrow> stream_inv (call_io i k r e b s)"
proof -
  show "stream_inv (call_connect i r e a s)" if p: "ss_op s i = O_call Connect r e"
  proof -
    have "stream_inv (put_pc i (O_commit r e) s)" "stream_inv (put_pc i (O_check Connect r e) s)"
      by (rule stream_inv_pc [OF inv, of i r]; use p in auto)+
    moreover have "stream_inv (give_up i Connect r ec s)" for ec by (rule stream_inv_abort [OF inv]) (use p in auto)
    ultimately show ?thesis using stream_inv_begin_wait [OF inv p] by (simp add: call_connect_def split: sum.split)
  qed
  show "stream_inv (call_io i k r e b s)" if p: "ss_op s i = O_call k r e" and k: "k \<noteq> Connect"
  proof -
    have "stream_inv (put_pc i (O_finish k r x) s)" "stream_inv (put_pc i (O_check k r e) s)" for x
      by (rule stream_inv_pc [OF inv, of i r]; use p k in auto)+
    moreover have "stream_inv (give_up i k r ec s)" for ec by (rule stream_inv_abort [OF inv]) (use p in auto)
    ultimately show ?thesis using stream_inv_begin_wait [OF inv p] by (simp add: call_io_def split: sum.split)
  qed
qed

lemma stream_inv_checks:
  assumes inv: "stream_inv s"
  shows "ss_op s i = O_check k r e \<Longrightarrow> stream_inv (op_check i k r e s)"
    "ss_op s i = O_recheck k r e \<Longrightarrow> stream_inv (op_recheck i k r e s)"
    "ss_op s i = O_so_error r e \<Longrightarrow> stream_inv (call_so_error i r e c s)"
    "ss_op s i = O_last r e \<Longrightarrow> stream_inv (connect_last i r e s)"
  using stream_inv_abort [OF inv, of _ i r]
  by (auto simp: op_check_def op_recheck_def call_so_error_def connect_last_def split: sum.split
      intro!: stream_inv_pc [OF inv, of i r])

lemma stream_inv_connect_commit:
  assumes inv: "stream_inv s" and p: "ss_op s i = O_commit r e"
  shows "stream_inv (connect_commit i r s)"
  by (rule stream_inv_move [OF inv, where i = i and p = "O_finish Connect r (Inr 0)"])
     (use p stream_invD(1) [OF inv] stream_invD(2) [OF inv, of i] in \<open>auto simp: connect_commit_def\<close>)

lemma slots_ok_base:
  assumes "slots_ok f w" "\<And>n. w' n \<noteq> w n \<Longrightarrow> odd n \<and> wait_running (w n)"
  shows "slots_ok f w'"
  unfolding slots_ok_def
proof
  fix i
  have "w' (2 * i) = w (2 * i)" using assms(2) by fastforce
  moreover have "w' (2 * i + 1) = w (2 * i + 1)" if "w (2 * i + 1) = W_idle" using assms(2) that wait_running.simps(1) by metis
  ultimately show "op_slot_ok (f i) (w' (2 * i)) (w' (2 * i + 1))"
    using assms(1) [unfolded slots_ok_def, rule_format, of i] by (cases "f i") auto
qed

lemma stream_inv_base:
  assumes inv: "stream_inv s" and b: "sock_step (ss_base s) b" "sk_wait b = sk_wait (ss_base s)" and t: "ss_base t = b" "ss_op t = ss_op s"
    "\<And>k. os_active (op_of k t) = os_active (op_of k s)" "ss_state t = Connecting \<Longrightarrow> ss_state s = Connecting"
  shows "stream_inv t"
  using inv by (rule stream_inv_keep) (use sock_inv_step [OF b(1) stream_invD(1) [OF inv]] stream_invD(3) [OF inv] b(2) t in simp_all)

lemma op_of_bump_all: "op_of k (bump_all s) = op_cancel (op_of k s)"
  by (cases k) (simp_all add: bump_all_def)

lemma bump_all_fields [simp]:
  "ss_base (bump_all s) = ss_base s" "ss_op (bump_all s) = ss_op s" "ss_state (bump_all s) = ss_state s" "ss_task (bump_all s) = ss_task s"
  by (simp_all add: bump_all_def)

lemma stream_inv_epochs:
  assumes inv: "stream_inv s"
  shows "stream_inv (stream_cancel j s)" "stream_inv (stream_cancel_read j s)" "stream_inv (stream_cancel_write j s)"
    "stream_inv (stream_cancel_connect j s)" "stream_inv (stream_close j s)" "stream_inv (close_stores j s)"
    "stream_inv (snd (stream_shutdown f w s))"
proof -
  show "stream_inv (stream_cancel j s)" "stream_inv (stream_cancel_read j s)" "stream_inv (stream_cancel_write j s)"
      "stream_inv (stream_cancel_connect j s)" "stream_inv (stream_close j s)" "stream_inv (close_stores j s)"
    by (rule stream_inv_keep [OF inv];
        use stream_invD(1,3) [OF inv] in \<open>simp add: stream_cancel_def stream_cancel_read_def stream_cancel_write_def
          stream_cancel_connect_def stream_close_def close_stores_def op_of_bump_all op_cancel_def\<close>)+
  have "ss_base (snd (stream_shutdown f w s)) = ss_base s" "ss_op (snd (stream_shutdown f w s)) = ss_op s"
    "ss_state (snd (stream_shutdown f w s)) = ss_state s" "op_of k (snd (stream_shutdown f w s)) = op_of k s" for k
    by (cases k; simp add: stream_shutdown_def split: sum.split option.split shutdown_type.split)+
  then show "stream_inv (snd (stream_shutdown f w s))"
    by (intro stream_inv_keep [OF inv]) (use stream_invD(1,3) [OF inv] in simp_all)
qed

lemma stream_inv_base_calls:
  assumes inv: "stream_inv s" and j: "sk_task (ss_base s) j = T_idle"
  shows "stream_inv (base_cancel j w s)" "stream_inv (base_close j s)"
proof -
  have c: "sk_wait (sk_cancel j b) = sk_wait b" "sk_wait (sk_cancel_kind j r b) = sk_wait b" "sk_wait (close_take j b) = sk_wait b" for r b
    by (simp_all add: sk_cancel_def sk_cancel_kind_def close_take_def split: option.split)
  show "stream_inv (base_cancel j w s)"
  proof (cases w)
    case None
    show ?thesis by (rule stream_inv_base [OF inv sock_step.cancel [OF j]]) (simp_all add: base_cancel_def None c)
  next
    case (Some k)
    show ?thesis by (rule stream_inv_base [OF inv sock_step.cancel_kind [OF j, of k]]) (simp_all add: base_cancel_def Some c)
  qed
  show "stream_inv (base_close j s)"
    by (rule stream_inv_base [OF inv sock_step.close [OF j]]) (simp_all add: base_close_def c)
qed

lemma stream_inv_assign:
  assumes inv: "stream_inv s" and fd: "0 \<le> fd" and t: "stream_assign fd fe k s = (x, cl, t)"
  shows "stream_inv t"
proof -
  obtain y cl' b where b: "assign_end fd fe k (ss_base s) = (y, cl', b)" by (metis prod_cases3)
  have "sk_wait b = sk_wait (ss_base s)"
    using b by (auto simp: assign_end_def adopt_fd_def sk_install_def split: option.splits if_splits)
  then show ?thesis
    by (rule stream_inv_base [OF inv sock_step.assign [OF b fd]]) (use t b in \<open>auto simp: stream_assign_def split: sum.splits\<close>)
qed

lemma stream_inv_step:
  assumes "stream_step s t" "stream_inv s" shows "stream_inv t"
  using assms
proof (induction rule: stream_step.induct)
  case (base s b)
  then show ?case
    by (intro stream_inv_keep [OF base(2)])
       (auto simp: base_may_def intro: sock_inv_step stream_invD(1) slots_ok_base [OF stream_invD(3)])
next
  case (open_check s i k r)
  then have "stream_inv (put_pc i (O_checked k r) s)"
    by (intro stream_inv_move [OF open_check(2), where i = i and p = "O_checked k r"])
       (use stream_invD(1) [OF open_check(2)] stream_invD(2) [OF open_check(2), of i] in simp_all)
  then show ?case using open_check stream_inv_leave by (auto simp: op_open_check_def Let_def)
next
  case (again s i x)
  then show ?case
    by (intro stream_inv_move [OF again(2), where i = i and p = O_idle])
       (use stream_invD(1) [OF again(2)] stream_invD(2) [OF again(2), of i] in simp_all)
qed (simp_all add: stream_inv_op_begin stream_inv_op_guard stream_inv_start_connect stream_inv_start_io stream_inv_call
    stream_inv_checks stream_inv_op_waited stream_inv_connect_commit stream_inv_op_end stream_inv_op_drop stream_inv_epochs
    stream_inv_base_calls stream_inv_assign)

lemma stream_inv_init: "stream_inv stream_init"
proof -
  have "op_of k stream_init = op_state_init" for k by (cases k) (simp_all add: stream_init_def)
  moreover have "ss_base stream_init = sock_init" "ss_op stream_init = (\<lambda>_. O_idle)" "ss_state stream_init = Disconnected"
      "sk_wait sock_init = (\<lambda>_. W_idle)"
    by (simp_all add: stream_init_def sock_init_def)
  ultimately show ?thesis
    by (simp add: stream_inv_def sock_inv_init slots_ok_def excl_def conn_ok_def Uniq_def op_state_init_def)
qed

interpretation stream: inductive_invariant "\<lambda>s. s = stream_init" stream_step stream_inv
  by unfold_locales (simp_all add: stream_inv_init stream_inv_step)

section \<open>Running an interleaving\<close>

datatype stream_label = B_open int | L_begin nat op_kind | L_op nat "int + nat" | L_close nat

text \<open>One step of operation \<open>i\<close>, with the answer of the kernel where it makes a system call.\<close>

fun stream_do :: "stream_label \<Rightarrow> stream_socket \<Rightarrow> stream_socket option" where
  "stream_do (B_open fd) s = (if 0 \<le> fd then Some (put_base (snd (snd (socket_open (Inr fd) None True (ss_base s)))) s) else None)"
| "stream_do (L_begin i k) s =
     (if ss_op s i = O_idle \<and> sk_wait (ss_base s) (2 * i) = W_idle then Some (op_begin i k s) else None)"
| "stream_do (L_op i a) s =
     (case ss_op s i of
        O_begun k r \<Rightarrow> Some (op_open_check i k r s)
      | O_checked k r \<Rightarrow> Some (op_guard i k r s)
      | O_guarded k r \<Rightarrow> Some (if k = Connect then start_connect i r s else start_io i k r 1 s)
      | O_check k r e \<Rightarrow> Some (op_check i k r e s)
      | O_call k r e \<Rightarrow>
          if sk_wait (ss_base s) (2 * i + 1) \<noteq> W_idle then None
          else Some (if k = Connect then call_connect i r e (map_sum id (\<lambda>_. ()) a) s else call_io i k r e a s)
      | O_commit r e \<Rightarrow> Some (connect_commit i r s)
      | O_finish k r x \<Rightarrow> Some (op_end i k r x s)
      | O_drop r x \<Rightarrow> Some (op_drop i r x s)
      | O_done x \<Rightarrow> Some (put_pc i O_idle s)
      | _ \<Rightarrow> None)"
| "stream_do (L_close j) s =
     (case ss_task s j of
        ST_idle \<Rightarrow> Some (stream_close j s)
      | ST_close_bumped \<Rightarrow> Some (close_stores j s)
      | ST_close_stored \<Rightarrow> if sk_task (ss_base s) j = T_idle then Some (base_close j s) else None
      | _ \<Rightarrow> None)"

lemma stream_do_step: "stream_do l s = Some t \<Longrightarrow> stream_step s t"
proof (cases l)
  case (B_open fd)
  assume "stream_do l s = Some t"
  then have fd: "0 \<le> fd" and t: "t = put_base (snd (snd (socket_open (Inr fd) None True (ss_base s)))) s"
    using B_open by (simp_all split: if_splits)
  obtain x cl b where b: "socket_open (Inr fd) None True (ss_base s) = (x, cl, b)" by (metis prod_cases3)
  have "sk_wait b = sk_wait (ss_base s)"
    using b by (auto simp: socket_open_def adopt_fd_def sk_install_def split: if_splits)
  moreover have "sock_step (ss_base s) b" using sock_step.open_ [OF b] fd by simp
  ultimately show ?thesis using stream_step.base [of s b] b t by (simp add: base_may_def)
qed (auto intro: stream_step.intros split: if_splits op_pc.splits st_task.splits)

interpretation stream_run: labelled_steps "\<lambda>s. s = stream_init" stream_step stream_do
  by unfold_locales (fact stream_do_step)

definition connect_run :: "stream_label list" where
  "connect_run = B_open 7 # L_begin 0 Connect # replicate 4 (L_op 0 (Inr 0)) @ L_begin 1 Connect # replicate 3 (L_op 1 (Inr 0))"

definition close_race_run :: "stream_label list" where
  "close_race_run = B_open 7 # L_begin 0 Connect # replicate 5 (L_op 0 (Inr 0)) @ replicate 3 (L_close 0) @ replicate 3 (L_op 0 (Inr 0))"

definition reopen_run :: "stream_label list" where
  "reopen_run = B_open 8 # L_begin 1 Connect # replicate 3 (L_op 1 (Inr 0))"

lemmas stream_run_simps = sock_run_simps stream_init_def op_state_init_def op_begin_def op_open_check_def op_guard_def
  leave_unguarded_def start_connect_def try_start_def op_check_def stale_def is_epoch_current_def give_up_def
  call_connect_def connect_commit_def op_end_def op_finish_def op_drop_def operation_end_def remove_inflight_def
  stream_close_def bump_all_def op_cancel_def close_stores_def base_close_def put_pc_def put_base_def put_st_task_def set_state_def
  clear_shutdown_def put_op.simps

lemma replicate_run: "replicate 2 x = [x, x]" "replicate 3 x = [x, x, x]" "replicate 4 x = [x, x, x, x]" "replicate 5 x = [x, x, x, x, x]"
  by (simp_all add: numeral_eq_Suc)

section \<open>Properties\<close>



text \<open>
  A connect that has passed its last check stores \<open>connected\<close> even when \<open>close()\<close> has run in
  between: the closed socket counts as connected, and after it is opened again connecting is
  refused with \<open>already_connected\<close>.
\<close>

lemma close_during_connect:
  "\<exists>s t. reach (\<lambda>s. s = stream_init) stream_step s \<and> do_all stream_do close_race_run stream_init = Some s \<and>
     sk_current (ss_base s) = None \<and> ss_state s = Connected \<and> ss_op s 0 = O_done (Inr 0) \<and>
     do_all stream_do reopen_run s = Some t \<and> ss_op t 1 = O_drop 1 (fail_with already_connected)"
proof -
  obtain s t where s: "do_all stream_do close_race_run stream_init = Some s" "sk_current (ss_base s) = None" "ss_state s = Connected"
      "ss_op s 0 = O_done (Inr 0)" "do_all stream_do reopen_run s = Some t" "ss_op t 1 = O_drop 1 (fail_with already_connected)"
    by (simp add: close_race_run_def reopen_run_def stream_run_simps replicate_run)
  have "reach (\<lambda>s. s = stream_init) stream_step s" using reach_start s(1) by (rule stream_run.do_all_reach) simp
  then show ?thesis using s by blast
qed

text \<open>A cancelled or closed operation makes no further system call once it reaches a check.\<close>

lemma stale_operation_aborts:
  assumes "stale k r e s"
  shows "ss_op (op_check i k r e s) i = O_finish k r (fail_with operation_aborted)"
    "ss_op (op_recheck i k r e s) i = O_finish k r (fail_with operation_aborted)"
    "k = Connect \<Longrightarrow> ss_op (connect_last i r e s) i = O_finish k r (fail_with operation_aborted)"
  using assms by (simp_all add: op_check_def op_recheck_def connect_last_def give_up_def)

end
