(* ===== verification/Acceptor.thy ===== *)
theory Acceptor
  imports StreamSocket
begin

text \<open>
  \<open>detail/socket/acceptor_impl.hpp\<close>, \<open>impl/socket/acceptor_impl.ipp\<close> and \<open>net/basic_acceptor.hpp\<close>:
  listening and accepting.

  The accept loop runs on a list of rounds, one for each time round the loop: what the
  cancellation checks find, what the kernel answers (\<open>Inl\<close> is an \<open>errno\<close>, \<open>Inr\<close> a descriptor) and
  how the wait for readiness ends. Its result is \<open>None\<close> when the rounds are used up before it
  returns. The descriptors it closes are listed.
\<close>

record acceptor =
  ac_base :: sock
  ac_listening :: bool
  ac_accept :: op_state

definition acceptor_init :: acceptor where
  "acceptor_init = \<lparr>ac_base = sock_init, ac_listening = False, ac_accept = op_state_init\<rparr>"

text \<open>Thread \<open>j\<close> then runs the base's \<open>cancel_read\<close> or \<open>close\<close>.\<close>

definition acceptor_cancel_read :: "nat \<Rightarrow> acceptor \<Rightarrow> acceptor" where
  "acceptor_cancel_read j s = s\<lparr>ac_accept := op_cancel (ac_accept s), ac_base := sk_cancel_kind j True (ac_base s)\<rparr>"

definition acceptor_close :: "nat \<Rightarrow> acceptor \<Rightarrow> acceptor" where
  "acceptor_close j s =
     s\<lparr>ac_accept := op_cancel (ac_accept s), ac_listening := False, ac_base := close_take j (ac_base s)\<rparr>"

definition acceptor_open :: "int + int \<Rightarrow> int option \<Rightarrow> bool \<Rightarrow> acceptor \<Rightarrow> unit result \<times> int list \<times> acceptor" where
  "acceptor_open fd flags_errno add_ok s =
     (case socket_open fd flags_errno add_ok (ac_base s) of
        (Inl ec, closed, b) \<Rightarrow> (Inl ec, closed, s\<lparr>ac_base := b\<rparr>)
      | (Inr _, closed, b) \<Rightarrow> (ok, closed, s\<lparr>ac_base := b, ac_listening := False\<rparr>))"

definition acceptor_bind :: "(int \<Rightarrow> int option) \<Rightarrow> acceptor \<Rightarrow> unit result" where
  "acceptor_bind sys_bind s =
     (case usable_fd (ac_base s) of
        Inl ec \<Rightarrow> Inl ec
      | Inr fd \<Rightarrow> (case sys_bind fd of Some errno \<Rightarrow> fail (map_socket_errno errno) | None \<Rightarrow> ok))"

definition SOMAXCONN :: int where "SOMAXCONN = 4096"

definition acceptor_listen :: "(int \<Rightarrow> int \<Rightarrow> int option) \<Rightarrow> int \<Rightarrow> acceptor \<Rightarrow> unit result \<times> acceptor" where
  "acceptor_listen sys_listen backlog s =
     (case usable_fd (ac_base s) of
        Inl ec \<Rightarrow> (Inl ec, s)
      | Inr fd \<Rightarrow>
          (case sys_listen fd (if backlog \<le> 0 then SOMAXCONN else backlog) of
             Some errno \<Rightarrow> (fail (map_socket_errno errno), s)
           | None \<Rightarrow> (ok, s\<lparr>ac_listening := True\<rparr>)))"

section \<open>Accepting\<close>

text \<open>Up to \<open>try_start\<close>: the epoch of the operation, or the error it returns with.\<close>

definition accept_start :: "acceptor \<Rightarrow> u64 result \<times> acceptor" where
  "accept_start s =
     (case sk_current (ac_base s) of
        None \<Rightarrow> (fail_with not_open, s)
      | Some r \<Rightarrow>
          if rs_fd (deref r (ac_base s)) < 0 then (fail_with not_open, s)
          else (let (inflight, b) = make_operation_guard (Some r) (ac_base s)
                in if \<not> inflight then (fail_with operation_aborted, s)
                   else if \<not> ac_listening s then (fail_with not_listening, s)
                   else case try_start (ac_accept s) of
                          (None, _) \<Rightarrow> (fail_with busy, s)
                        | (Some e, os) \<Rightarrow> (Inr e, s\<lparr>ac_base := b, ac_accept := os\<rparr>)))"

record accept_round =
  ar_stale_top :: bool          \<comment> \<open>cancelled or closing at the top of the loop\<close>
  ar_accept4 :: "int + int"
  ar_accept :: "int + int"
  ar_setup :: "int option"      \<comment> \<open>\<open>errno\<close> of \<open>set_cloexec\<close> or \<open>set_nonblocking\<close>\<close>
  ar_stale_fd :: bool           \<comment> \<open>when a descriptor has been accepted\<close>
  ar_stale_wait :: bool         \<comment> \<open>before the wait\<close>
  ar_wait :: "unit result"
  ar_stale_woken :: bool

abbreviation (input) ENOSYS :: int where "ENOSYS \<equiv> 38"

text \<open>The descriptor or \<open>errno\<close>, and whether it needs \<open>set_cloexec\<close> and \<open>set_nonblocking\<close>.\<close>

definition accept_call :: "accept_round \<Rightarrow> (int + int) \<times> bool" where
  "accept_call x = (case ar_accept4 x of Inr fd \<Rightarrow> (Inr fd, False) | Inl errno \<Rightarrow> if errno = ENOSYS then (ar_accept x, True) else (Inl errno, True))"

fun accept_loop :: "accept_round list \<Rightarrow> int result option \<times> int list" where
  "accept_loop [] = (None, [])"
| "accept_loop (x # xs) =
     (if ar_stale_top x then (Some (fail_with operation_aborted), [])
      else case accept_call x of
             (Inr fd, needs_fd_setup) \<Rightarrow>
               (case (needs_fd_setup, ar_setup x) of
                  (True, Some errno) \<Rightarrow> (Some (fail (map_socket_errno errno)), [fd])
                | _ \<Rightarrow> if ar_stale_fd x then (Some (fail_with operation_aborted), [fd]) else (Some (Inr fd), []))
           | (Inl errno, _) \<Rightarrow>
               if errno = EINTR then accept_loop xs
               else if is_accept_transient_error errno then accept_loop xs
               else if errno = EAGAIN \<or> errno = EWOULDBLOCK then
                 if ar_stale_wait x then (Some (fail_with operation_aborted), [])
                 else (case ar_wait x of
                         Inl ec \<Rightarrow> (Some (Inl ec), [])
                       | Inr _ \<Rightarrow> if ar_stale_woken x then (Some (fail_with operation_aborted), []) else accept_loop xs)
               else (Some (fail (map_socket_errno errno)), []))"

definition accept_end :: "nat \<Rightarrow> acceptor \<Rightarrow> acceptor" where
  "accept_end r s =
     s\<lparr>ac_accept := op_finish (ac_accept s), ac_base := put_res r (remove_inflight (deref r (ac_base s))) (ac_base s)\<rparr>"

text \<open>
  \<open>basic_acceptor\<close>: accepting into a new stream socket, whose \<open>assign\<close> meets the given outcome of
  the descriptor flags and of \<open>add_fd\<close>.
\<close>

definition basic_async_accept ::
  "accept_round list \<Rightarrow> int option \<Rightarrow> bool \<Rightarrow> stream_socket result option \<times> int list" where
  "basic_async_accept rounds flags_errno add_ok =
     (case accept_loop rounds of
        (None, closed) \<Rightarrow> (None, closed)
      | (Some (Inl ec), closed) \<Rightarrow> (Some (Inl ec), closed)
      | (Some (Inr fd), closed) \<Rightarrow>
          (case stream_assign fd flags_errno add_ok stream_init of
             (Inl ec, closed', s) \<Rightarrow> (Some (Inl ec), closed @ closed')
           | (Inr _, closed', s) \<Rightarrow> (Some (Inr s), closed @ closed')))"

section \<open>Facts\<close>

text \<open>The descriptors the kernel hands out before the loop returns.\<close>

fun accepted :: "accept_round list \<Rightarrow> int list" where
  "accepted [] = []"
| "accepted (x # xs) =
     (if ar_stale_top x then []
      else case fst (accept_call x) of
             Inr fd \<Rightarrow> [fd]
           | Inl errno \<Rightarrow>
               if errno = EINTR \<or> is_accept_transient_error errno \<or>
                  errno = EAGAIN \<and> \<not> ar_stale_wait x \<and> ar_wait x = ok \<and> \<not> ar_stale_woken x
               then accepted xs else [])"

lemma accept_loop_accounts:
  "accepted xs = snd (accept_loop xs) @ (case fst (accept_loop xs) of Some (Inr fd) \<Rightarrow> [fd] | _ \<Rightarrow> [])"
proof (induction xs)
  case (Cons x xs)
  obtain a n where c: "accept_call x = (a, n)" by fastforce
  show ?case
  proof (cases a)
    case (Inl errno)
    then show ?thesis using Cons
      by (cases "ar_wait x") (auto simp: c fail_def ok_def)
  next
    case (Inr fd)
    then show ?thesis by (cases n; cases "ar_setup x") (auto simp: c fail_def)
  qed
qed simp

lemma stream_assign_accounts:
  assumes "stream_assign fd fe k stream_init = (x, closed, s)"
  shows "x = ok \<and> closed = [] \<and> usable_fd (ss_base s) = (if fd < 0 then fail_with not_open else Inr fd) \<and> ss_state s = Connected \<or>
    (\<exists>ec. x = Inl ec) \<and> closed = [fd]"
  using assms
  by (auto simp: stream_assign_def assign_end_def adopt_fd_def stream_init_def sock_init_def sk_install_def usable_fd_def deref_def
      fd_resource_init_def fail_def ok_def put_base_def set_state_def clear_shutdown_def split: option.splits if_splits)

section \<open>Properties\<close>

text \<open>
  (C35) No accepted descriptor is lost. Whatever the kernel answers and whenever the accept is
  cancelled or the acceptor closed: every descriptor accepted on behalf of \<open>async_accept\<close> is
  either closed again, exactly once, or the one inside the connected socket that is returned.
\<close>

theorem accept_loses_no_descriptor:
  assumes "basic_async_accept rounds flags_errno add_ok = (res, closed)"
    and "\<forall>fd \<in> set (accepted rounds). 0 \<le> fd"
  shows "(\<exists>s fd. res = Some (Inr s) \<and> accepted rounds = [fd] \<and> closed = [] \<and> usable_fd (ss_base s) = Inr fd \<and> ss_state s = Connected) \<or>
    (\<nexists>s. res = Some (Inr s)) \<and> closed = accepted rounds"
proof -
  obtain x c where l: "accept_loop rounds = (x, c)" by fastforce
  have acc: "accepted rounds = c @ (case x of Some (Inr fd) \<Rightarrow> [fd] | _ \<Rightarrow> [])"
    using accept_loop_accounts [of rounds] l by simp
  show ?thesis
  proof (cases "\<exists>fd. x = Some (Inr fd)")
    case True
    then obtain fd where x: "x = Some (Inr fd)" by blast
    then have "c = []" using l
    proof (induction rounds arbitrary: x c)
      case (Cons y ys)
      then show ?case by (auto simp: fail_def split: if_splits prod.splits sum.splits option.splits bool.splits)
    qed simp
    moreover obtain y c' s where a: "stream_assign fd flags_errno add_ok stream_init = (y, c', s)" by (metis prod_cases3)
    moreover have "0 \<le> fd" using assms(2) acc x by simp
    ultimately show ?thesis using assms(1) l x acc stream_assign_accounts [OF a]
      by (auto simp: basic_async_accept_def ok_def)
  next
    case False
    then show ?thesis using assms(1) l acc by (cases x) (auto simp: basic_async_accept_def split: sum.splits)
  qed
qed

definition accept_example :: "accept_round list" where
  "accept_example =
     (let quiet = \<lparr>ar_stale_top = False, ar_accept4 = Inl EAGAIN, ar_accept = Inl EAGAIN, ar_setup = None, ar_stale_fd = False,
        ar_stale_wait = False, ar_wait = ok, ar_stale_woken = False\<rparr>
      in [quiet, quiet\<lparr>ar_accept4 := Inl EPROTO\<rparr>, quiet\<lparr>ar_accept4 := Inr 9\<rparr>])"

theorem accept_loses_no_descriptor_witness:
  "accepted accept_example = [9] \<and> snd (basic_async_accept accept_example None True) = [] \<and>
   snd (basic_async_accept accept_example None False) = [9]"
proof -
  have a: "accepted accept_example = [9]" by code_simp
  have l: "accept_loop accept_example = (Some (Inr 9), [])" by code_simp
  obtain r1 c1 where r1: "basic_async_accept accept_example None True = (r1, c1)" by fastforce
  obtain r2 c2 where r2: "basic_async_accept accept_example None False = (r2, c2)" by fastforce
  have "\<exists>s. r1 = Some (Inr s)" "\<nexists>s. r2 = Some (Inr s)"
    using r1 r2 by (auto simp: basic_async_accept_def l stream_assign_def assign_end_def adopt_fd_def fail_def ok_def)
  then show ?thesis using accept_loses_no_descriptor [OF r1] accept_loses_no_descriptor [OF r2] r1 r2 a by auto
qed

text \<open>The loop returns as soon as the kernel gives a descriptor, unless it has returned before.\<close>

lemma accept_loop_returns:
  "x \<in> set xs \<Longrightarrow> ar_accept4 x = Inr fd \<Longrightarrow> fst (accept_loop xs) \<noteq> None"
proof (induction xs)
  case (Cons y ys)
  then show ?case by (auto simp: accept_call_def split: sum.splits option.splits bool.splits)
qed simp

end
