(* ===== verification/Endpoints.thy ===== *)
theory Endpoints
  imports Errors
begin

text \<open>
  Addresses and endpoints: \<open>ip/address_v4.hpp\<close>, \<open>ip/address_v6.hpp\<close>, \<open>ip/address.hpp\<close> with
  their \<open>.ipp\<close> files, \<open>ip/detail/endpoint_storage.hpp\<close>, \<open>ip/impl/endpoint_storage.ipp\<close> and
  \<open>local/endpoint.hpp\<close>.

  A socket address is the list of its bytes in the layout of Linux on a little-endian
  machine. The C library's \<open>inet_ntop\<close> and \<open>inet_pton\<close> are parameters: for 4 and for 16
  bytes, a printer and a parser of C strings, that is of the characters before the first
  NUL. A pointer that may be null is an \<open>option\<close>.
\<close>

unbundle bit_operations_syntax

section \<open>Bytes\<close>

definition le16 :: "u16 \<Rightarrow> u8 list" where
  "le16 w = [ucast w, ucast (drop_bit 8 w)]"

definition be16 :: "u16 \<Rightarrow> u8 list" where
  "be16 w = [ucast (drop_bit 8 w), ucast w]"

definition le32 :: "u32 \<Rightarrow> u8 list" where
  "le32 w = [ucast w, ucast (drop_bit 8 w), ucast (drop_bit 16 w), ucast (drop_bit 24 w)]"

definition get16 :: "u8 \<Rightarrow> u8 \<Rightarrow> u16" where
  "get16 lo hi = ucast lo OR push_bit 8 (ucast hi)"

definition get32 :: "u8 list \<Rightarrow> u32" where
  "get32 b = ucast (b ! 0) OR push_bit 8 (ucast (b ! 1)) OR push_bit 16 (ucast (b ! 2)) OR push_bit 24 (ucast (b ! 3))"

definition slice :: "nat \<Rightarrow> nat \<Rightarrow> 'a list \<Rightarrow> 'a list" where
  "slice off n xs = take n (drop off xs)"

abbreviation (input) AF_UNIX :: int where "AF_UNIX \<equiv> 1"
abbreviation (input) AF_INET :: int where "AF_INET \<equiv> 2"
abbreviation (input) AF_INET6 :: int where "AF_INET6 \<equiv> 10"

section \<open>Strings\<close>

definition c_str :: "string \<Rightarrow> string" where
  "c_str s = takeWhile (\<lambda>c. c \<noteq> CHR 0x00) s"

definition is_digit :: "char \<Rightarrow> bool" where
  "is_digit c \<longleftrightarrow> 48 \<le> (of_char c :: nat) \<and> (of_char c :: nat) \<le> 57"

definition digits_value :: "string \<Rightarrow> nat" where
  "digits_value ds = foldl (\<lambda>v c. 10 * v + (of_char c - 48)) 0 ds"

text \<open>\<open>std::from_chars\<close> for a 32-bit unsigned: the value and the number of characters read.\<close>

definition from_chars :: "string \<Rightarrow> (nat \<times> nat) option" where
  "from_chars s =
     (let ds = takeWhile is_digit s
      in if ds = [] \<or> 2 ^ 32 \<le> digits_value ds then None else Some (digits_value ds, length ds))"

text \<open>\<open>std::to_string\<close>.\<close>

fun std_to_string :: "nat \<Rightarrow> string" where
  "std_to_string n = (if n < 10 then [char_of (48 + n)] else std_to_string (n div 10) @ [char_of (48 + n mod 10)])"

declare std_to_string.simps [simp del]

text \<open>\<open>find\<close> and \<open>rfind\<close>.\<close>

primrec str_find :: "char \<Rightarrow> string \<Rightarrow> nat option" where
  "str_find c [] = None"
| "str_find c (x # xs) = (if x = c then Some 0 else map_option Suc (str_find c xs))"

primrec str_rfind :: "char \<Rightarrow> string \<Rightarrow> nat option" where
  "str_rfind c [] = None"
| "str_rfind c (x # xs) = (case str_rfind c xs of Some i \<Rightarrow> Some (Suc i) | None \<Rightarrow> if x = c then Some 0 else None)"

section \<open>Addresses\<close>

record address_v4 =
  a4_bytes :: "u8 list"

record address_v6 =
  a6_bytes :: "u8 list"
  a6_scope_id :: u32

datatype address = V4 address_v4 | V6 address_v6

definition any_v4 :: address_v4 where
  "any_v4 = \<lparr>a4_bytes = replicate 4 0\<rparr>"

definition loopback_v4 :: address_v4 where
  "loopback_v4 = \<lparr>a4_bytes = [127, 0, 0, 1]\<rparr>"

definition any_v6 :: address_v6 where
  "any_v6 = \<lparr>a6_bytes = replicate 16 0, a6_scope_id = 0\<rparr>"

definition loopback_v6 :: address_v6 where
  "loopback_v6 = \<lparr>a6_bytes = (replicate 16 0)[15 := 1], a6_scope_id = 0\<rparr>"

definition v4_is_loopback :: "address_v4 \<Rightarrow> bool" where
  "v4_is_loopback a \<longleftrightarrow> a4_bytes a = a4_bytes loopback_v4"

definition v6_is_loopback :: "address_v6 \<Rightarrow> bool" where
  "v6_is_loopback a \<longleftrightarrow> a6_bytes a = a6_bytes loopback_v6 \<and> a6_scope_id a = 0"

text \<open>The C library: printers and parsers of the two families.\<close>

record inet =
  ntop4 :: "u8 list \<Rightarrow> string option"
  pton4 :: "string \<Rightarrow> u8 list option"
  ntop6 :: "u8 list \<Rightarrow> string option"
  pton6 :: "string \<Rightarrow> u8 list option"

definition v4_to_string :: "inet \<Rightarrow> address_v4 \<Rightarrow> string" where
  "v4_to_string I a = (case ntop4 I (a4_bytes a) of None \<Rightarrow> ''0.0.0.0'' | Some s \<Rightarrow> s)"

definition v4_from_string :: "inet \<Rightarrow> string \<Rightarrow> address_v4 result" where
  "v4_from_string I s =
     (case pton4 I (c_str s) of None \<Rightarrow> fail_with invalid_argument | Some b \<Rightarrow> Inr \<lparr>a4_bytes = b\<rparr>)"

definition v6_to_string :: "inet \<Rightarrow> address_v6 \<Rightarrow> string" where
  "v6_to_string I a =
     (case ntop6 I (a6_bytes a) of
        None \<Rightarrow> ''::''
      | Some out \<Rightarrow> if a6_scope_id a \<noteq> 0 then out @ ''%'' @ std_to_string (unat (a6_scope_id a)) else out)"

definition v6_from_string :: "inet \<Rightarrow> string \<Rightarrow> address_v6 result" where
  "v6_from_string I s =
     (let parsed = (case str_find (CHR ''%'') s of
            Some pos \<Rightarrow>
              (let scope_str = drop (pos + 1) s
               in if scope_str = [] then None
                  else case from_chars scope_str of
                         None \<Rightarrow> None
                       | Some (v, n) \<Rightarrow> if n \<noteq> length scope_str then None else Some (take pos s, of_nat v))
          | None \<Rightarrow> Some (s, 0))
      in case parsed of
           None \<Rightarrow> fail_with invalid_argument
         | Some (ip_part, scope) \<Rightarrow>
             (case pton6 I (c_str ip_part) of
                None \<Rightarrow> fail_with invalid_argument
              | Some b \<Rightarrow> Inr \<lparr>a6_bytes = b, a6_scope_id = scope\<rparr>))"

definition address_to_string :: "inet \<Rightarrow> address \<Rightarrow> string" where
  "address_to_string I a = (case a of V4 a4 \<Rightarrow> v4_to_string I a4 | V6 a6 \<Rightarrow> v6_to_string I a6)"

definition address_from_string :: "inet \<Rightarrow> string \<Rightarrow> address result" where
  "address_from_string I s =
     (if str_find (CHR '':'') s \<noteq> None then map_sum id V6 (v6_from_string I s) else map_sum id V4 (v4_from_string I s))"

section \<open>Endpoints\<close>

record endpoint_storage =
  es_storage :: "u8 list"
  es_size :: nat

definition sizeof_sockaddr_in :: nat where "sizeof_sockaddr_in = 16"
definition sizeof_sockaddr_in6 :: nat where "sizeof_sockaddr_in6 = 28"
definition sizeof_sockaddr_storage :: nat where "sizeof_sockaddr_storage = 128"

text \<open>\<open>memset\<close> of the storage to zero and \<open>memcpy\<close> of the address to its front.\<close>

definition store_at_front :: "u8 list \<Rightarrow> u8 list" where
  "store_at_front sa = sa @ replicate (sizeof_sockaddr_storage - length sa) 0"

definition init_v4 :: "address_v4 \<Rightarrow> u16 \<Rightarrow> endpoint_storage" where
  "init_v4 addr port =
     \<lparr>es_storage = store_at_front (le16 2 @ be16 port @ a4_bytes addr @ replicate 8 0), es_size = sizeof_sockaddr_in\<rparr>"

definition init_v6 :: "address_v6 \<Rightarrow> u16 \<Rightarrow> endpoint_storage" where
  "init_v6 addr port =
     \<lparr>es_storage = store_at_front (le16 10 @ be16 port @ replicate 4 0 @ a6_bytes addr @ le32 (a6_scope_id addr)),
      es_size = sizeof_sockaddr_in6\<rparr>"

definition endpoint_of :: "address \<Rightarrow> u16 \<Rightarrow> endpoint_storage" where
  "endpoint_of addr port = (case addr of V4 a \<Rightarrow> init_v4 a port | V6 a \<Rightarrow> init_v6 a port)"

definition endpoint_default :: endpoint_storage where
  "endpoint_default = init_v4 any_v4 0"

definition sa_family :: "u8 list \<Rightarrow> int" where
  "sa_family sa = uint (get16 (sa ! 0) (sa ! 1))"

definition ep_family :: "endpoint_storage \<Rightarrow> int" where
  "ep_family ep = sa_family (es_storage ep)"

text \<open>\<open>address()\<close> and \<open>port()\<close>: \<open>None\<close> is the violated assertion.\<close>

definition ep_address :: "endpoint_storage \<Rightarrow> address option" where
  "ep_address ep =
     (if ep_family ep = AF_INET then Some (V4 \<lparr>a4_bytes = slice 4 4 (es_storage ep)\<rparr>)
      else if ep_family ep = AF_INET6 then
        Some (V6 \<lparr>a6_bytes = slice 8 16 (es_storage ep), a6_scope_id = get32 (slice 24 4 (es_storage ep))\<rparr>)
      else None)"

definition ep_port :: "endpoint_storage \<Rightarrow> u16 option" where
  "ep_port ep =
     (if ep_family ep = AF_INET \<or> ep_family ep = AF_INET6
      then Some (get16 (es_storage ep ! 3) (es_storage ep ! 2)) else None)"

text \<open>\<open>to_native\<close>: the buffer is null or a list of at least \<open>len\<close> bytes.\<close>

definition ep_to_native :: "u8 list option \<Rightarrow> nat \<Rightarrow> endpoint_storage \<Rightarrow> nat result \<times> u8 list option" where
  "ep_to_native addr len ep =
     (case addr of
        None \<Rightarrow> (fail_with invalid_argument, None)
      | Some buf \<Rightarrow>
          if len = 0 then (fail_with invalid_argument, Some buf)
          else if len < es_size ep then (fail_with invalid_endpoint, Some buf)
          else (Inr (es_size ep), Some (take (es_size ep) (es_storage ep) @ drop (es_size ep) buf)))"

definition ep_from_native :: "u8 list option \<Rightarrow> nat \<Rightarrow> endpoint_storage result" where
  "ep_from_native addr len =
     (case addr of
        None \<Rightarrow> fail_with invalid_argument
      | Some sa \<Rightarrow>
          if len = 0 then fail_with invalid_argument
          else if len > sizeof_sockaddr_storage then fail_with invalid_endpoint
          else if sa_family sa \<noteq> AF_INET \<and> sa_family sa \<noteq> AF_INET6 then fail_with unsupported_address_family
          else (let required_len = (if sa_family sa = AF_INET then sizeof_sockaddr_in else sizeof_sockaddr_in6)
                in if len < required_len then fail_with invalid_endpoint
                   else Inr \<lparr>es_storage = store_at_front (take required_len sa), es_size = required_len\<rparr>))"

definition ep_to_string :: "inet \<Rightarrow> endpoint_storage \<Rightarrow> string option" where
  "ep_to_string I ep =
     (case (ep_address ep, ep_port ep) of
        (Some a, Some p) \<Rightarrow>
          Some (if ep_family ep = AF_INET6 then ''['' @ address_to_string I a @ '']:'' @ std_to_string (unat p)
                else address_to_string I a @ '':'' @ std_to_string (unat p))
      | _ \<Rightarrow> None)"

definition parse_port :: "string \<Rightarrow> u16 result" where
  "parse_port p =
     (if p = [] then fail_with invalid_argument
      else case from_chars p of
             None \<Rightarrow> fail_with invalid_argument
           | Some (v, n) \<Rightarrow> if n \<noteq> length p \<or> v > 65535 then fail_with invalid_argument else Inr (of_nat v))"

definition ep_from_string :: "inet \<Rightarrow> string \<Rightarrow> endpoint_storage result" where
  "ep_from_string I s =
     (if s = [] then fail_with invalid_argument
      else if s ! 0 = CHR ''['' then
        (case str_find (CHR '']'') s of
           None \<Rightarrow> fail_with invalid_argument
         | Some close \<Rightarrow>
             if close + 2 > length s \<or> s ! (close + 1) \<noteq> CHR '':'' then fail_with invalid_argument
             else (case parse_port (drop (close + 2) s) of
                     Inl e \<Rightarrow> Inl e
                   | Inr port \<Rightarrow> (case v6_from_string I (slice 1 (close - 1) s) of
                       Inl e \<Rightarrow> Inl e | Inr a6 \<Rightarrow> Inr (init_v6 a6 port))))
      else
        (case str_rfind (CHR '':'') s of
           None \<Rightarrow> fail_with invalid_argument
         | Some pos \<Rightarrow>
             if str_find (CHR '':'') (take pos s) \<noteq> None then fail_with invalid_argument
             else (case parse_port (drop (pos + 1) s) of
                     Inl e \<Rightarrow> Inl e
                   | Inr port \<Rightarrow> (case v4_from_string I (take pos s) of
                       Inl e \<Rightarrow> Inl e | Inr a4 \<Rightarrow> Inr (init_v4 a4 port)))))"

text \<open>Comparison: family, then address (a defaulted comparison of members), then port.\<close>

datatype strong_ordering = Less | Equal | Greater

fun then_cmp :: "strong_ordering \<Rightarrow> strong_ordering \<Rightarrow> strong_ordering" where
  "then_cmp Equal y = y"
| "then_cmp x y = x"

definition cmp_nat :: "nat \<Rightarrow> nat \<Rightarrow> strong_ordering" where
  "cmp_nat a b = (if a < b then Less else if a = b then Equal else Greater)"

fun cmp_list :: "u8 list \<Rightarrow> u8 list \<Rightarrow> strong_ordering" where
  "cmp_list [] [] = Equal"
| "cmp_list [] (y # ys) = Less"
| "cmp_list (x # xs) [] = Greater"
| "cmp_list (x # xs) (y # ys) = then_cmp (cmp_nat (unat x) (unat y)) (cmp_list xs ys)"

fun cmp_address :: "address \<Rightarrow> address \<Rightarrow> strong_ordering" where
  "cmp_address (V4 a) (V4 b) = cmp_list (a4_bytes a) (a4_bytes b)"
| "cmp_address (V6 a) (V6 b) = then_cmp (cmp_list (a6_bytes a) (a6_bytes b))
     (cmp_nat (unat (a6_scope_id a)) (unat (a6_scope_id b)))"
| "cmp_address (V4 a) (V6 b) = Less"
| "cmp_address (V6 a) (V4 b) = Greater"

definition ep_compare :: "endpoint_storage \<Rightarrow> endpoint_storage \<Rightarrow> strong_ordering" where
  "ep_compare a b = then_cmp (cmp_nat (nat (ep_family a)) (nat (ep_family b)))
     (then_cmp (cmp_address (the (ep_address a)) (the (ep_address b)))
       (cmp_nat (unat (the (ep_port a))) (unat (the (ep_port b)))))"

definition ep_eq :: "endpoint_storage \<Rightarrow> endpoint_storage \<Rightarrow> bool" where
  "ep_eq a b \<longleftrightarrow> ep_family a = ep_family b \<and> ep_address a = ep_address b \<and> ep_port a = ep_port b"

section \<open>Local endpoints\<close>

record local_endpoint =
  le_addr :: "u8 list"
  le_size :: nat

definition sizeof_sun_path :: nat where "sizeof_sun_path = 108"
definition sizeof_sockaddr_un :: nat where "sizeof_sockaddr_un = 110"
definition offset_sun_path :: nat where "offset_sun_path = 2"

definition local_default :: local_endpoint where
  "local_default = \<lparr>le_addr = le16 1 @ replicate sizeof_sun_path 0, le_size = offset_sun_path\<rparr>"

definition from_path :: "u8 list \<Rightarrow> local_endpoint result" where
  "from_path path =
     (if path = [] then fail_with invalid_argument
      else if length path + 1 > sizeof_sun_path then fail_with invalid_argument
      else Inr \<lparr>le_addr = le16 1 @ path @ replicate (sizeof_sun_path - length path) 0,
                le_size = offset_sun_path + length path + 1\<rparr>)"

definition from_abstract :: "u8 list \<Rightarrow> local_endpoint result" where
  "from_abstract name =
     (if name = [] then fail_with invalid_argument
      else if length name > sizeof_sun_path - 1 then fail_with invalid_argument
      else Inr \<lparr>le_addr = le16 1 @ 0 # name @ replicate (sizeof_sun_path - 1 - length name) 0,
                le_size = offset_sun_path + 1 + length name\<rparr>)"

definition local_from_native :: "u8 list option \<Rightarrow> nat \<Rightarrow> local_endpoint result" where
  "local_from_native addr len =
     (case addr of
        None \<Rightarrow> fail_with invalid_argument
      | Some sa \<Rightarrow>
          if len = 0 then fail_with invalid_argument
          else if sa_family sa \<noteq> AF_UNIX then fail_with unsupported_address_family
          else if len < offset_sun_path + 1 then fail_with invalid_endpoint
          else if len > sizeof_sockaddr_un then fail_with invalid_endpoint
          else (let ep = \<lparr>le_addr = take len sa @ replicate (sizeof_sockaddr_un - len) 0, le_size = len\<rparr>
                in if le_addr ep ! offset_sun_path = 0 \<and> len = offset_sun_path + 1 then fail_with invalid_endpoint
                   else Inr ep))"

definition local_to_native :: "u8 list option \<Rightarrow> nat \<Rightarrow> local_endpoint \<Rightarrow> nat result \<times> u8 list option" where
  "local_to_native addr len ep =
     (case addr of
        None \<Rightarrow> (fail_with invalid_argument, None)
      | Some buf \<Rightarrow>
          if len = 0 then (fail_with invalid_argument, Some buf)
          else if le_size ep < offset_sun_path + 1 then (fail_with invalid_endpoint, Some buf)
          else if len < le_size ep then (fail_with invalid_endpoint, Some buf)
          else (Inr (le_size ep), Some (take (le_size ep) (le_addr ep) @ drop (le_size ep) buf)))"

section \<open>Facts\<close>

lemma get16_split: "get16 (ucast w) (ucast (drop_bit 8 w)) = w"
  by (rule bit_word_eqI) (auto simp: get16_def bit_simps)

lemma get32_split: "get32 (le32 w) = w"
proof (rule bit_word_eqI)
  fix n
  assume "n < LENGTH(32)"
  then consider "n < 8" | "8 \<le> n" "n < 16" | "16 \<le> n" "n < 24" | "24 \<le> n" "n < 32" by force
  then show "bit (get32 (le32 w)) n = bit w n"
    by cases (auto simp: get32_def le32_def bit_simps)
qed

lemma length_le [simp]: "length (le16 v) = 2" "length (be16 v) = 2" "length (le32 w) = 4"
  by (simp_all add: le16_def be16_def le32_def)

lemma is_digit_char:
  fixes d :: nat
  assumes "d < 10"
  shows "is_digit (char_of (48 + d))" "of_char (char_of (48 + d)) = 48 + d"
  using assms by (simp_all add: is_digit_def)

lemma digits_value_append: "digits_value (xs @ [c]) = 10 * digits_value xs + (of_char c - 48)"
  by (simp add: digits_value_def)

lemma std_to_string_facts:
  "std_to_string n \<noteq> [] \<and> list_all is_digit (std_to_string n) \<and> digits_value (std_to_string n) = n"
proof (induction n rule: std_to_string.induct)
  case (1 n)
  show ?case
  proof (cases "n < 10")
    case True
    then show ?thesis using is_digit_char [of n] by (simp add: std_to_string.simps [of n] digits_value_def)
  next
    case False
    then show ?thesis using 1 is_digit_char [of "n mod 10"]
      by (simp add: std_to_string.simps [of n] digits_value_append)
  qed
qed

lemma from_chars_to_string: "n < 2 ^ 32 \<Longrightarrow> from_chars (std_to_string n) = Some (n, length (std_to_string n))"
proof -
  assume n: "n < 2 ^ 32"
  have "takeWhile is_digit (std_to_string n) = std_to_string n"
    using std_to_string_facts [of n] by (simp add: list_all_iff)
  then show ?thesis using n
    by (simp only: from_chars_def Let_def std_to_string_facts not_le [symmetric] simp_thms if_False)
qed

lemma parse_port_to_string: "parse_port (std_to_string (unat p)) = Inr p"
proof -
  have p: "unat p < 65536" using unat_word_less [of p] by simp
  have "from_chars (std_to_string (unat p)) = Some (unat p, length (std_to_string (unat p)))"
    using p by (intro from_chars_to_string) simp
  then show ?thesis using p std_to_string_facts [of "unat p"] by (simp add: parse_port_def)
qed

lemma str_find_append:
  "c \<notin> set xs \<Longrightarrow> str_find c (xs @ ys) = map_option ((+) (length xs)) (str_find c ys)"
  by (induction xs; cases "str_find c ys") auto

lemma str_find_None: "str_find c xs = None \<longleftrightarrow> c \<notin> set xs"
  by (induction xs) auto

lemma str_rfind_append:
  "c \<notin> set ys \<Longrightarrow> str_rfind c (xs @ c # ys) = Some (length xs)"
proof -
  assume c: "c \<notin> set ys"
  have "str_rfind c ys = None" using c by (induction ys) auto
  then show ?thesis by (induction xs) simp_all
qed

lemma digit_not: "list_all is_digit xs \<Longrightarrow> \<not> is_digit c \<Longrightarrow> c \<notin> set xs"
  by (auto simp: list_all_iff)

lemma not_digits: "\<not> is_digit (CHR '':'')" "\<not> is_digit (CHR ''%'')" "\<not> is_digit (CHR '']'')" "\<not> is_digit (CHR 0x00)"
  by (simp_all add: is_digit_def)

lemma c_str_id: "CHR 0x00 \<notin> set s \<Longrightarrow> c_str s = s"
  by (auto simp: c_str_def takeWhile_eq_all_conv)

section \<open>Well-formed endpoints\<close>

text \<open>
  What the assertions of \<open>endpoint_storage\<close> rely on: the storage has its full size, the family
  is one of the two internet families and the recorded size is that of the family's address
  structure; nothing lies behind it.
\<close>

definition address_wf :: "address \<Rightarrow> bool" where
  "address_wf a = (case a of V4 x \<Rightarrow> length (a4_bytes x) = 4 | V6 x \<Rightarrow> length (a6_bytes x) = 16)"

definition ep_wf :: "endpoint_storage \<Rightarrow> bool" where
  "ep_wf ep \<longleftrightarrow> length (es_storage ep) = sizeof_sockaddr_storage \<and>
     (ep_family ep = AF_INET \<and> es_size ep = sizeof_sockaddr_in \<or> ep_family ep = AF_INET6 \<and> es_size ep = sizeof_sockaddr_in6) \<and>
     drop (es_size ep) (es_storage ep) = replicate (sizeof_sockaddr_storage - es_size ep) 0"

text \<open>The documented behaviour of \<open>inet_pton\<close> and \<open>inet_ntop\<close> the endpoints rely on.\<close>

definition inet_parses :: "inet \<Rightarrow> bool" where
  "inet_parses I \<longleftrightarrow> (\<forall>s b. pton4 I s = Some b \<longrightarrow> length b = 4) \<and> (\<forall>s b. pton6 I s = Some b \<longrightarrow> length b = 16)"

definition inet_prints :: "inet \<Rightarrow> bool" where
  "inet_prints I \<longleftrightarrow>
     (\<forall>b. length b = 4 \<longrightarrow> (\<exists>s. ntop4 I b = Some s \<and> pton4 I s = Some b \<and> s \<noteq> [] \<and> set s \<subseteq> set ''0123456789.'')) \<and>
     (\<forall>b. length b = 16 \<longrightarrow> (\<exists>s. ntop6 I b = Some s \<and> pton6 I s = Some b \<and> CHR '':'' \<in> set s \<and>
                                set s \<subseteq> set ''0123456789abcdef.:''))"

lemmas es_sizes = sizeof_sockaddr_in_def sizeof_sockaddr_in6_def sizeof_sockaddr_storage_def

lemma length_store_at_front:
  "length sa \<le> sizeof_sockaddr_storage \<Longrightarrow> length (store_at_front sa) = sizeof_sockaddr_storage"
  by (simp add: store_at_front_def)

lemma nth_store_at_front: "i < length sa \<Longrightarrow> store_at_front sa ! i = sa ! i"
  by (simp add: store_at_front_def nth_append)

lemma slice_store_at_front: "off + n \<le> length sa \<Longrightarrow> slice off n (store_at_front sa) = slice off n sa"
  by (simp add: slice_def store_at_front_def)

lemma sa_family_store: "2 \<le> length sa \<Longrightarrow> sa_family (store_at_front sa) = sa_family sa"
  unfolding sa_family_def using nth_store_at_front [of 0 sa] nth_store_at_front [of 1 sa] by fastforce

lemma sa_family_le16: "sa_family (le16 v @ xs) = uint v"
  by (simp add: sa_family_def le16_def get16_split)

lemma port_be16: "get16 ((le16 v @ be16 p @ xs) ! 3) ((le16 v @ be16 p @ xs) ! 2) = p"
  by (simp add: le16_def be16_def get16_split)

text \<open>An endpoint made from an address and a port is well formed, and gives both back.\<close>

lemma endpoint_of_v4:
  assumes "length (a4_bytes a) = 4"
  shows "ep_wf (init_v4 a p)" "ep_family (init_v4 a p) = AF_INET"
    "ep_address (init_v4 a p) = Some (V4 a)" "ep_port (init_v4 a p) = Some p"
proof -
  let ?sa = "le16 2 @ be16 p @ a4_bytes a @ replicate 8 0"
  have l: "length ?sa = 16" using assms by simp
  show f: "ep_family (init_v4 a p) = AF_INET"
    using l by (simp add: ep_family_def init_v4_def sa_family_store sa_family_le16)
  show "ep_wf (init_v4 a p)"
    using l f by (simp add: ep_wf_def init_v4_def length_store_at_front es_sizes) (simp add: store_at_front_def es_sizes)
  have "slice 4 4 (store_at_front ?sa) = a4_bytes a"
    using l assms by (simp add: slice_store_at_front) (simp add: slice_def)
  then show "ep_address (init_v4 a p) = Some (V4 a)"
    using f by (simp add: ep_address_def) (simp add: init_v4_def)
  have "get16 (store_at_front ?sa ! 3) (store_at_front ?sa ! 2) = p"
    using l by (simp only: nth_store_at_front port_be16)
  then show "ep_port (init_v4 a p) = Some p" using f by (simp add: ep_port_def) (simp add: init_v4_def)
qed

lemma endpoint_of_v6:
  assumes "length (a6_bytes a) = 16"
  shows "ep_wf (init_v6 a p)" "ep_family (init_v6 a p) = AF_INET6"
    "ep_address (init_v6 a p) = Some (V6 a)" "ep_port (init_v6 a p) = Some p"
proof -
  let ?sa = "le16 10 @ be16 p @ replicate 4 0 @ a6_bytes a @ le32 (a6_scope_id a)"
  have l: "length ?sa = 28" using assms by simp
  show f: "ep_family (init_v6 a p) = AF_INET6"
    using l by (simp add: ep_family_def init_v6_def sa_family_store sa_family_le16)
  show "ep_wf (init_v6 a p)"
    using l f by (simp add: ep_wf_def init_v6_def length_store_at_front es_sizes) (simp add: store_at_front_def es_sizes)
  have "slice 8 16 (store_at_front ?sa) = a6_bytes a" "slice 24 4 (store_at_front ?sa) = le32 (a6_scope_id a)"
    using l assms by (simp_all add: slice_store_at_front) (simp_all add: slice_def)
  then show "ep_address (init_v6 a p) = Some (V6 a)"
    using f by (simp add: ep_address_def) (simp add: init_v6_def get32_split)
  have "get16 (store_at_front ?sa ! 3) (store_at_front ?sa ! 2) = p"
    using l by (simp only: nth_store_at_front port_be16)
  then show "ep_port (init_v6 a p) = Some p" using f by (simp add: ep_port_def) (simp add: init_v6_def)
qed

lemma endpoint_of_wf:
  "address_wf a \<Longrightarrow> ep_wf (endpoint_of a p) \<and> ep_address (endpoint_of a p) = Some a \<and> ep_port (endpoint_of a p) = Some p"
  by (cases a) (simp_all add: address_wf_def endpoint_of_def endpoint_of_v4 endpoint_of_v6)

lemma ep_from_native_wf:
  assumes "ep_from_native (Some sa) len = Inr ep" "len \<le> length sa"
  shows "ep_wf ep"
proof -
  define r where "r = (if sa_family sa = AF_INET then sizeof_sockaddr_in else sizeof_sockaddr_in6)"
  have f: "sa_family sa = AF_INET \<or> sa_family sa = AF_INET6" and r: "r \<le> len"
    and ep: "ep = \<lparr>es_storage = store_at_front (take r sa), es_size = r\<rparr>"
    using assms(1) by (auto simp: ep_from_native_def r_def Let_def fail_def split: if_splits)
  have l: "length (take r sa) = r" "2 \<le> r" "r \<le> 128" using r assms(2) by (auto simp: r_def es_sizes)
  have "sa_family (take r sa) = sa_family sa" using l by (simp add: sa_family_def)
  then have fam: "ep_family ep = sa_family sa" using l ep by (simp add: ep_family_def sa_family_store)
  have len: "length (es_storage ep) = sizeof_sockaddr_storage" using l ep by (simp add: length_store_at_front es_sizes)
  have "drop r (es_storage ep) = replicate (sizeof_sockaddr_storage - r) 0"
    using l(1) ep by (simp add: store_at_front_def)
  then show ?thesis using fam len f ep unfolding ep_wf_def by (auto simp: r_def)
qed

lemma v4_from_string_length: "inet_parses I \<Longrightarrow> v4_from_string I s = Inr a \<Longrightarrow> length (a4_bytes a) = 4"
  by (auto simp: v4_from_string_def inet_parses_def fail_def split: option.splits)

lemma v6_from_string_length: "inet_parses I \<Longrightarrow> v6_from_string I s = Inr a \<Longrightarrow> length (a6_bytes a) = 16"
  by (auto simp: v6_from_string_def inet_parses_def Let_def fail_def split: option.splits if_splits)

lemma ep_from_string_wf:
  assumes "inet_parses I" "ep_from_string I s = Inr ep"
  shows "ep_wf ep"
proof -
  have "(\<exists>a p t. v6_from_string I t = Inr a \<and> ep = init_v6 a p) \<or> (\<exists>a p t. v4_from_string I t = Inr a \<and> ep = init_v4 a p)"
    using assms(2) by (auto simp: ep_from_string_def fail_def split: if_splits option.splits sum.splits)
  then show ?thesis
    using assms(1) endpoint_of_v4(1) endpoint_of_v6(1) v4_from_string_length v6_from_string_length by blast
qed

lemma ep_wf_native_roundtrip:
  assumes "ep_wf ep" "es_size ep \<le> len" "len \<le> length buf"
  shows "\<exists>out. ep_to_native (Some buf) len ep = (Inr (es_size ep), Some out) \<and> length out = length buf \<and>
           ep_from_native (Some out) (es_size ep) = Inr ep"
proof -
  let ?n = "es_size ep" and ?st = "es_storage ep"
  let ?out = "take ?n ?st @ drop ?n buf"
  have l: "length ?st = 128" "2 \<le> ?n" "?n \<le> 128" and f: "ep_family ep = AF_INET \<or> ep_family ep = AF_INET6"
    and n: "?n = (if ep_family ep = AF_INET then sizeof_sockaddr_in else sizeof_sockaddr_in6)"
    and z: "drop ?n ?st = replicate (sizeof_sockaddr_storage - ?n) 0"
    using assms(1) by (auto simp: ep_wf_def es_sizes)
  have out: "take ?n ?out = take ?n ?st" using l by simp
  have "sa_family ?out = ep_family ep" using l by (simp add: sa_family_def ep_family_def nth_append)
  moreover have "store_at_front (take ?n ?out) = ?st"
    unfolding out store_at_front_def using l append_take_drop_id [of ?n ?st] z by simp
  ultimately have "ep_from_native (Some ?out) ?n = Inr ep"
    using l f n by (auto simp: ep_from_native_def Let_def es_sizes)
  moreover have "ep_to_native (Some buf) len ep = (Inr ?n, Some ?out)"
    using assms(2) l by (auto simp: ep_to_native_def)
  ultimately show ?thesis using assms(2,3) l by auto
qed

section \<open>The string form\<close>

lemma inet_printsD4:
  "inet_prints I \<Longrightarrow> length b = 4 \<Longrightarrow>
     \<exists>s. ntop4 I b = Some s \<and> pton4 I s = Some b \<and> s \<noteq> [] \<and> set s \<subseteq> set ''0123456789.''"
  unfolding inet_prints_def by blast

lemma inet_printsD6:
  "inet_prints I \<Longrightarrow> length b = 16 \<Longrightarrow>
     \<exists>s. ntop6 I b = Some s \<and> pton6 I s = Some b \<and> CHR '':'' \<in> set s \<and> set s \<subseteq> set ''0123456789abcdef.:''"
  unfolding inet_prints_def by blast

lemma to_string_digits: "\<not> is_digit c \<Longrightarrow> c \<notin> set (std_to_string n)"
  using std_to_string_facts digit_not by blast

lemma v4_string_roundtrip:
  assumes "inet_prints I" "length (a4_bytes a) = 4"
  shows "v4_from_string I (v4_to_string I a) = Inr a"
    "v4_to_string I a \<noteq> []" "set (v4_to_string I a) \<subseteq> set ''0123456789.''"
proof -
  obtain s where s: "ntop4 I (a4_bytes a) = Some s" "pton4 I s = Some (a4_bytes a)" "s \<noteq> []" "set s \<subseteq> set ''0123456789.''"
    using inet_printsD4 [OF assms] by blast
  then have ts: "v4_to_string I a = s" by (simp add: v4_to_string_def)
  have "c_str s = s" using s(4) by (intro c_str_id) auto
  then show "v4_from_string I (v4_to_string I a) = Inr a" by (simp add: ts v4_from_string_def s(2))
  show "v4_to_string I a \<noteq> []" "set (v4_to_string I a) \<subseteq> set ''0123456789.''" using s ts by auto
qed

lemma v6_string_roundtrip:
  assumes "inet_prints I" "length (a6_bytes a) = 16"
  shows "v6_from_string I (v6_to_string I a) = Inr a" "CHR '']'' \<notin> set (v6_to_string I a)" "CHR '':'' \<in> set (v6_to_string I a)"
proof -
  obtain s where s: "ntop6 I (a6_bytes a) = Some s" "pton6 I s = Some (a6_bytes a)" "CHR '':'' \<in> set s"
      "set s \<subseteq> set ''0123456789abcdef.:''"
    using inet_printsD6 [OF assms] by blast
  let ?d = "std_to_string (unat (a6_scope_id a))"
  have ts: "v6_to_string I a = (if a6_scope_id a \<noteq> 0 then s @ ''%'' @ ?d else s)" using s by (simp add: v6_to_string_def)
  have c: "c_str s = s" using s(4) by (intro c_str_id) auto
  have pc: "CHR ''%'' \<notin> set s" "CHR '']'' \<notin> set s" using s(4) by auto
  have sc: "from_chars ?d = Some (unat (a6_scope_id a), length ?d)" "?d \<noteq> []"
    using unat_word_less [of "a6_scope_id a"] std_to_string_facts by (auto intro: from_chars_to_string)
  show "v6_from_string I (v6_to_string I a) = Inr a"
  proof (cases "a6_scope_id a = 0")
    case True
    then show ?thesis using pc c by (simp add: ts v6_from_string_def str_find_None s(2) flip: str_find_None)
  next
    case False
    have "str_find (CHR ''%'') (s @ ''%'' @ ?d) = Some (length s)" using pc by (simp add: str_find_append)
    then show ?thesis using False c sc by (simp add: ts v6_from_string_def s(2))
  qed
  show "CHR '']'' \<notin> set (v6_to_string I a)" "CHR '':'' \<in> set (v6_to_string I a)"
    using pc s(3) to_string_digits not_digits by (auto simp: ts)
qed

lemma ep_string_roundtrip_v4:
  assumes "inet_prints I" "length (a4_bytes a) = 4"
  shows "ep_from_string I (v4_to_string I a @ '':'' @ std_to_string (unat p)) = Inr (init_v4 a p)"
proof -
  let ?t = "v4_to_string I a" and ?d = "std_to_string (unat p)"
  note rt = v4_string_roundtrip [OF assms]
  have hd: "(?t @ '':'' @ ?d) ! 0 \<noteq> CHR ''[''" using rt(2,3) by (cases ?t) auto
  have "str_rfind (CHR '':'') (?t @ '':'' @ ?d) = Some (length ?t)"
    using to_string_digits not_digits by (simp add: str_rfind_append)
  moreover have "str_find (CHR '':'') ?t = None" using rt(3) by (auto simp: str_find_None)
  ultimately show ?thesis using hd rt(1) by (simp add: ep_from_string_def parse_port_to_string)
qed

lemma ep_string_roundtrip_v6:
  assumes "inet_prints I" "length (a6_bytes a) = 16"
  shows "ep_from_string I (''['' @ v6_to_string I a @ '']:'' @ std_to_string (unat p)) = Inr (init_v6 a p)"
proof -
  let ?t = "v6_to_string I a" and ?d = "std_to_string (unat p)"
  let ?s = "''['' @ ?t @ '']:'' @ ?d"
  note rt = v6_string_roundtrip [OF assms]
  have cl: "str_find (CHR '']'') ?s = Some (length ?t + 1)" using rt(2) by (simp add: str_find_append)
  have "?s ! (length ?t + 1 + 1) = CHR '':''" by (simp add: nth_append)
  moreover have "drop (length ?t + 1 + 2) ?s = ?d" "slice 1 (length ?t + 1 - 1) ?s = ?t" by (simp_all add: slice_def)
  ultimately show ?thesis using rt(1) cl by (simp add: ep_from_string_def parse_port_to_string)
qed

lemma ep_string_roundtrip:
  assumes "inet_prints I" "address_wf a"
  shows "\<exists>s. ep_to_string I (endpoint_of a p) = Some s \<and> ep_from_string I s = Inr (endpoint_of a p)"
proof (cases a)
  case (V4 x)
  then have l: "length (a4_bytes x) = 4" using assms by (simp add: address_wf_def)
  show ?thesis using ep_string_roundtrip_v4 [OF assms(1) l, of p]
    by (simp add: V4 endpoint_of_def ep_to_string_def endpoint_of_v4 [OF l] address_to_string_def)
next
  case (V6 x)
  then have l: "length (a6_bytes x) = 16" using assms by (simp add: address_wf_def)
  show ?thesis using ep_string_roundtrip_v6 [OF assms(1) l, of p]
    by (simp add: V6 endpoint_of_def ep_to_string_def endpoint_of_v6 [OF l] address_to_string_def)
qed

lemma address_string_roundtrip:
  assumes "inet_prints I" "address_wf a"
  shows "address_from_string I (address_to_string I a) = Inr a"
proof (cases a)
  case (V4 x)
  then have l: "length (a4_bytes x) = 4" using assms by (simp add: address_wf_def)
  have "CHR '':'' \<notin> set (v4_to_string I x)" using v4_string_roundtrip(3) [OF assms(1) l] by auto
  then show ?thesis using v4_string_roundtrip(1) [OF assms(1) l]
    by (simp add: V4 address_from_string_def address_to_string_def str_find_None)
next
  case (V6 x)
  then have l: "length (a6_bytes x) = 16" using assms by (simp add: address_wf_def)
  show ?thesis using v6_string_roundtrip(1,3) [OF assms(1) l]
    by (simp add: V6 address_from_string_def address_to_string_def str_find_None)
qed

text \<open>Only the characters before the first NUL of an address text are read: the rest is ignored.\<close>

lemma v4_from_string_nul: "v4_from_string I (s @ CHR 0x00 # t) = v4_from_string I s"
proof -
  have "c_str (s @ CHR 0x00 # t) = c_str s" by (induction s) (simp_all add: c_str_def)
  then show ?thesis by (simp add: v4_from_string_def)
qed

section \<open>Comparison\<close>

lemma then_cmp_Equal [simp]: "then_cmp x y = Equal \<longleftrightarrow> x = Equal \<and> y = Equal"
  by (cases x) simp_all

lemma cmp_nat_Equal [simp]: "cmp_nat a b = Equal \<longleftrightarrow> a = b"
  by (simp add: cmp_nat_def)

lemma cmp_list_Equal [simp]: "cmp_list xs ys = Equal \<longleftrightarrow> xs = ys"
  by (induction xs ys rule: cmp_list.induct) (auto simp: word_unat_eq_iff)

lemma cmp_address_Equal: "cmp_address a b = Equal \<longleftrightarrow> a = b"
  by (cases a; cases b) (auto simp: word_unat_eq_iff)

lemma ep_wf_some: "ep_wf ep \<Longrightarrow> \<exists>a p. ep_address ep = Some a \<and> ep_port ep = Some p \<and> 0 \<le> ep_family ep"
  by (auto simp: ep_wf_def ep_address_def ep_port_def)

lemma ep_compare_Equal:
  assumes "ep_wf a" "ep_wf b"
  shows "ep_compare a b = Equal \<longleftrightarrow> ep_eq a b"
proof -
  obtain x p y q where "ep_address a = Some x" "ep_port a = Some p" "0 \<le> ep_family a"
      "ep_address b = Some y" "ep_port b = Some q" "0 \<le> ep_family b"
    using ep_wf_some [OF assms(1)] ep_wf_some [OF assms(2)] by (elim exE conjE) (rule that)
  then show ?thesis
    unfolding ep_compare_def ep_eq_def then_cmp_Equal cmp_nat_Equal cmp_address_Equal
    by (simp only: option.sel option.inject eq_nat_nat_iff word_unat_eq_iff [symmetric])
qed

section \<open>Local endpoints\<close>

definition local_wf :: "local_endpoint \<Rightarrow> bool" where
  "local_wf ep \<longleftrightarrow> length (le_addr ep) = sizeof_sockaddr_un \<and> sa_family (le_addr ep) = AF_UNIX \<and>
     offset_sun_path + 1 < le_size ep \<and> le_size ep \<le> sizeof_sockaddr_un \<and>
     drop (le_size ep) (le_addr ep) = replicate (sizeof_sockaddr_un - le_size ep) 0"

lemmas un_sizes = sizeof_sun_path_def sizeof_sockaddr_un_def offset_sun_path_def

lemma local_wf_stored:
  assumes "length bs \<le> 108" "n \<le> 108" "1 < n" "length bs \<le> n"
  shows "local_wf \<lparr>le_addr = le16 1 @ bs @ replicate (108 - length bs) 0, le_size = 2 + n\<rparr>"
proof -
  have "drop n (bs @ replicate (108 - length bs) 0) = replicate (108 - n) 0" using assms by simp
  then show ?thesis using assms by (simp add: local_wf_def un_sizes sa_family_le16)
qed

lemma from_path_wf: "from_path path = Inr ep \<Longrightarrow> local_wf ep \<and> slice offset_sun_path (length path) (le_addr ep) = path"
  using local_wf_stored [of path "length path + 1"]
  by (auto simp: from_path_def fail_def un_sizes slice_def le16_def Suc_le_eq split: if_splits)

lemma from_abstract_wf:
  "from_abstract name = Inr ep \<Longrightarrow> local_wf ep \<and> slice (offset_sun_path + 1) (length name) (le_addr ep) = name \<and>
     le_size ep = offset_sun_path + 1 + length name"
  using local_wf_stored [of "0 # name" "length name + 1"]
  by (auto simp: from_abstract_def fail_def un_sizes slice_def le16_def Suc_le_eq numeral_3_eq_3 split: if_splits)

lemma local_native_roundtrip:
  assumes "local_wf ep" "le_size ep \<le> len" "len \<le> length buf"
  shows "\<exists>out. local_to_native (Some buf) len ep = (Inr (le_size ep), Some out) \<and> local_from_native (Some out) (le_size ep) = Inr ep"
proof -
  let ?n = "le_size ep" and ?a = "le_addr ep"
  let ?out = "take ?n ?a @ drop ?n buf"
  have l: "length ?a = 110" "3 < ?n" "?n \<le> 110" "sa_family ?a = 1" and z: "drop ?n ?a = replicate (110 - ?n) 0"
    using assms(1) by (auto simp: local_wf_def un_sizes)
  have "sa_family ?out = 1" using l by (simp add: sa_family_def nth_append)
  moreover have "take ?n ?out @ replicate (110 - ?n) 0 = ?a" using l append_take_drop_id [of ?n ?a] z by simp
  ultimately have "local_from_native (Some ?out) ?n = Inr ep"
    using l by (simp add: local_from_native_def un_sizes)
  moreover have "local_to_native (Some buf) len ep = (Inr ?n, Some ?out)"
    using assms(2) l by (simp add: local_to_native_def un_sizes)
  ultimately show ?thesis by blast
qed

section \<open>A C library\<close>

text \<open>
  A printer and a parser that behave as documented: every byte as three decimal digits, for
  the 16-byte family with a colon in front.
\<close>

definition put_byte :: "u8 \<Rightarrow> string" where
  "put_byte b = [char_of (48 + unat b div 100), char_of (48 + unat b div 10 mod 10), char_of (48 + unat b mod 10)]"

fun get_bytes :: "string \<Rightarrow> u8 list" where
  "get_bytes (x # y # z # s) =
     of_nat (100 * (of_char x - 48) + 10 * (of_char y - 48) + (of_char z - 48)) # get_bytes s"
| "get_bytes s = []"

definition plain_inet :: inet where
  "plain_inet = \<lparr>ntop4 = \<lambda>b. Some (concat (map put_byte b)),
     pton4 = \<lambda>s. let b = get_bytes s in if length b = 4 then Some b else None,
     ntop6 = \<lambda>b. Some (CHR '':'' # concat (map put_byte b)),
     pton6 = \<lambda>s. let b = get_bytes (tl s) in if length b = 16 then Some b else None\<rparr>"

lemma digit_in: "d < 10 \<Longrightarrow> (char_of (48 + d :: nat)) \<in> set ''0123456789''"
proof -
  have "list_all (\<lambda>d. char_of (48 + d :: nat) \<in> set ''0123456789'') [0..<10]" by code_simp
  moreover assume "d < 10"
  ultimately show ?thesis by (simp only: list_all_iff set_upt atLeastLessThan_iff zero_le simp_thms)
qed

lemma put_byte_digits: "set (put_byte b) \<subseteq> set ''0123456789''"
proof -
  have "unat b < 256" using unat_word_less [of b] by simp
  then show ?thesis unfolding put_byte_def using digit_in by simp
qed

lemma get_put_byte: "get_bytes (put_byte b @ s) = b # get_bytes s"
proof -
  have b: "unat b < 256" using unat_word_less [of b] by simp
  let ?n = "unat b"
  have "?n div 100 < 10" "?n div 10 mod 10 < 10" "?n mod 10 < 10" using b by auto
  note d = this [THEN is_digit_char(2)]
  have "?n div 100 = ?n div 10 div 10" by (simp add: div_mult2_eq [symmetric])
  then have "100 * (?n div 100) + 10 * (?n div 10 mod 10) + ?n mod 10 = ?n"
    using div_mult_mod_eq [of "?n" 10] div_mult_mod_eq [of "?n div 10" 10] by linarith
  then have "of_nat (100 * (?n div 100) + 10 * (?n div 10 mod 10) + ?n mod 10) = b" by (simp only: of_nat_unat ucast_id)
  then show ?thesis by (simp only: put_byte_def append_Cons append_Nil get_bytes.simps d add_diff_cancel_left')
qed

lemma get_put_bytes: "get_bytes (concat (map put_byte bs)) = bs"
  by (induction bs) (simp_all add: get_put_byte)

lemma put_bytes_digits: "set (concat (map put_byte bs)) \<subseteq> set ''0123456789''"
  using put_byte_digits by fastforce

lemma plain_inet_parses: "inet_parses plain_inet"
  by (simp add: inet_parses_def plain_inet_def Let_def)

lemma plain_inet_prints: "inet_prints plain_inet"
proof -
  have "set (concat (map put_byte b)) \<subseteq> set ''0123456789.''" "set (concat (map put_byte b)) \<subseteq> set ''0123456789abcdef.:''" for b
    by (rule subset_trans [OF put_bytes_digits], simp)+
  moreover have "length b = 4 \<Longrightarrow> concat (map put_byte b) \<noteq> []" for b
    by (cases b) (simp_all add: put_byte_def)
  ultimately show ?thesis unfolding inet_prints_def plain_inet_def by (simp add: Let_def get_put_bytes)
qed

section \<open>Properties\<close>

text \<open>
  (C38) Every endpoint a program can obtain is well formed: those made from an address and a
  port, which give both back; those \<open>from_string\<close> returns; those \<open>from_native\<close> returns for a
  buffer that has the announced length. On a well-formed endpoint the assertions of
  \<open>address()\<close> and \<open>port()\<close> hold, and \<open>to_native\<close> into a large enough buffer succeeds and is
  inverted by \<open>from_native\<close>.
\<close>

theorem endpoint_well_formed:
  assumes "inet_parses I"
  shows "(address_wf a \<longrightarrow> ep_wf (endpoint_of a p) \<and> ep_address (endpoint_of a p) = Some a \<and> ep_port (endpoint_of a p) = Some p) \<and>
    (\<forall>s ep. ep_from_string I s = Inr ep \<longrightarrow> ep_wf ep) \<and>
    (\<forall>sa len ep. len \<le> length sa \<longrightarrow> ep_from_native (Some sa) len = Inr ep \<longrightarrow> ep_wf ep) \<and>
    (\<forall>ep. ep_wf ep \<longrightarrow> ep_address ep \<noteq> None \<and> ep_port ep \<noteq> None) \<and>
    (\<forall>ep len buf. ep_wf ep \<longrightarrow> es_size ep \<le> len \<longrightarrow> len \<le> length buf \<longrightarrow>
       (\<exists>out. ep_to_native (Some buf) len ep = (Inr (es_size ep), Some out) \<and> length out = length buf \<and>
              ep_from_native (Some out) (es_size ep) = Inr ep))"
  using endpoint_of_wf ep_from_string_wf [OF assms] ep_from_native_wf ep_wf_some ep_wf_native_roundtrip by (metis option.distinct(1))

lemma endpoint_well_formed_witness:
  "inet_parses plain_inet \<and> ep_wf (endpoint_of (V6 loopback_v6) 8080) \<and>
   ep_port (endpoint_of (V6 loopback_v6) 8080) = Some 8080"
  using endpoint_well_formed [OF plain_inet_parses, of "V6 loopback_v6" 8080] plain_inet_parses
  by (simp add: address_wf_def loopback_v6_def)

text \<open>
  (C39) Printing an endpoint and parsing the text gives the endpoint back, scope identifiers and
  ports included, and likewise for an address, when \<open>inet_ntop\<close> and \<open>inet_pton\<close> behave as
  documented.
\<close>

theorem endpoint_string_roundtrip:
  assumes "inet_prints I" and "address_wf a"
  shows "(\<exists>s. ep_to_string I (endpoint_of a p) = Some s \<and> ep_from_string I s = Inr (endpoint_of a p)) \<and>
    address_from_string I (address_to_string I a) = Inr a"
  using ep_string_roundtrip [OF assms] address_string_roundtrip [OF assms] by blast

lemma endpoint_string_roundtrip_witness:
  "address_from_string plain_inet (address_to_string plain_inet (V6 \<lparr>a6_bytes = replicate 16 254, a6_scope_id = 42\<rparr>)) =
     Inr (V6 \<lparr>a6_bytes = replicate 16 254, a6_scope_id = 42\<rparr>) \<and>
   (\<exists>s. ep_to_string plain_inet (endpoint_of (V4 loopback_v4) 443) = Some s \<and>
        ep_from_string plain_inet s = Inr (endpoint_of (V4 loopback_v4) 443))"
  using endpoint_string_roundtrip [OF plain_inet_prints, of "V6 \<lparr>a6_bytes = replicate 16 254, a6_scope_id = 42\<rparr>"]
    endpoint_string_roundtrip [OF plain_inet_prints, of "V4 loopback_v4" 443]
  by (simp add: address_wf_def loopback_v4_def)

text \<open>
  A Unix-domain endpoint made from a path or an abstract name holds exactly that name, and
  every one survives \<open>to_native\<close> followed by \<open>from_native\<close>; the names refused are the empty one
  and those that do not fit.
\<close>

lemma local_endpoint_roundtrip:
  assumes "local_wf ep" "le_size ep \<le> len" "len \<le> length buf"
  shows "(\<exists>out. local_to_native (Some buf) len ep = (Inr (le_size ep), Some out) \<and> local_from_native (Some out) (le_size ep) = Inr ep) \<and>
    (\<forall>path. (\<exists>e. from_path path = Inl e) \<longleftrightarrow> path = [] \<or> length path \<ge> sizeof_sun_path) \<and>
    (\<forall>path ep'. from_path path = Inr ep' \<longrightarrow> local_wf ep' \<and> slice offset_sun_path (length path) (le_addr ep') = path) \<and>
    (\<forall>name ep'. from_abstract name = Inr ep' \<longrightarrow>
       local_wf ep' \<and> slice (offset_sun_path + 1) (length name) (le_addr ep') = name)"
proof -
  have "(\<exists>e. from_path path = Inl e) \<longleftrightarrow> path = [] \<or> length path \<ge> sizeof_sun_path" for path
    by (auto simp: from_path_def fail_def)
  then show ?thesis using local_native_roundtrip [OF assms] by (intro conjI allI impI) (simp_all only: from_path_wf from_abstract_wf)
qed

lemma local_endpoint_roundtrip_witness:
  "\<exists>ep. from_path [47, 116] = Inr ep \<and>
     (\<exists>out. local_to_native (Some (replicate 110 0)) 110 ep = (Inr 5, Some out) \<and> local_from_native (Some out) 5 = Inr ep)"
proof -
  define ep where "ep = \<lparr>le_addr = le16 1 @ [47, 116] @ replicate 106 0, le_size = 5\<rparr>"
  have p: "from_path [47, 116] = Inr ep" by (simp add: from_path_def un_sizes ep_def)
  then have "local_wf ep" using from_path_wf by blast
  moreover have "le_size ep = 5" by (simp add: ep_def)
  ultimately have "\<exists>out. local_to_native (Some (replicate 110 0)) 110 ep = (Inr 5, Some out) \<and>
      local_from_native (Some out) 5 = Inr ep"
    using local_endpoint_roundtrip [of ep 110 "replicate 110 0", THEN conjunct1] by (simp only: length_replicate)
  then show ?thesis using p by blast
qed

end
