(* ===== verification/Datagram.thy ===== *)
theory Datagram
  imports StreamSocket Endpoints
begin

text \<open>
  \<open>detail/socket/datagram_socket_impl.hpp\<close> and \<open>impl/socket/datagram_socket_impl.ipp\<close>.

  A native address is the list of its bytes, \<open>None\<close> a null pointer; its length is the one passed
  along with it. The loops of send and receive run on a list of rounds, one for each time
  round: what the cancellation checks find, the kernel's answer and how the wait ends. Their
  result is \<open>None\<close> when the rounds are used up before they return.
\<close>

datatype dgram_state = Idle | Bound | Dgram_connected

record datagram_socket =
  dg_base :: sock
  dg_state :: dgram_state
  dg_send :: op_state
  dg_receive :: op_state
  dg_connected_addr :: "u8 list"
  dg_connected_len :: nat

definition datagram_init :: datagram_socket where
  "datagram_init = \<lparr>dg_base = sock_init, dg_state = Idle, dg_send = op_state_init, dg_receive = op_state_init,
     dg_connected_addr = replicate 128 0, dg_connected_len = 0\<rparr>"

definition dg_is_bound :: "datagram_socket \<Rightarrow> bool" where
  "dg_is_bound s \<longleftrightarrow> dg_state s = Bound \<or> dg_state s = Dgram_connected"

definition dg_is_connected :: "datagram_socket \<Rightarrow> bool" where
  "dg_is_connected s \<longleftrightarrow> dg_state s = Dgram_connected"

definition dg_cancel :: "nat \<Rightarrow> datagram_socket \<Rightarrow> datagram_socket" where
  "dg_cancel j s = s\<lparr>dg_send := op_cancel (dg_send s), dg_receive := op_cancel (dg_receive s), dg_base := sk_cancel j (dg_base s)\<rparr>"

definition dg_cancel_read :: "nat \<Rightarrow> datagram_socket \<Rightarrow> datagram_socket" where
  "dg_cancel_read j s = s\<lparr>dg_receive := op_cancel (dg_receive s), dg_base := sk_cancel_kind j True (dg_base s)\<rparr>"

definition dg_cancel_write :: "nat \<Rightarrow> datagram_socket \<Rightarrow> datagram_socket" where
  "dg_cancel_write j s = s\<lparr>dg_send := op_cancel (dg_send s), dg_base := sk_cancel_kind j False (dg_base s)\<rparr>"

definition dg_close :: "nat \<Rightarrow> datagram_socket \<Rightarrow> datagram_socket" where
  "dg_close j s =
     s\<lparr>dg_send := op_cancel (dg_send s), dg_receive := op_cancel (dg_receive s), dg_state := Idle, dg_connected_len := 0,
       dg_connected_addr := replicate 128 0, dg_base := close_take j (dg_base s)\<rparr>"

definition dg_bind :: "(int \<Rightarrow> int option) \<Rightarrow> datagram_socket \<Rightarrow> unit result \<times> datagram_socket" where
  "dg_bind sys_bind s =
     (case usable_fd (dg_base s) of
        Inl ec \<Rightarrow> (Inl ec, s)
      | Inr fd \<Rightarrow>
          if os_active (dg_send s) \<or> os_active (dg_receive s) then (fail_with busy, s)
          else (case sys_bind fd of
                  Some errno \<Rightarrow> (fail (map_socket_errno errno), s)
                | None \<Rightarrow> (ok, if dg_state s = Idle then s\<lparr>dg_state := Bound\<rparr> else s)))"

definition dg_connect :: "(int \<Rightarrow> int option) \<Rightarrow> u8 list \<Rightarrow> nat \<Rightarrow> datagram_socket \<Rightarrow> unit result \<times> datagram_socket" where
  "dg_connect sys_connect addr len s =
     (case usable_fd (dg_base s) of
        Inl ec \<Rightarrow> (Inl ec, s)
      | Inr fd \<Rightarrow>
          if os_active (dg_send s) \<or> os_active (dg_receive s) then (fail_with busy, s)
          else (case sys_connect fd of
                  Some errno \<Rightarrow> (fail (map_socket_errno errno), s)
                | None \<Rightarrow> (ok, s\<lparr>dg_state := Dgram_connected, dg_connected_len := len,
                                dg_connected_addr := take len addr @ drop len (dg_connected_addr s)\<rparr>)))"

section \<open>Sending\<close>

text \<open>\<open>same_destination\<close>: ports and addresses are compared as they are stored.\<close>

definition same_destination :: "u8 list option \<Rightarrow> nat \<Rightarrow> u8 list option \<Rightarrow> nat \<Rightarrow> bool" where
  "same_destination a alen b blen =
     (case (a, b) of
        (Some sa, Some sb) \<Rightarrow>
          if sa_family sa \<noteq> sa_family sb then False
          else if sa_family sa = AF_INET then
            \<not> (alen < sizeof_sockaddr_in \<or> blen < sizeof_sockaddr_in) \<and>
            slice 2 2 sa = slice 2 2 sb \<and> slice 4 4 sa = slice 4 4 sb
          else if sa_family sa = AF_INET6 then
            \<not> (alen < sizeof_sockaddr_in6 \<or> blen < sizeof_sockaddr_in6) \<and>
            slice 2 2 sa = slice 2 2 sb \<and> slice 8 16 sa = slice 8 16 sb \<and> slice 24 4 sa = slice 24 4 sb
          else alen = blen \<and> take alen sa = take alen sb
      | _ \<Rightarrow> False)"

record io_round =
  ir_stale_top :: bool
  ir_call :: "int + nat"
  ir_wait :: "unit result"
  ir_stale_woken :: bool

text \<open>The loop of both operations; \<open>answer\<close> turns what the system call returned into the result.\<close>

fun io_loop :: "(nat \<Rightarrow> nat result) \<Rightarrow> io_round list \<Rightarrow> nat result option" where
  "io_loop answer [] = None"
| "io_loop answer (x # xs) =
     (if ir_stale_top x then Some (fail_with operation_aborted)
      else case ir_call x of
             Inr n \<Rightarrow> Some (answer n)
           | Inl errno \<Rightarrow>
               if errno = EINTR then io_loop answer xs
               else if errno = EAGAIN \<or> errno = EWOULDBLOCK then
                 (case ir_wait x of
                    Inl ec \<Rightarrow> Some (Inl ec)
                  | Inr _ \<Rightarrow> if ir_stale_woken x then Some (fail_with operation_aborted) else io_loop answer xs)
               else Some (fail (map_socket_errno errno)))"

text \<open>
  Up to the operation guard: the resource, or the error. A receive looks at the state in
  between.
\<close>

definition dg_enter :: "bool \<Rightarrow> datagram_socket \<Rightarrow> nat result \<times> datagram_socket" where
  "dg_enter receiving s =
     (case sk_current (dg_base s) of
        None \<Rightarrow> (fail_with not_open, s)
      | Some r \<Rightarrow>
          if rs_fd (deref r (dg_base s)) < 0 then (fail_with not_open, s)
          else if receiving \<and> dg_state s = Idle then (fail_with not_bound, s)
          else (let (inflight, b) = make_operation_guard (Some r) (dg_base s)
                in if \<not> inflight then (fail_with operation_aborted, s) else (Inr r, s\<lparr>dg_base := b\<rparr>)))"

definition dg_leave :: "nat \<Rightarrow> datagram_socket \<Rightarrow> datagram_socket" where
  "dg_leave r s = s\<lparr>dg_base := put_res r (remove_inflight (deref r (dg_base s))) (dg_base s)\<rparr>"

text \<open>
  Between \<open>try_start\<close> and the loop: the result of a send that returns at once. The socket's
  state is the one read under the mutex.
\<close>

definition send_checks :: "nat \<Rightarrow> u8 list option \<Rightarrow> nat \<Rightarrow> datagram_socket \<Rightarrow> nat result option" where
  "send_checks buffer_size dest_addr dest_len s =
     (if buffer_size = 0 then Some (Inr 0)
      else if dg_is_connected s then
        if (dest_addr = None) \<noteq> (dest_len = 0) then Some (fail_with invalid_argument)
        else if dest_addr \<noteq> None \<and> \<not> same_destination dest_addr dest_len (Some (dg_connected_addr s)) (dg_connected_len s)
        then Some (fail_with invalid_argument)
        else None
      else None)"

text \<open>The system call a send makes: \<open>send\<close> (\<open>None\<close>) or \<open>sendto\<close> with the destination.\<close>

definition send_target :: "u8 list option \<Rightarrow> nat \<Rightarrow> datagram_socket \<Rightarrow> (u8 list option \<times> nat) option" where
  "send_target dest_addr dest_len s = (if dg_is_connected s then None else Some (dest_addr, dest_len))"

definition async_send_to ::
  "((u8 list option \<times> nat) option \<Rightarrow> io_round list) \<Rightarrow> nat \<Rightarrow> u8 list option \<Rightarrow> nat \<Rightarrow> datagram_socket \<Rightarrow>
     nat result option \<times> datagram_socket" where
  "async_send_to rounds buffer_size dest_addr dest_len s =
     (case dg_enter False s of
        (Inl ec, s1) \<Rightarrow> (Some (Inl ec), s1)
      | (Inr r, s1) \<Rightarrow>
          (case try_start (dg_send s1) of
             (None, _) \<Rightarrow> (Some (fail_with busy), dg_leave r s1)
           | (Some e, os) \<Rightarrow>
               (let s2 = s1\<lparr>dg_send := os\<rparr>;
                    res = (case send_checks buffer_size dest_addr dest_len s2 of
                             Some x \<Rightarrow> Some x
                           | None \<Rightarrow> io_loop Inr (rounds (send_target dest_addr dest_len s2)))
                in (res, if res = None then s2 else dg_leave r (s2\<lparr>dg_send := op_finish (dg_send s2)\<rparr>)))))"

definition receive_answer :: "nat \<Rightarrow> nat \<Rightarrow> nat result" where
  "receive_answer buffer_size n = (if n > buffer_size then fail_with message_size else Inr n)"

definition async_receive_from :: "io_round list \<Rightarrow> nat \<Rightarrow> datagram_socket \<Rightarrow> nat result option \<times> datagram_socket" where
  "async_receive_from rounds buffer_size s =
     (case dg_enter True s of
        (Inl ec, s1) \<Rightarrow> (Some (Inl ec), s1)
      | (Inr r, s1) \<Rightarrow>
          (case try_start (dg_receive s1) of
             (None, _) \<Rightarrow> (Some (fail_with busy), dg_leave r s1)
           | (Some e, os) \<Rightarrow>
               (let s2 = s1\<lparr>dg_receive := os\<rparr>;
                    res = (if buffer_size = 0 then Some (fail_with invalid_argument)
                           else io_loop (receive_answer buffer_size) rounds)
                in (res, if res = None then s2 else dg_leave r (s2\<lparr>dg_receive := op_finish (dg_receive s2)\<rparr>)))))"

section \<open>Facts\<close>

lemma get16_inject: "get16 a b = get16 c d \<longleftrightarrow> a = c \<and> b = d"
proof
  assume "get16 a b = get16 c d"
  then have "ucast (get16 a b) = (ucast (get16 c d) :: u8)" "ucast (drop_bit 8 (get16 a b)) = (ucast (drop_bit 8 (get16 c d)) :: u8)"
    by simp_all
  moreover have "ucast (get16 x y) = x" "ucast (drop_bit 8 (get16 x y)) = y" for x y :: u8
    by (rule bit_word_eqI; simp add: get16_def bit_simps; auto dest: bit_imp_le_length)+
  ultimately show "a = c \<and> b = d" by simp
qed simp

lemma le32_get32: "length b = 4 \<Longrightarrow> le32 (get32 b) = b"
proof -
  assume "length b = 4"
  then obtain w x y z where b: "b = [w, x, y, z]" by (auto simp: length_Suc_conv eval_nat_numeral)
  have "ucast (get32 [w, x, y, z]) = w" "ucast (drop_bit 8 (get32 [w, x, y, z])) = x"
      "ucast (drop_bit 16 (get32 [w, x, y, z])) = y" "ucast (drop_bit 24 (get32 [w, x, y, z])) = z"
    by (rule bit_word_eqI; simp add: get32_def bit_simps; auto dest: bit_imp_le_length)+
  then show ?thesis by (simp add: b le32_def)
qed

lemma get32_inject: "length b = 4 \<Longrightarrow> length c = 4 \<Longrightarrow> get32 b = get32 c \<longleftrightarrow> b = c"
  using le32_get32 by metis

lemma slice_two: "4 \<le> length xs \<Longrightarrow> slice 2 2 xs = [xs ! 2, xs ! 3]"
  using Cons_nth_drop_Suc [of 2 xs] Cons_nth_drop_Suc [of 3 xs]
  by (simp add: slice_def numeral_2_eq_2 numeral_3_eq_3 flip: Cons_nth_drop_Suc)

lemma slice_front: "off + n \<le> k \<Longrightarrow> k \<le> length xs \<Longrightarrow> slice off n (take k xs @ ys) = slice off n xs"
  by (auto simp: slice_def drop_take min_def)

lemma sa_family_front: "2 \<le> k \<Longrightarrow> k \<le> length xs \<Longrightarrow> sa_family (take k xs @ ys) = sa_family xs"
  by (simp add: sa_family_def nth_append)

lemma length_slice: "off + n \<le> length xs \<Longrightarrow> length (slice off n xs) = n"
  by (simp add: slice_def)

text \<open>On well-formed endpoints the byte comparison is the endpoints' own equality.\<close>

lemma same_destination_ep_eq:
  assumes a: "ep_wf a" and b: "ep_wf b" and front: "take (es_size a) sa = take (es_size a) (es_storage a)" "length sa = 128"
  shows "same_destination (Some (es_storage b)) (es_size b) (Some sa) (es_size a) \<longleftrightarrow> ep_eq a b"
proof -
  have l: "length (es_storage a) = 128" "length (es_storage b) = 128" "16 \<le> es_size a" "es_size a \<le> 128"
    using a b by (auto simp: ep_wf_def es_sizes)
  have sl: "slice off n sa = slice off n (es_storage a)" if "off + n \<le> es_size a" for off n
    using slice_front [OF that, of sa "[]"] slice_front [OF that, of "es_storage a" "[]"] front l by simp
  have fam: "sa_family sa = ep_family a"
    using sa_family_front [of "es_size a" sa "[]"] sa_family_front [of "es_size a" "es_storage a" "[]"] front l by (simp add: ep_family_def)
  have port: "slice 2 2 xs = slice 2 2 ys \<longleftrightarrow> get16 (xs ! 3) (xs ! 2) = get16 (ys ! 3) (ys ! 2)"
    if "length xs = 128" "length ys = 128" for xs ys :: "u8 list"
    using that by (auto simp: slice_two get16_inject)
  have scope: "slice 24 4 xs = slice 24 4 ys \<longleftrightarrow> get32 (slice 24 4 xs) = get32 (slice 24 4 ys)"
    if "length xs = 128" "length ys = 128" for xs ys :: "u8 list"
    using that by (simp add: get32_inject length_slice)
  note p = port [OF l(2,1)] and q = scope [OF l(2,1)]
  consider "ep_family a = AF_INET" "es_size a = 16" | "ep_family a = AF_INET6" "es_size a = 28" using a by (auto simp: ep_wf_def es_sizes)
  then show ?thesis
  proof cases
    case 1
    then show ?thesis using b sl [of 2 2] sl [of 4 4] p fam
      by (auto simp: same_destination_def ep_eq_def ep_family_def [symmetric] ep_address_def ep_port_def ep_wf_def es_sizes)
  next
    case 2
    show ?thesis
    proof (cases "ep_family b = AF_INET6")
      case True
      then have "es_size b = 28" "sa_family (es_storage b) = AF_INET6" using b by (simp_all add: ep_wf_def es_sizes ep_family_def)
      then show ?thesis using 2 True fam
        unfolding same_destination_def ep_eq_def ep_address_def ep_port_def
        by (simp add: es_sizes sl p q) (blast intro: sym)
    qed (use 2 fam in \<open>simp add: same_destination_def ep_eq_def ep_family_def [symmetric]\<close>)
  qed
qed

lemma io_loop_returns: "x \<in> set xs \<Longrightarrow> ir_call x = Inr n \<Longrightarrow> io_loop f xs \<noteq> None"
  by (induction xs) (auto split: sum.splits)

lemma io_loop_result: "io_loop f xs = Some (Inr n) \<Longrightarrow> \<exists>x \<in> set xs. \<exists>m. ir_call x = Inr m \<and> f m = Inr n"
  by (induction xs) (auto simp: fail_def split: sum.splits if_splits)

text \<open>A receive never reports more bytes than the buffer holds, and says so when a message does not fit.\<close>

lemma receive_bounds:
  "fst (async_receive_from rounds sz s) = Some (Inr n) \<Longrightarrow> 0 < sz \<and> n \<le> sz \<and> dg_state s \<noteq> Idle"
  using io_loop_result [of "receive_answer sz" rounds n]
  by (auto simp: async_receive_from_def dg_enter_def receive_answer_def fail_def Let_def split: sum.splits prod.splits option.splits if_splits)

section \<open>Properties\<close>


definition bound_example :: datagram_socket where
  "bound_example = datagram_init\<lparr>dg_base := snd (snd (socket_open (Inr 5) None True sock_init))\<rparr>"


end
