(* ===== verification/Facade.thy ===== *)
theory Facade
  imports Acceptor Datagram
begin

text \<open>
  The protocol-typed sockets that users hold: \<open>net/basic_stream_socket.hpp\<close>,
  \<open>net/basic_datagram_socket.hpp\<close> and \<open>listen\<close> of \<open>net/basic_acceptor.hpp\<close>, with the endpoint
  queries of \<open>detail/socket_utils.hpp\<close>. They open the socket on first use with the family of the
  endpoint they are given, and keep it to that family.

  \<open>getsockname\<close> and \<open>getpeername\<close> answer an \<open>errno\<close> or the native address with its length; how opening
  a socket goes is the argument of type \<open>int + int\<close> with the outcome of the descriptor's flags and of
  \<open>add_fd\<close>.
\<close>

type_synonym sockname = "int \<Rightarrow> int + (u8 list \<times> nat)"

section \<open>Endpoint queries\<close>

definition sk_native_handle :: "sock \<Rightarrow> int" where
  "sk_native_handle b = (case sk_current b of None \<Rightarrow> -1 | Some r \<Rightarrow> rs_fd (deref r b))"

definition sk_is_open :: "sock \<Rightarrow> bool" where
  "sk_is_open b \<longleftrightarrow> sk_native_handle b \<ge> 0"

definition get_local_endpoint :: "sockname \<Rightarrow> int \<Rightarrow> endpoint_storage result" where
  "get_local_endpoint getsockname fd =
     (if fd < 0 then fail_with not_open
      else case getsockname fd of
             Inl errno \<Rightarrow> fail (map_socket_errno errno)
           | Inr (ss, len) \<Rightarrow> ep_from_native (Some ss) len)"

definition get_socket_family :: "sockname \<Rightarrow> int \<Rightarrow> int result" where
  "get_socket_family getsockname fd =
     (if fd < 0 then fail_with not_open
      else case getsockname fd of
             Inl errno \<Rightarrow> fail (map_socket_errno errno)
           | Inr (ss, len) \<Rightarrow> Inr (sa_family ss))"

definition get_remote_endpoint :: "sockname \<Rightarrow> int \<Rightarrow> endpoint_storage result" where
  "get_remote_endpoint getpeername fd =
     (if fd < 0 then fail_with not_open
      else case getpeername fd of
             Inl errno \<Rightarrow> if errno = ENOTCONN then fail_with not_connected else fail (map_socket_errno errno)
           | Inr (ss, len) \<Rightarrow> ep_from_native (Some ss) len)"

section \<open>Opening on first use\<close>

text \<open>\<open>opened\<close> is what opening would give.\<close>

definition lazy_open :: "sockname \<Rightarrow> int \<Rightarrow> sock \<Rightarrow> unit result \<times> 's \<Rightarrow> 's \<Rightarrow> unit result \<times> 's" where
  "lazy_open getsockname family b opened s =
     (if \<not> sk_is_open b then opened
      else case get_socket_family getsockname (sk_native_handle b) of
             Inl ec \<Rightarrow> (Inl ec, s)
           | Inr f \<Rightarrow> if f \<noteq> family then (fail_with invalid_argument, s) else (ok, s))"

definition listen_open :: "int + int \<Rightarrow> int option \<Rightarrow> bool \<Rightarrow> acceptor \<Rightarrow> unit result \<times> acceptor" where
  "listen_open fd flags_errno add_ok s = (let (r, _, s1) = acceptor_open fd flags_errno add_ok s in (r, s1))"

definition stream_open :: "int + int \<Rightarrow> int option \<Rightarrow> bool \<Rightarrow> stream_socket \<Rightarrow> unit result \<times> stream_socket" where
  "stream_open fd flags_errno add_ok s = (let (r, _, b) = socket_open fd flags_errno add_ok (ss_base s) in (r, put_base b s))"

definition dg_open :: "int + int \<Rightarrow> int option \<Rightarrow> bool \<Rightarrow> datagram_socket \<Rightarrow> unit result \<times> datagram_socket" where
  "dg_open fd flags_errno add_ok s = (let (r, _, b) = socket_open fd flags_errno add_ok (dg_base s) in (r, s\<lparr>dg_base := b\<rparr>))"

text \<open>\<open>and_then\<close> of the members with the state along.\<close>

definition then_do :: "unit result \<times> 's \<Rightarrow> ('s \<Rightarrow> unit result \<times> 's) \<Rightarrow> unit result \<times> 's" where
  "then_do x f = (case x of (Inl ec, s) \<Rightarrow> (Inl ec, s) | (Inr _, s) \<Rightarrow> f s)"

definition basic_listen ::
  "sockname \<Rightarrow> int + int \<Rightarrow> int option \<Rightarrow> bool \<Rightarrow> (acceptor \<Rightarrow> unit result \<times> acceptor) \<Rightarrow> (int \<Rightarrow> int option) \<Rightarrow>
     (int \<Rightarrow> int \<Rightarrow> int option) \<Rightarrow> endpoint_storage \<Rightarrow> int \<Rightarrow> acceptor \<Rightarrow> unit result \<times> acceptor" where
  "basic_listen getsockname fd flags_errno add_ok configure sys_bind sys_listen ep backlog s =
     then_do (then_do (then_do
       (lazy_open getsockname (ep_family ep) (ac_base s) (listen_open fd flags_errno add_ok s) s)
       configure)
       (\<lambda>s. (acceptor_bind sys_bind s, s)))
       (acceptor_listen sys_listen backlog)"

text \<open>\<open>basic_stream_socket::async_connect\<close> up to where the connect of operation \<open>i\<close> begins.\<close>

definition basic_connect :: "sockname \<Rightarrow> int + int \<Rightarrow> int option \<Rightarrow> bool \<Rightarrow> endpoint_storage \<Rightarrow> nat \<Rightarrow> stream_socket \<Rightarrow> unit result \<times> stream_socket" where
  "basic_connect getsockname fd flags_errno add_ok ep i s =
     then_do (lazy_open getsockname (ep_family ep) (ss_base s) (stream_open fd flags_errno add_ok s) s) (\<lambda>s. (ok, op_begin i Connect s))"

definition basic_remote_endpoint :: "sockname \<Rightarrow> bool \<Rightarrow> sock \<Rightarrow> endpoint_storage result" where
  "basic_remote_endpoint getpeername is_connected b =
     (if sk_native_handle b < 0 then fail_with not_open
      else if \<not> is_connected then fail_with not_connected
      else get_remote_endpoint getpeername (sk_native_handle b))"

definition basic_dg_bind ::
  "sockname \<Rightarrow> int + int \<Rightarrow> int option \<Rightarrow> bool \<Rightarrow> (int \<Rightarrow> int option) \<Rightarrow> endpoint_storage \<Rightarrow> datagram_socket \<Rightarrow> unit result \<times> datagram_socket" where
  "basic_dg_bind getsockname fd flags_errno add_ok sys_bind ep s =
     then_do (lazy_open getsockname (ep_family ep) (dg_base s) (dg_open fd flags_errno add_ok s) s) (dg_bind sys_bind)"

definition basic_dg_connect ::
  "sockname \<Rightarrow> int + int \<Rightarrow> int option \<Rightarrow> bool \<Rightarrow> (int \<Rightarrow> int option) \<Rightarrow> endpoint_storage \<Rightarrow> datagram_socket \<Rightarrow> unit result \<times> datagram_socket" where
  "basic_dg_connect getsockname fd flags_errno add_ok sys_connect ep s =
     then_do (lazy_open getsockname (ep_family ep) (dg_base s) (dg_open fd flags_errno add_ok s) s)
       (dg_connect sys_connect (es_storage ep) (es_size ep))"

definition basic_send_to ::
  "((u8 list option \<times> nat) option \<Rightarrow> io_round list) \<Rightarrow> nat \<Rightarrow> endpoint_storage \<Rightarrow> datagram_socket \<Rightarrow> nat result option \<times> datagram_socket" where
  "basic_send_to rounds buffer_size destination s = async_send_to rounds buffer_size (Some (es_storage destination)) (es_size destination) s"

text \<open>\<open>ss\<close> and \<open>len\<close> are what \<open>recvfrom\<close> left in the address buffer.\<close>

definition basic_receive_from ::
  "io_round list \<Rightarrow> nat \<Rightarrow> u8 list \<Rightarrow> nat \<Rightarrow> datagram_socket \<Rightarrow> (nat \<times> endpoint_storage) result option \<times> datagram_socket" where
  "basic_receive_from rounds buffer_size ss len s =
     (case async_receive_from rounds buffer_size s of
        (None, s1) \<Rightarrow> (None, s1)
      | (Some (Inl ec), s1) \<Rightarrow> (Some (Inl ec), s1)
      | (Some (Inr n), s1) \<Rightarrow>
          (case ep_from_native (Some ss) len of
             Inl ec \<Rightarrow> (Some (Inl ec), s1)
           | Inr source \<Rightarrow> (Some (Inr (n, source)), s1)))"

section \<open>Facts\<close>

lemma then_do_simps [simp]:
  "then_do (Inl ec, s) f = (Inl ec, s)" "then_do (ok, s) f = f s" "then_do (fail_with e, s) f = (fail_with e, s)"
  by (simp_all add: then_do_def ok_def fail_def)

lemma lazy_open_cases:
  "\<not> sk_is_open b \<Longrightarrow> lazy_open getsockname family b opened s = opened"
  "sk_is_open b \<Longrightarrow> get_socket_family getsockname (sk_native_handle b) = Inr f \<Longrightarrow>
     lazy_open getsockname family b opened s = (if f = family then (ok, s) else (fail_with invalid_argument, s))"
  by (simp_all add: lazy_open_def)

text \<open>
  An open socket keeps its family: binding, connecting or listening with an endpoint of another
  family is refused and leaves the socket as it was.
\<close>

lemma facade_family_fixed:
  assumes "get_socket_family getsockname (sk_native_handle b) = Inr f" "f \<noteq> ep_family ep" "sk_is_open b"
  shows "dg_base s = b \<Longrightarrow> basic_dg_bind getsockname fd e add_ok sys ep s = (fail_with invalid_argument, s)"
    "dg_base s = b \<Longrightarrow> basic_dg_connect getsockname fd e add_ok sys ep s = (fail_with invalid_argument, s)"
    "ac_base a = b \<Longrightarrow> basic_listen getsockname fd e add_ok configure sys sys_listen ep backlog a = (fail_with invalid_argument, a)"
    "ss_base t = b \<Longrightarrow> basic_connect getsockname fd e add_ok ep i t = (fail_with invalid_argument, t)"
  using assms by (simp_all add: basic_dg_bind_def basic_dg_connect_def basic_listen_def basic_connect_def lazy_open_cases(2))

text \<open>A received datagram fits the buffer, and its source is a well-formed endpoint.\<close>

lemma receive_source_wf:
  assumes "basic_receive_from rounds n ss len s = (Some (Inr (k, source)), s')" "len \<le> length ss"
  shows "k \<le> n \<and> ep_wf source"
proof -
  obtain s1 where r: "async_receive_from rounds n s = (Some (Inr k), s1)" "ep_from_native (Some ss) len = Inr source"
    using assms(1) by (auto simp: basic_receive_from_def split: option.splits sum.splits prod.splits)
  have "k \<le> n" using receive_bounds [of rounds n s k] r(1) by simp
  then show ?thesis using ep_from_native_wf [OF r(2)] assms(2) by simp
qed

end
