(* ===== verification/Resolver.thy ===== *)
theory Resolver
  imports Endpoints
begin

text \<open>
  \<open>ip/resolver.hpp\<close>: \<open>getaddrinfo\<close> on a pool while the coroutine waits and may be stopped.

  Three threads meet in the shared \<open>result_state\<close>: the one that suspends the coroutine, the worker of
  the pool and the one that requests the stop. The atomic \<open>done\<close> decides who delivers; the winner
  stores the result and posts the resumption. The awaiter, a member of the coroutine's frame, is
  gone once the coroutine went on. \<open>getaddrinfo\<close> is a parameter.
\<close>

section \<open>Resolving\<close>

text \<open>
  \<open>gai\<close> takes the host and the service, null when empty, and answers an error number or the list of
  native addresses with their lengths.
\<close>

datatype resolve_error = Addrinfo int | Library error

definition resolve_endpoints :: "(u8 list \<times> nat) list \<Rightarrow> endpoint_storage list" where
  "resolve_endpoints ais = concat (map (\<lambda>(addr, len). case ep_from_native (Some addr) len of Inl _ \<Rightarrow> [] | Inr ep \<Rightarrow> [ep]) ais)"

definition null_if_empty :: "string \<Rightarrow> string option" where
  "null_if_empty s = (if s = [] then None else Some s)"

definition resolve :: "(string option \<Rightarrow> string option \<Rightarrow> int + (u8 list \<times> nat) list) \<Rightarrow> string \<Rightarrow> string \<Rightarrow> resolve_error + endpoint_storage list" where
  "resolve gai host service =
     (case gai (null_if_empty host) (null_if_empty service) of
        Inl ret \<Rightarrow> Inl (Addrinfo ret)
      | Inr ais \<Rightarrow> Inr (resolve_endpoints ais))"

section \<open>Waiting\<close>

datatype suspend_pc =
    RS_start
  | RS_register       \<comment> \<open>no stop requested, before the stop callback is made\<close>
  | RS_post           \<comment> \<open>before the post to the pool\<close>
  | RS_returned

datatype resolver_worker_pc = RW_none | RW_queued | RW_won | RW_end

datatype stopper_pc = RP_idle | RP_won | RP_end

record 'r result_state =
  rv_done :: bool
  rv_res :: "'r option"
  rv_stop_cb :: bool
  rv_stop :: bool
  rv_posted :: nat
  rv_suspend :: suspend_pc
  rv_worker :: resolver_worker_pc
  rv_stopper :: stopper_pc
  rv_got :: "'r option"       \<comment> \<open>what \<open>await_resume\<close> returned\<close>
  rv_uaf :: bool              \<comment> \<open>the awaiter was used after its end\<close>

definition resolver_init :: "bool \<Rightarrow> 'r result_state" where
  "resolver_init stop = \<lparr>rv_done = False, rv_res = None, rv_stop_cb = False, rv_stop = stop, rv_posted = 0, rv_suspend = RS_start,
     rv_worker = RW_none, rv_stopper = RP_idle, rv_got = None, rv_uaf = False\<rparr>"

text \<open>The winner of \<open>done\<close> stores its result and posts the resumption.\<close>

definition deliver :: "'r \<Rightarrow> 'r result_state \<Rightarrow> 'r result_state" where
  "deliver r s = s\<lparr>rv_res := Some r, rv_posted := rv_posted s + 1\<rparr>"

definition stop_delivers :: "'r \<Rightarrow> 'r result_state \<Rightarrow> 'r result_state" where
  "stop_delivers aborted s = (if rv_done s then s else deliver aborted (s\<lparr>rv_done := True\<rparr>))"

definition suspend_check :: "'r \<Rightarrow> 'r result_state \<Rightarrow> 'r result_state" where
  "suspend_check aborted s =
     (if rv_stop s then (stop_delivers aborted s)\<lparr>rv_suspend := RS_returned\<rparr> else s\<lparr>rv_suspend := RS_register\<rparr>)"

text \<open>A \<open>stop_callback\<close> made after the request runs at once.\<close>

definition suspend_register :: "'r \<Rightarrow> 'r result_state \<Rightarrow> 'r result_state" where
  "suspend_register aborted s =
     (if rv_stop s then (stop_delivers aborted s)\<lparr>rv_suspend := RS_post\<rparr> else s\<lparr>rv_stop_cb := True, rv_suspend := RS_post\<rparr>)"

text \<open>\<open>pool_ex\<close> is a member of the awaiter.\<close>

definition suspend_post :: "'r result_state \<Rightarrow> 'r result_state" where
  "suspend_post s = s\<lparr>rv_uaf := rv_uaf s \<or> rv_got s \<noteq> None, rv_worker := RW_queued, rv_suspend := RS_returned\<rparr>"

definition worker_claims :: "'r result_state \<Rightarrow> 'r result_state" where
  "worker_claims s = (if rv_done s then s\<lparr>rv_worker := RW_end\<rparr> else s\<lparr>rv_done := True, rv_worker := RW_won\<rparr>)"

definition worker_delivers :: "'r \<Rightarrow> 'r result_state \<Rightarrow> 'r result_state" where
  "worker_delivers r s = deliver r (s\<lparr>rv_stop_cb := False, rv_worker := RW_end\<rparr>)"

text \<open>\<open>request_stop\<close> on another thread, with the callback if it is registered.\<close>

definition stop_claims :: "'r result_state \<Rightarrow> 'r result_state" where
  "stop_claims s =
     (let s1 = s\<lparr>rv_stop := True\<rparr>
      in if rv_stop_cb s \<and> \<not> rv_done s then s1\<lparr>rv_done := True, rv_stopper := RP_won\<rparr> else s1\<lparr>rv_stopper := RP_end\<rparr>)"

definition stop_finishes :: "'r \<Rightarrow> 'r result_state \<Rightarrow> 'r result_state" where
  "stop_finishes aborted s = deliver aborted (s\<lparr>rv_stopper := RP_end\<rparr>)"

definition resolve_resumes :: "'r result_state \<Rightarrow> 'r result_state" where
  "resolve_resumes s = s\<lparr>rv_posted := rv_posted s - 1, rv_got := rv_res s\<rparr>"

inductive resolver_step :: "'r \<Rightarrow> 'r \<Rightarrow> 'r result_state \<Rightarrow> 'r result_state \<Rightarrow> bool" for aborted :: 'r and r :: 'r where
  check: "rv_suspend s = RS_start \<Longrightarrow> resolver_step aborted r s (suspend_check aborted s)"
| register: "rv_suspend s = RS_register \<Longrightarrow> resolver_step aborted r s (suspend_register aborted s)"
| post: "rv_suspend s = RS_post \<Longrightarrow> resolver_step aborted r s (suspend_post s)"
| worker: "rv_worker s = RW_queued \<Longrightarrow> resolver_step aborted r s (worker_claims s)"
| worker_wins: "rv_worker s = RW_won \<Longrightarrow> resolver_step aborted r s (worker_delivers r s)"
| stop: "rv_stopper s = RP_idle \<Longrightarrow> \<not> rv_stop s \<Longrightarrow> resolver_step aborted r s (stop_claims s)"
| stop_wins: "rv_stopper s = RP_won \<Longrightarrow> resolver_step aborted r s (stop_finishes aborted s)"
| resume: "0 < rv_posted s \<Longrightarrow> rv_got s = None \<Longrightarrow> resolver_step aborted r s (resolve_resumes s)"

section \<open>Invariant\<close>

text \<open>Who is about to deliver, has posted or was taken: one of them exactly when \<open>done\<close> is set.\<close>

definition deliveries :: "'r result_state \<Rightarrow> nat" where
  "deliveries s = (if rv_worker s = RW_won then 1 else 0) + (if rv_stopper s = RP_won then 1 else 0) + rv_posted s + (if rv_got s = None then 0 else 1)"

definition resolver_inv :: "'r \<Rightarrow> 'r \<Rightarrow> 'r result_state \<Rightarrow> bool" where
  "resolver_inv aborted r s \<longleftrightarrow>
     deliveries s = (if rv_done s then 1 else 0) \<and>
     (rv_posted s > 0 \<or> rv_got s \<noteq> None \<longrightarrow> rv_res s \<noteq> None) \<and>
     (rv_res s = None \<or> rv_res s = Some r \<and> rv_worker s = RW_end \<or> rv_res s = Some aborted \<and> rv_stop s) \<and>
     (rv_got s \<noteq> None \<longrightarrow> rv_got s = rv_res s) \<and>
     (rv_stopper s = RP_won \<longrightarrow> rv_stop s) \<and>
     (rv_worker s = RW_end \<longrightarrow> rv_done s) \<and>
     (rv_suspend s \<noteq> RS_returned \<longrightarrow> rv_worker s = RW_none) \<and>
     (rv_worker s = RW_none \<longrightarrow> rv_suspend s = RS_returned \<longrightarrow> rv_done s)"

lemmas resolver_defs =
  resolver_inv_def deliveries_def deliver_def stop_delivers_def suspend_check_def suspend_register_def suspend_post_def worker_claims_def
  worker_delivers_def stop_claims_def stop_finishes_def resolve_resumes_def Let_def

lemma resolver_inv_init: "resolver_inv aborted r (resolver_init stop)"
  by (simp add: resolver_init_def resolver_inv_def deliveries_def)

lemma resolver_inv_step: "resolver_step aborted r s t \<Longrightarrow> resolver_inv aborted r s \<Longrightarrow> resolver_inv aborted r t"
proof (induction rule: resolver_step.induct)
  case (check s)
  then show ?case by (cases "rv_done s"; cases "rv_worker s"; cases "rv_stop s"; simp add: resolver_defs split: if_splits)
next
  case (register s)
  then show ?case by (cases "rv_done s"; cases "rv_worker s"; cases "rv_stop s"; simp add: resolver_defs split: if_splits)
next
  case (post s)
  then show ?case by (cases "rv_done s"; cases "rv_worker s"; simp add: resolver_defs split: if_splits)
next
  case (worker s)
  then show ?case by (cases "rv_done s"; simp add: resolver_defs split: if_splits) blast+
next
  case (worker_wins s)
  then show ?case by (cases "rv_done s"; simp add: resolver_defs split: if_splits)
next
  case (stop s)
  then show ?case by (cases "rv_done s"; cases "rv_stop_cb s"; simp add: resolver_defs split: if_splits) blast+
next
  case (stop_wins s)
  then show ?case by (cases "rv_done s"; simp add: resolver_defs split: if_splits)
next
  case (resume s)
  then show ?case by (cases "rv_done s"; simp add: resolver_defs split: if_splits)
qed

interpretation resolver: inductive_invariant "\<lambda>s. \<exists>stop. s = resolver_init stop" "resolver_step aborted r" "resolver_inv aborted r" for aborted r
  by unfold_locales (auto simp: resolver_inv_init intro: resolver_inv_step)

abbreviation resolver_reach :: "'r \<Rightarrow> 'r \<Rightarrow> 'r result_state \<Rightarrow> bool" where
  "resolver_reach aborted r \<equiv> reach (\<lambda>s. \<exists>stop. s = resolver_init stop) (resolver_step aborted r)"

section \<open>Interleavings as data\<close>

datatype resolver_label = RL_suspend | RL_worker | RL_stop | RL_resume

fun resolver_do :: "'r \<Rightarrow> 'r \<Rightarrow> resolver_label \<Rightarrow> 'r result_state \<Rightarrow> 'r result_state option" where
  "resolver_do aborted r RL_suspend s =
     (case rv_suspend s of
        RS_start \<Rightarrow> Some (suspend_check aborted s)
      | RS_register \<Rightarrow> Some (suspend_register aborted s)
      | RS_post \<Rightarrow> Some (suspend_post s)
      | RS_returned \<Rightarrow> None)"
| "resolver_do aborted r RL_worker s =
     (case rv_worker s of RW_queued \<Rightarrow> Some (worker_claims s) | RW_won \<Rightarrow> Some (worker_delivers r s) | _ \<Rightarrow> None)"
| "resolver_do aborted r RL_stop s =
     (case rv_stopper s of
        RP_idle \<Rightarrow> if rv_stop s then None else Some (stop_claims s)
      | RP_won \<Rightarrow> Some (stop_finishes aborted s)
      | RP_end \<Rightarrow> None)"
| "resolver_do aborted r RL_resume s = (if 0 < rv_posted s \<and> rv_got s = None then Some (resolve_resumes s) else None)"

lemma resolver_do_step: "resolver_do aborted r l s = Some t \<Longrightarrow> resolver_step aborted r s t"
  by (cases l) (auto split: suspend_pc.splits resolver_worker_pc.splits stopper_pc.splits if_splits intro: resolver_step.intros)

interpretation resolver_run: labelled_steps "\<lambda>s. \<exists>stop. s = resolver_init stop" "resolver_step aborted r" "resolver_do aborted r" for aborted r
  by unfold_locales (rule resolver_do_step)

section \<open>Properties\<close>

text \<open>
  (C40) A resolution is delivered at most once: the coroutine gets the answer of the worker, or
  \<open>operation_aborted\<close> and then a stop was requested; a result has been stored whenever it is resumed;
  and when the suspension has returned and the worker and the stop callback are through, the
  coroutine has gone on or its resumption is posted, exactly once.
\<close>

theorem resolver_delivers_once:
  assumes "resolver_reach aborted r s"
  shows "(rv_got s = Some x \<longrightarrow> x = r \<or> x = aborted \<and> rv_stop s) \<and> (0 < rv_posted s \<longrightarrow> rv_posted s = 1 \<and> rv_got s = None \<and> rv_res s \<noteq> None) \<and>
    (rv_suspend s = RS_returned \<and> rv_worker s \<in> {RW_none, RW_end} \<and> rv_stopper s \<noteq> RP_won \<longrightarrow> (rv_got s \<noteq> None) \<noteq> (rv_posted s = 1))"
proof -
  have inv: "resolver_inv aborted r s" using assms by (rule resolver.reach_inv)
  show ?thesis
  proof (intro conjI impI)
    show "x = r \<or> x = aborted \<and> rv_stop s" if "rv_got s = Some x" using inv that by (auto simp: resolver_inv_def)
    assume p: "0 < rv_posted s"
    show "rv_posted s = 1" "rv_got s = None" "rv_res s \<noteq> None" using inv p by (auto simp: resolver_inv_def deliveries_def split: if_splits)
  next
    assume e: "rv_suspend s = RS_returned \<and> rv_worker s \<in> {RW_none, RW_end} \<and> rv_stopper s \<noteq> RP_won"
    then have "rv_done s" using inv by (auto simp: resolver_inv_def)
    then have "rv_posted s + (if rv_got s = None then 0 else 1) = 1" using inv e by (auto simp: resolver_inv_def deliveries_def)
    then show "(rv_got s \<noteq> None) \<noteq> (rv_posted s = 1)" by (auto split: if_splits)
  qed
qed

definition resolve_run :: "resolver_label list" where
  "resolve_run = [RL_suspend, RL_suspend, RL_suspend, RL_worker, RL_stop, RL_worker, RL_resume]"

theorem resolver_delivers_once_witness:
  "\<exists>s. do_all (resolver_do (0 :: nat) 7) resolve_run (resolver_init False) = Some s \<and> rv_got s = Some 7 \<and> rv_stop s \<and>
     (rv_got s \<noteq> None) \<noteq> (rv_posted s = 1)"
proof -
  obtain s where s: "do_all (resolver_do (0 :: nat) 7) resolve_run (resolver_init False) = Some s" "rv_got s = Some 7" "rv_stop s"
      "rv_suspend s = RS_returned" "rv_worker s = RW_end" "rv_stopper s = RP_end"
    by (simp add: resolve_run_def resolver_init_def resolver_defs)
  have "resolver_reach 0 7 s" by (rule resolver_run.do_all_reach [OF reach_start s(1)]) blast
  from resolver_delivers_once [OF this, of 7] show ?thesis using s by simp
qed

text \<open>
  The awaiter posts to the pool after its stop callback is registered: a stop in between resumes the
  coroutine, which may go on and end on another thread, and the post then reads \<open>pool_ex\<close> of an
  awaiter that is gone.
\<close>

lemma resolver_use_after_free:
  "\<exists>s. resolver_reach (0 :: nat) 7 s \<and> rv_uaf s"
proof -
  obtain s where s: "do_all (resolver_do (0 :: nat) 7) [RL_suspend, RL_suspend, RL_stop, RL_stop, RL_resume, RL_suspend] (resolver_init False) = Some s"
      "rv_uaf s"
    by (simp add: resolver_init_def resolver_defs)
  have "resolver_reach 0 7 s" by (rule resolver_run.do_all_reach [OF reach_start s(1)]) blast
  then show ?thesis using s by blast
qed

text \<open>What cannot be converted is skipped; the rest keeps its order.\<close>

lemma resolve_skips_unconvertible:
  "map Inr (resolve_endpoints ais) = filter (\<lambda>x. \<exists>ep. x = Inr ep) (map (\<lambda>(addr, len). ep_from_native (Some addr) len) ais)"
  by (induction ais) (auto simp: resolve_endpoints_def split: sum.splits)

end
