(* ===== verification/When.thy ===== *)
theory When
  imports Errors
begin

text \<open>
  Waiting for several tasks: \<open>detail/when/when_state_base.hpp\<close>, \<open>when_all_state.hpp\<close> and
  \<open>when_any_state.hpp\<close>, \<open>when_all.hpp\<close>, \<open>when_any.hpp\<close> and \<open>with_timeout.hpp\<close>.

  Task \<open>i\<close> ends with an exception or a value, \<open>task i\<close>; its runner then works on the state the
  tasks share, step by step, while the other runners and the coroutine that waits do the same on
  other threads. A compare-exchange loop is one step. The address of the waiting coroutine, the
  reserved sentinel and the null pointer are the three values of \<open>waiter_addr\<close>; resuming is
  posted to the executor and happens later.
\<close>

datatype when_mode = M_all | M_any | M_or

datatype waiter_addr = Null | Waiter | Done_sentinel

datatype runner_pc =
    R_run
  | R_stored    \<comment> \<open>\<open>when_all\<close>: value or exception stored, before \<open>try_complete\<close>\<close>
  | R_won       \<comment> \<open>\<open>when_any\<close>: \<open>try_complete\<close> returned true, before the value is stored\<close>
  | R_last      \<comment> \<open>before \<open>complete()\<close>\<close>
  | R_done

datatype awaiter_pc =
    A_start
  | A_not_ready   \<comment> \<open>\<open>await_ready\<close> returned false\<close>
  | A_checked     \<comment> \<open>\<open>await_suspend\<close> found it not done and stored the executor\<close>
  | A_suspended
  | A_running

type_synonym 'v task_outcome = "nat + 'v"

record 'v when_state =
  ws_remaining :: nat
  ws_done :: bool
  ws_values :: "nat \<rightharpoonup> 'v"
  ws_result :: "(nat \<times> 'v) option"
  ws_first_ep :: "nat option"
  ws_waiter :: waiter_addr
  ws_posted :: nat
  ws_stop :: "nat set"
  ws_runner :: "nat \<Rightarrow> runner_pc"
  ws_awaiter :: awaiter_pc

definition when_init :: "when_mode \<Rightarrow> nat \<Rightarrow> 'v when_state" where
  "when_init m n = \<lparr>ws_remaining = (case m of M_all \<Rightarrow> n | M_any \<Rightarrow> 0 | M_or \<Rightarrow> 1), ws_done = False, ws_values = Map.empty, ws_result = None,
     ws_first_ep = None, ws_waiter = Null, ws_posted = 0, ws_stop = {}, ws_runner = (\<lambda>_. R_run), ws_awaiter = A_start\<rparr>"

section \<open>Operations\<close>

definition when_is_done :: "when_mode \<Rightarrow> 'v when_state \<Rightarrow> bool" where
  "when_is_done m s = (case m of M_any \<Rightarrow> ws_done s | _ \<Rightarrow> ws_remaining s = 0)"

definition base_try_complete :: "'v when_state \<Rightarrow> bool \<times> 'v when_state" where
  "base_try_complete s =
     (if ws_remaining s = 0 then (False, s) else (ws_remaining s = 1, s\<lparr>ws_remaining := ws_remaining s - 1\<rparr>))"

definition any_try_complete :: "'v when_state \<Rightarrow> bool \<times> 'v when_state" where
  "any_try_complete s = (\<not> ws_done s, s\<lparr>ws_done := True\<rparr>)"

definition try_complete :: "when_mode \<Rightarrow> 'v when_state \<Rightarrow> bool \<times> 'v when_state" where
  "try_complete m s = (case m of M_any \<Rightarrow> any_try_complete s | _ \<Rightarrow> base_try_complete s)"

definition set_exception :: "nat \<Rightarrow> 'v when_state \<Rightarrow> 'v when_state" where
  "set_exception e s = (case ws_first_ep s of None \<Rightarrow> s\<lparr>ws_first_ep := Some e\<rparr> | Some _ \<Rightarrow> s)"

definition all_set_value :: "nat \<Rightarrow> 'v \<Rightarrow> 'v when_state \<Rightarrow> 'v when_state" where
  "all_set_value i v s = s\<lparr>ws_values := (ws_values s)(i \<mapsto> v)\<rparr>"

definition any_set_value :: "nat \<Rightarrow> 'v \<Rightarrow> 'v when_state \<Rightarrow> 'v when_state" where
  "any_set_value i v s = s\<lparr>ws_result := Some (i, v)\<rparr>"

definition request_cancel_other :: "nat \<Rightarrow> 'v when_state \<Rightarrow> 'v when_state" where
  "request_cancel_other i s = s\<lparr>ws_stop := insert (if i = 0 then 1 else 0) (ws_stop s)\<rparr>"

definition when_complete :: "'v when_state \<Rightarrow> 'v when_state" where
  "when_complete s =
     (case ws_waiter s of
        Done_sentinel \<Rightarrow> s
      | Null \<Rightarrow> s\<lparr>ws_waiter := Done_sentinel\<rparr>
      | Waiter \<Rightarrow> s\<lparr>ws_waiter := Done_sentinel, ws_posted := ws_posted s + 1\<rparr>)"

definition put_runner :: "nat \<Rightarrow> runner_pc \<Rightarrow> 'v when_state \<Rightarrow> 'v when_state" where
  "put_runner i p s = s\<lparr>ws_runner := (ws_runner s)(i := p)\<rparr>"

definition put_awaiter :: "awaiter_pc \<Rightarrow> 'v when_state \<Rightarrow> 'v when_state" where
  "put_awaiter p s = s\<lparr>ws_awaiter := p\<rparr>"

text \<open>\<open>when_all_run_one\<close>: store, then count.\<close>

definition all_store :: "nat \<Rightarrow> 'v task_outcome \<Rightarrow> 'v when_state \<Rightarrow> 'v when_state" where
  "all_store i x s = put_runner i R_stored (case x of Inl e \<Rightarrow> set_exception e s | Inr v \<Rightarrow> all_set_value i v s)"

definition all_count :: "when_mode \<Rightarrow> nat \<Rightarrow> 'v when_state \<Rightarrow> 'v when_state" where
  "all_count m i s = (let (last, s1) = try_complete m s in put_runner i (if last then R_last else R_done) s1)"

text \<open>\<open>when_any_run_one\<close> and \<open>when_or_run_one\<close>: claim, then store.\<close>

definition any_claim :: "when_mode \<Rightarrow> nat \<Rightarrow> 'v when_state \<Rightarrow> 'v when_state" where
  "any_claim m i s = (let (won, s1) = try_complete m s in put_runner i (if won then R_won else R_done) s1)"

definition any_store :: "when_mode \<Rightarrow> nat \<Rightarrow> 'v task_outcome \<Rightarrow> 'v when_state \<Rightarrow> 'v when_state" where
  "any_store m i x s =
     (let s1 = (if m = M_or then request_cancel_other i s else s)
      in put_runner i R_last (case x of Inl e \<Rightarrow> set_exception e s1 | Inr v \<Rightarrow> any_set_value i v s1))"

definition run_complete :: "nat \<Rightarrow> 'v when_state \<Rightarrow> 'v when_state" where
  "run_complete i s = put_runner i R_done (when_complete s)"

definition await_ready :: "when_mode \<Rightarrow> 'v when_state \<Rightarrow> 'v when_state" where
  "await_ready m s = put_awaiter (if when_is_done m s then A_running else A_not_ready) s"

definition await_suspend_check :: "when_mode \<Rightarrow> 'v when_state \<Rightarrow> 'v when_state" where
  "await_suspend_check m s = put_awaiter (if when_is_done m s then A_running else A_checked) s"

text \<open>The compare-exchange; a second awaiter would violate the assertion.\<close>

definition await_suspend_publish :: "'v when_state \<Rightarrow> 'v when_state option" where
  "await_suspend_publish s =
     (case ws_waiter s of
        Null \<Rightarrow> Some (put_awaiter A_suspended (s\<lparr>ws_waiter := Waiter\<rparr>))
      | Done_sentinel \<Rightarrow> Some (put_awaiter A_running s)
      | Waiter \<Rightarrow> None)"

definition await_resumed :: "'v when_state \<Rightarrow> 'v when_state" where
  "await_resumed s = put_awaiter A_running (s\<lparr>ws_posted := ws_posted s - 1\<rparr>)"

text \<open>What the waiting coroutine does when it goes on: \<open>None\<close> is the violated assertion on a missing value.\<close>

definition all_collect :: "nat \<Rightarrow> 'v when_state \<Rightarrow> (nat + 'v list) option" where
  "all_collect n s =
     (case ws_first_ep s of
        Some e \<Rightarrow> Some (Inl e)
      | None \<Rightarrow> if list_all (\<lambda>i. ws_values s i \<noteq> None) [0..<n] then Some (Inr (map (\<lambda>i. the (ws_values s i)) [0..<n])) else None)"

definition any_collect :: "'v when_state \<Rightarrow> (nat + (nat \<times> 'v)) option" where
  "any_collect s = (case ws_first_ep s of Some e \<Rightarrow> Some (Inl e) | None \<Rightarrow> map_option Inr (ws_result s))"

text \<open>
  \<open>when_any_cancel_join\<close>: which runners must have ended before it returns; and what
  \<open>with_timeout\<close> makes of the outcome.
\<close>

definition joined :: "'v when_state \<Rightarrow> bool" where
  "joined s =
     (case any_collect s of
        None \<Rightarrow> False
      | Some (Inl e) \<Rightarrow> ws_runner s 0 = R_done \<and> ws_runner s 1 = R_done
      | Some (Inr (index, v)) \<Rightarrow> ws_runner s (if index = 0 then 1 else 0) = R_done)"

definition timeout_result :: "nat \<times> ('a result + unit result) \<Rightarrow> bool \<Rightarrow> 'a result option" where
  "timeout_result r parent_stop_requested =
     (case r of
        (index, Inl op_result) \<Rightarrow> if index = 0 then Some op_result else None
      | (index, Inr timer_result) \<Rightarrow>
          if index = 0 then None
          else Some (case timer_result of
                       Inl ec \<Rightarrow> if ec = make_error_code operation_aborted \<and> parent_stop_requested
                                 then fail_with operation_aborted else fail ec
                     | Inr _ \<Rightarrow> fail_with timed_out))"

definition with_timeout :: "bool \<Rightarrow> nat \<times> ('a result + unit result) \<Rightarrow> bool \<Rightarrow> 'a result option" where
  "with_timeout stop_requested r stop_requested_after =
     (if stop_requested then Some (fail_with operation_aborted) else timeout_result r stop_requested_after)"

section \<open>Steps\<close>

inductive when_step :: "when_mode \<Rightarrow> nat \<Rightarrow> (nat \<Rightarrow> 'v task_outcome) \<Rightarrow> 'v when_state \<Rightarrow> 'v when_state \<Rightarrow> bool"
  for m :: when_mode and n :: nat and task :: "nat \<Rightarrow> 'v task_outcome" where
  store: "m = M_all \<Longrightarrow> i < n \<Longrightarrow> ws_runner s i = R_run \<Longrightarrow> when_step m n task s (all_store i (task i) s)"
| count: "ws_runner s i = R_stored \<Longrightarrow> when_step m n task s (all_count m i s)"
| claim: "m \<noteq> M_all \<Longrightarrow> i < n \<Longrightarrow> ws_runner s i = R_run \<Longrightarrow> when_step m n task s (any_claim m i s)"
| won: "ws_runner s i = R_won \<Longrightarrow> when_step m n task s (any_store m i (task i) s)"
| completes: "ws_runner s i = R_last \<Longrightarrow> when_step m n task s (run_complete i s)"
| ready: "ws_awaiter s = A_start \<Longrightarrow> when_step m n task s (await_ready m s)"
| check: "ws_awaiter s = A_not_ready \<Longrightarrow> when_step m n task s (await_suspend_check m s)"
| publish: "ws_awaiter s = A_checked \<Longrightarrow> await_suspend_publish s = Some t \<Longrightarrow> when_step m n task s t"
| resume: "ws_awaiter s = A_suspended \<Longrightarrow> 0 < ws_posted s \<Longrightarrow> when_step m n task s (await_resumed s)"

section \<open>Waking the waiter\<close>

fun owner :: "runner_pc \<Rightarrow> bool" where
  "owner R_won = True"
| "owner R_last = True"
| "owner p = False"

definition one_owner :: "(nat \<Rightarrow> runner_pc) \<Rightarrow> bool" where
  "one_owner f \<longleftrightarrow> (\<exists>\<^sub>\<le>\<^sub>1 i. owner (f i))"

definition awaiter_ok :: "when_mode \<Rightarrow> 'v when_state \<Rightarrow> bool" where
  "awaiter_ok m s \<longleftrightarrow>
     (case ws_awaiter s of
        A_suspended \<Rightarrow> ws_waiter s = Waiter \<and> ws_posted s = 0 \<or> ws_waiter s = Done_sentinel \<and> ws_posted s = 1
      | A_running \<Rightarrow> when_is_done m s \<and> ws_waiter s \<noteq> Waiter \<and> ws_posted s = 0
      | _ \<Rightarrow> ws_waiter s \<noteq> Waiter \<and> ws_posted s = 0)"

definition waiter_inv :: "when_mode \<Rightarrow> 'v when_state \<Rightarrow> bool" where
  "waiter_inv m s \<longleftrightarrow> one_owner (ws_runner s) \<and> awaiter_ok m s \<and>
     (ws_waiter s = Done_sentinel \<or> (\<exists>i. owner (ws_runner s i)) \<longleftrightarrow> when_is_done m s) \<and>
     (ws_waiter s = Done_sentinel \<longrightarrow> (\<forall>i. \<not> owner (ws_runner s i)))"

lemma try_complete_done:
  assumes "try_complete m s = (b, s1)"
  shows "b \<longleftrightarrow> \<not> when_is_done m s \<and> when_is_done m s1" "when_is_done m s \<Longrightarrow> when_is_done m s1"
    "\<not> b \<Longrightarrow> when_is_done m s1 = when_is_done m s"
    "ws_waiter s1 = ws_waiter s" "ws_runner s1 = ws_runner s" "ws_awaiter s1 = ws_awaiter s" "ws_posted s1 = ws_posted s"
    "ws_values s1 = ws_values s" "ws_result s1 = ws_result s" "ws_first_ep s1 = ws_first_ep s"
  using assms
  by (auto simp: try_complete_def base_try_complete_def any_try_complete_def when_is_done_def split: when_mode.splits if_splits)

lemma put_runner_simps [simp]:
  "ws_waiter (put_runner i p s) = ws_waiter s" "ws_runner (put_runner i p s) = (ws_runner s)(i := p)"
  "ws_awaiter (put_runner i p s) = ws_awaiter s" "ws_posted (put_runner i p s) = ws_posted s"
  "when_is_done m (put_runner i p s) = when_is_done m s" "ws_remaining (put_runner i p s) = ws_remaining s"
  "ws_values (put_runner i p s) = ws_values s" "ws_result (put_runner i p s) = ws_result s" "ws_first_ep (put_runner i p s) = ws_first_ep s"
  "ws_done (put_runner i p s) = ws_done s"
  by (simp_all add: put_runner_def when_is_done_def split: when_mode.split)

lemma put_awaiter_simps [simp]:
  "ws_waiter (put_awaiter p s) = ws_waiter s" "ws_runner (put_awaiter p s) = ws_runner s"
  "ws_awaiter (put_awaiter p s) = p" "ws_posted (put_awaiter p s) = ws_posted s"
  "when_is_done m (put_awaiter p s) = when_is_done m s" "ws_remaining (put_awaiter p s) = ws_remaining s"
  "ws_values (put_awaiter p s) = ws_values s" "ws_result (put_awaiter p s) = ws_result s" "ws_first_ep (put_awaiter p s) = ws_first_ep s"
  "ws_done (put_awaiter p s) = ws_done s"
  by (simp_all add: put_awaiter_def when_is_done_def split: when_mode.split)

lemma one_owner_update: "one_owner f \<Longrightarrow> owner p = owner (f i) \<or> \<not> owner p \<Longrightarrow> one_owner (f(i := p))"
  unfolding one_owner_def Uniq_def by (auto split: if_splits)

lemma one_owner_first: "\<forall>j. \<not> owner (f j) \<Longrightarrow> one_owner (f(i := p))"
  unfolding one_owner_def Uniq_def by auto

lemma waiter_inv_cong:
  assumes "waiter_inv m s" "ws_waiter t = ws_waiter s" "ws_posted t = ws_posted s" "ws_awaiter t = ws_awaiter s"
    "when_is_done m t = when_is_done m s" "\<And>i. owner (ws_runner t i) = owner (ws_runner s i)"
  shows "waiter_inv m t"
  using assms by (cases "ws_awaiter s") (simp_all add: waiter_inv_def awaiter_ok_def one_owner_def)

lemma waiter_inv_try:
  assumes inv: "waiter_inv m s" and i: "\<not> owner (ws_runner s i)" and p: "owner p"
  shows "waiter_inv m (let (b, s1) = try_complete m s in put_runner i (if b then p else R_done) s1)"
proof -
  obtain b s1 where tc: "try_complete m s = (b, s1)" by fastforce
  note f = try_complete_done [OF tc]
  show ?thesis
  proof (cases b)
    case True
    then have nd: "\<not> when_is_done m s" "when_is_done m s1" using f(1) by auto
    then have none: "\<forall>j. \<not> owner (ws_runner s j)" "ws_waiter s \<noteq> Done_sentinel" using inv by (auto simp: waiter_inv_def)
    have "awaiter_ok m (put_runner i p s1)"
      using inv nd by (auto simp: waiter_inv_def awaiter_ok_def f split: awaiter_pc.splits)
    moreover have "\<exists>j. owner (((ws_runner s)(i := p)) j)" using p by (auto intro: exI [of _ i])
    ultimately show ?thesis using True nd none p one_owner_first [OF none(1), of i p]
      by (simp add: tc waiter_inv_def f)
  next
    case False
    show ?thesis using inv by (rule waiter_inv_cong) (use False f i in \<open>auto simp: tc\<close>)
  qed
qed

lemma waiter_inv_complete:
  assumes inv: "waiter_inv m s" and i: "ws_runner s i = R_last"
  shows "waiter_inv m (run_complete i s)"
proof -
  have w: "ws_waiter s \<noteq> Done_sentinel" "when_is_done m s" using inv i by (auto simp: waiter_inv_def) (metis owner.simps(2))+
  have one: "\<not> owner (((ws_runner s)(i := R_done)) j)" for j
    using inv i unfolding waiter_inv_def one_owner_def Uniq_def by (auto split: if_splits)
  have d: "when_is_done m (when_complete s)" "ws_runner (when_complete s) = ws_runner s" "ws_waiter (when_complete s) = Done_sentinel" 
      "ws_awaiter (when_complete s) = ws_awaiter s"
    using w by (auto simp: when_complete_def when_is_done_def split: waiter_addr.splits when_mode.splits)
  have "awaiter_ok m (run_complete i s)"
    using inv w by (auto simp: run_complete_def waiter_inv_def awaiter_ok_def when_complete_def when_is_done_def split: awaiter_pc.splits waiter_addr.splits when_mode.splits)
  then show ?thesis using one d by (simp add: waiter_inv_def run_complete_def one_owner_def Uniq_def)
qed

lemma set_exception_simps [simp]:
  "ws_waiter (set_exception e s) = ws_waiter s" "ws_runner (set_exception e s) = ws_runner s"
  "ws_awaiter (set_exception e s) = ws_awaiter s" "ws_posted (set_exception e s) = ws_posted s"
  "when_is_done m (set_exception e s) = when_is_done m s" "ws_remaining (set_exception e s) = ws_remaining s"
  "ws_values (set_exception e s) = ws_values s" "ws_result (set_exception e s) = ws_result s" "ws_done (set_exception e s) = ws_done s"
  by (simp_all add: set_exception_def when_is_done_def split: option.split when_mode.split)

lemma store_simps [simp]:
  "ws_waiter (all_store i x s) = ws_waiter s" "ws_runner (all_store i x s) = (ws_runner s)(i := R_stored)"
  "ws_awaiter (all_store i x s) = ws_awaiter s" "ws_posted (all_store i x s) = ws_posted s"
  "when_is_done m (all_store i x s) = when_is_done m s" "ws_remaining (all_store i x s) = ws_remaining s"
  "ws_waiter (any_store m' i x s) = ws_waiter s" "ws_runner (any_store m' i x s) = (ws_runner s)(i := R_last)"
  "ws_awaiter (any_store m' i x s) = ws_awaiter s" "ws_posted (any_store m' i x s) = ws_posted s"
  "when_is_done m (any_store m' i x s) = when_is_done m s" "ws_remaining (any_store m' i x s) = ws_remaining s"
  by (simp_all add: all_store_def any_store_def all_set_value_def any_set_value_def request_cancel_other_def when_is_done_def Let_def
      split: sum.split when_mode.split)

lemma waiter_inv_step:
  assumes "when_step m n task s t" "waiter_inv m s" shows "waiter_inv m t"
  using assms
proof (induction rule: when_step.induct)
  case (store i s)
  show ?case using store(4) by (rule waiter_inv_cong) (use store in simp_all)
next
  case (count s i)
  then show ?case using waiter_inv_try [of m s i R_last] by (simp add: all_count_def)
next
  case (claim i s)
  then show ?case using waiter_inv_try [of m s i R_won] by (simp add: any_claim_def)
next
  case (won s i)
  show ?case using won(2) by (rule waiter_inv_cong) (use won in simp_all)
next
  case (completes s i)
  then show ?case using waiter_inv_complete by blast
next
  case (ready s)
  then show ?case by (auto simp: waiter_inv_def awaiter_ok_def await_ready_def)
next
  case (check s)
  then show ?case by (auto simp: waiter_inv_def awaiter_ok_def await_suspend_check_def)
next
  case (publish s t)
  then show ?case
    by (auto simp: waiter_inv_def awaiter_ok_def await_suspend_publish_def when_is_done_def split: waiter_addr.splits when_mode.splits)
next
  case (resume s)
  then show ?case
    by (auto simp: waiter_inv_def awaiter_ok_def await_resumed_def when_is_done_def split: when_mode.splits)
qed

section \<open>Values\<close>

text \<open>\<open>when_all\<close>: what is counted as remaining is exactly the runners that have not counted yet.\<close>

fun uncounted :: "runner_pc \<Rightarrow> bool" where
  "uncounted R_run = True"
| "uncounted R_stored = True"
| "uncounted p = False"

definition outcome_stored :: "'v task_outcome \<Rightarrow> nat option \<Rightarrow> 'v option \<Rightarrow> bool" where
  "outcome_stored x ep v = (case x of Inl e \<Rightarrow> ep \<noteq> None | Inr w \<Rightarrow> v = Some w)"

definition all_inv :: "nat \<Rightarrow> (nat \<Rightarrow> 'v task_outcome) \<Rightarrow> 'v when_state \<Rightarrow> bool" where
  "all_inv n task s \<longleftrightarrow> ws_remaining s = card {i. i < n \<and> uncounted (ws_runner s i)} \<and>
     (\<forall>i. ws_runner s i \<noteq> R_won) \<and>
     (\<forall>i < n. ws_runner s i \<noteq> R_run \<longrightarrow> outcome_stored (task i) (ws_first_ep s) (ws_values s i)) \<and>
     (\<forall>e. ws_first_ep s = Some e \<longrightarrow> (\<exists>i < n. task i = Inl e)) \<and>
     (\<forall>i. ws_runner s i \<noteq> R_run \<longrightarrow> i < n)"

text \<open>\<open>when_any\<close>: the runner that has stored its outcome.\<close>

definition any_inv :: "when_mode \<Rightarrow> nat \<Rightarrow> (nat \<Rightarrow> 'v task_outcome) \<Rightarrow> 'v when_state \<Rightarrow> bool" where
  "any_inv m n task s \<longleftrightarrow>
     (m = M_or \<longrightarrow> ws_remaining s \<le> 1) \<and>
     (\<forall>i. ws_runner s i \<noteq> R_stored) \<and> (\<forall>i. ws_runner s i \<noteq> R_run \<longrightarrow> i < n \<and> when_is_done m s) \<and>
     (ws_waiter s = Done_sentinel \<or> (\<exists>i. ws_runner s i = R_last) \<longrightarrow>
        (\<exists>i < n. any_collect s = Some (map_sum id (Pair i) (task i)))) \<and>
     (ws_waiter s \<noteq> Done_sentinel \<longrightarrow> (\<forall>i. ws_runner s i \<noteq> R_last) \<longrightarrow> ws_first_ep s = None \<and> ws_result s = None)"

lemma all_inv_cong:
  assumes "all_inv n task s" "ws_remaining t = ws_remaining s" "ws_runner t = ws_runner s" "ws_first_ep t = ws_first_ep s"
    "ws_values t = ws_values s"
  shows "all_inv n task t"
  using assms(1) unfolding all_inv_def assms(2-5) .

lemma card_uncounted_drop:
  fixes n :: nat
  assumes "i < n" "uncounted (f i)" "\<not> uncounted p"
  shows "card {j. j < n \<and> uncounted ((f(i := p)) j)} = card {j. j < n \<and> uncounted (f j)} - 1"
    "0 < card {j. j < n \<and> uncounted (f j)}"
proof -
  have "{j. j < n \<and> uncounted ((f(i := p)) j)} = {j. j < n \<and> uncounted (f j)} - {i}" using assms by auto
  then show "card {j. j < n \<and> uncounted ((f(i := p)) j)} = card {j. j < n \<and> uncounted (f j)} - 1"
    using assms by (simp add: card_Diff_singleton_if)
  show "0 < card {j. j < n \<and> uncounted (f j)}" 
  proof -
    have "finite {j. j < n \<and> uncounted (f j)}" by (rule finite_subset [of _ "{..<n}"]) auto
    then show ?thesis using assms by (auto simp: card_gt_0_iff)
  qed
qed

lemma all_inv_store:
  assumes inv: "all_inv n task s" and i: "i < n" "ws_runner s i = R_run"
  shows "all_inv n task (all_store i (task i) s)"
proof -
  have c: "{j. j < n \<and> uncounted (((ws_runner s)(i := R_stored)) j)} = {j. j < n \<and> uncounted (ws_runner s j)}"
    using i by auto
  show ?thesis
  proof (cases "task i")
    case (Inl e)
    have ep: "ws_first_ep (set_exception e s) = Some (case ws_first_ep s of None \<Rightarrow> e | Some e' \<Rightarrow> e')"
      by (simp add: set_exception_def split: option.split)
    have all: "\<forall>e'. ws_first_ep (set_exception e s) = Some e' \<longrightarrow> (\<exists>j < n. task j = Inl e')"
      using inv Inl i unfolding ep all_inv_def by (auto split: option.splits)
    show ?thesis using inv i c Inl all unfolding all_inv_def store_simps
      by (auto simp: all_store_def ep outcome_stored_def split: sum.splits if_splits)
  next
    case (Inr v)
    then show ?thesis using inv i c unfolding all_inv_def store_simps
      by (auto simp: all_store_def all_set_value_def outcome_stored_def split: sum.splits if_splits)
  qed
qed

lemma all_inv_count:
  assumes inv: "all_inv n task s" and i: "ws_runner s i = R_stored"
  shows "all_inv n task (all_count M_all i s)"
proof -
  have n: "i < n" using inv i unfolding all_inv_def by auto
  have rem: "ws_remaining s = card {j. j < n \<and> uncounted (ws_runner s j)}" using inv by (simp add: all_inv_def)
  then have pos: "0 < ws_remaining s" using card_uncounted_drop(2) [OF n, of "ws_runner s" R_done] i by simp
  define p where "p = (if ws_remaining s = 1 then R_last else R_done)"
  have p: "\<not> uncounted p" "p \<noteq> R_won" "p \<noteq> R_run" by (simp_all add: p_def)
  have eq: "all_count M_all i s = put_runner i p (s\<lparr>ws_remaining := ws_remaining s - 1\<rparr>)"
    using pos by (simp add: all_count_def try_complete_def base_try_complete_def p_def)
  have "ws_remaining s - 1 = card {j. j < n \<and> uncounted (((ws_runner s)(i := p)) j)}"
    using card_uncounted_drop(1) [OF n, of "ws_runner s" p] i p rem by simp
  then show ?thesis using inv i p n unfolding all_inv_def eq put_runner_simps by simp
qed

lemma all_inv_step:
  assumes "when_step m n task s t" "m = M_all" "all_inv n task s" shows "all_inv n task t"
  using assms
proof (induction rule: when_step.induct)
  case (store i s)
  then show ?case by (intro all_inv_store)
next
  case (count s i)
  then show ?case using all_inv_count by blast
next
  case (won s i)
  then show ?case by (auto simp: all_inv_def)
next
  case (completes s i)
  have c: "ws_runner (when_complete s) = ws_runner s" "ws_remaining (when_complete s) = ws_remaining s" "ws_values (when_complete s) = ws_values s"
      "ws_first_ep (when_complete s) = ws_first_ep s"
    by (simp_all add: when_complete_def split: waiter_addr.split)
  have e: "uncounted (((ws_runner s)(i := R_done)) j) = uncounted (ws_runner s j)" for j using completes by simp
  show ?case using completes(1,3) unfolding all_inv_def run_complete_def put_runner_simps c e by auto
next
  case (ready s)
  show ?case using ready(3) by (rule all_inv_cong) (simp_all add: await_ready_def)
next
  case (check s)
  show ?case using check(3) by (rule all_inv_cong) (simp_all add: await_suspend_check_def)
next
  case (publish s t)
  then show ?case by (intro all_inv_cong [OF publish(4)]) (auto simp: await_suspend_publish_def split: waiter_addr.splits)
next
  case (resume s)
  show ?case using resume(4) by (rule all_inv_cong) (simp_all add: await_resumed_def)
qed simp

lemma any_collect_store:
  "any_collect (any_store m i x s) = Some (map_sum id (Pair i) x)" if "ws_first_ep s = None"
  using that by (cases x)
    (simp_all add: any_collect_def any_store_def set_exception_def any_set_value_def request_cancel_other_def Let_def)

lemma any_inv_cong:
  assumes inv: "any_inv m n task s" and t: "ws_remaining t = ws_remaining s" "ws_runner t = ws_runner s" "ws_first_ep t = ws_first_ep s"
    "ws_result t = ws_result s" "(ws_waiter t = Done_sentinel) = (ws_waiter s = Done_sentinel)" "when_is_done m t = when_is_done m s"
  shows "any_inv m n task t"
proof -
  have c: "any_collect t = any_collect s" by (simp only: any_collect_def t)
  show ?thesis using inv unfolding any_inv_def t c .
qed

lemma any_inv_step:
  assumes "when_step m n task s t" "m \<noteq> M_all" "any_inv m n task s" "waiter_inv m s" shows "any_inv m n task t"
  using assms
proof (induction rule: when_step.induct)
  case (count s i)
  then show ?case by (auto simp: any_inv_def)
next
  case (claim i s)
  obtain b s1 where tc: "try_complete m s = (b, s1)" by fastforce
  define p where "p = (if b then R_won else R_done)"
  have t: "any_claim m i s = put_runner i p s1" by (simp add: any_claim_def tc p_def)
  have c: "any_collect (put_runner i p s1) = any_collect s"
    by (simp only: any_collect_def put_runner_simps try_complete_done(9,10) [OF tc])
  have q: "(((ws_runner s)(i := p)) j = R_last) = (ws_runner s j = R_last)" "((ws_runner s)(i := p)) j = R_stored \<Longrightarrow> ws_runner s j = R_stored" for j
    using claim(3) by (auto simp: p_def split: if_splits)
  have run: "((ws_runner s)(i := p)) j \<noteq> R_run \<Longrightarrow> ws_runner s j \<noteq> R_run \<or> j = i" for j by (auto split: if_splits)
  have d: "when_is_done m s1" "m = M_or \<Longrightarrow> ws_remaining s1 \<le> 1"
    using claim(1,5) tc unfolding any_inv_def
    by (cases m; auto simp: try_complete_def any_try_complete_def base_try_complete_def when_is_done_def split: if_splits)+
  show ?case
    using claim(2,5) q(2) run d unfolding any_inv_def t put_runner_simps try_complete_done(4,5,9,10) [OF tc] c q(1) by blast
next
  case (won s i)
  have n: "i < n" using won unfolding any_inv_def by auto
  have o: "one_owner (ws_runner s)" "ws_waiter s \<noteq> Done_sentinel"
    using won unfolding waiter_inv_def by (auto, metis owner.simps(1))
  have "ws_runner s j \<noteq> R_last" for j
  proof
    assume j: "ws_runner s j = R_last"
    then have "j = i" using o(1) won(1) unfolding one_owner_def Uniq_def by (metis owner.simps(1,2))
    then show False using j won(1) by simp
  qed
  then have "ws_first_ep s = None" using won o(2) unfolding any_inv_def by blast
  from any_collect_store [OF this, of m i "task i"]
  have x: "\<exists>j < n. any_collect (any_store m i (task i) s) = Some (map_sum id (Pair j) (task j))" using n by blast
  have y: "((ws_runner s)(i := R_last)) i = R_last" by simp
  have run: "ws_runner s j \<noteq> R_run" if "((ws_runner s)(i := R_last)) j \<noteq> R_run" for j
    using that won(1) by (auto split: if_splits)
  have st: "((ws_runner s)(i := R_last)) j \<noteq> R_stored" for j using won unfolding any_inv_def by auto
  have d: "\<And>j. ws_runner s j \<noteq> R_run \<Longrightarrow> j < n \<and> when_is_done m s" "m = M_or \<Longrightarrow> ws_remaining s \<le> 1"
    using won unfolding any_inv_def by blast+
  show ?case unfolding any_inv_def store_simps
    by (intro conjI allI impI) (use x y run st d in blast)+
next
  case (completes s i)
  have c: "any_collect (run_complete i s) = any_collect s" "ws_waiter (run_complete i s) = Done_sentinel"
      "ws_runner (run_complete i s) = (ws_runner s)(i := R_done)" "when_is_done m (run_complete i s) = when_is_done m s"
      "ws_remaining (run_complete i s) = ws_remaining s"
    by (simp_all add: run_complete_def when_complete_def any_collect_def when_is_done_def split: waiter_addr.split when_mode.split option.split)
  have run: "ws_runner s j \<noteq> R_run" if "((ws_runner s)(i := R_done)) j \<noteq> R_run" for j
    using that completes(1) by (auto split: if_splits)
  have st: "((ws_runner s)(i := R_done)) j \<noteq> R_stored" for j using completes unfolding any_inv_def by auto
  have d: "\<And>j. ws_runner s j \<noteq> R_run \<Longrightarrow> j < n \<and> when_is_done m s" "m = M_or \<Longrightarrow> ws_remaining s \<le> 1"
      "\<exists>j < n. any_collect s = Some (map_sum id (Pair j) (task j))"
    using completes unfolding any_inv_def by blast+
  show ?case unfolding any_inv_def c
    by (intro conjI allI impI) (use run st d in blast)+
next
  case (ready s)
  show ?case using ready(3) by (rule any_inv_cong) (simp_all add: await_ready_def)
next
  case (check s)
  show ?case using check(3) by (rule any_inv_cong) (simp_all add: await_suspend_check_def)
next
  case (publish s t)
  then show ?case
    by (intro any_inv_cong [OF publish(4)])
       (auto simp: await_suspend_publish_def when_is_done_def split: waiter_addr.splits when_mode.split)
next
  case (resume s)
  show ?case using resume(4) by (rule any_inv_cong) (simp_all add: await_resumed_def when_is_done_def split: when_mode.split)
qed simp

definition when_inv :: "when_mode \<Rightarrow> nat \<Rightarrow> (nat \<Rightarrow> 'v task_outcome) \<Rightarrow> 'v when_state \<Rightarrow> bool" where
  "when_inv m n task s \<longleftrightarrow> waiter_inv m s \<and> (if m = M_all then all_inv n task s else any_inv m n task s)"

lemma when_inv_step: "when_step m n task s t \<Longrightarrow> when_inv m n task s \<Longrightarrow> when_inv m n task t"
  using waiter_inv_step all_inv_step any_inv_step unfolding when_inv_def by metis

lemma when_inv_init: "0 < n \<Longrightarrow> when_inv m n task (when_init m n)"
  by (cases m) (simp_all add: when_inv_def waiter_inv_def one_owner_def Uniq_def awaiter_ok_def all_inv_def any_inv_def when_init_def
      when_is_done_def)

lemma when_invD_running:
  assumes "when_inv M_all n task s" "when_is_done M_all s"
  shows "\<And>i. i < n \<Longrightarrow> outcome_stored (task i) (ws_first_ep s) (ws_values s i)"
    "\<And>e. ws_first_ep s = Some e \<Longrightarrow> \<exists>i < n. task i = Inl e"
proof -
  have inv: "all_inv n task s" using assms(1) by (simp add: when_inv_def)
  have "ws_remaining s = card {i. i < n \<and> uncounted (ws_runner s i)}" "ws_remaining s = 0"
    using inv assms(2) by (simp_all add: all_inv_def when_is_done_def)
  moreover have "finite {i. i < n \<and> uncounted (ws_runner s i)}" by simp
  ultimately have "{i. i < n \<and> uncounted (ws_runner s i)} = {}" by simp
  then have "ws_runner s i \<noteq> R_run" if "i < n" for i using that by force
  then show "outcome_stored (task i) (ws_first_ep s) (ws_values s i)" if "i < n" for i
    using inv that unfolding all_inv_def by blast
  show "\<exists>i < n. task i = Inl e" if "ws_first_ep s = Some e" for e using inv that unfolding all_inv_def by blast
qed

lemma all_collect_outcome:
  assumes st: "\<And>i. i < n \<Longrightarrow> outcome_stored (task i) (ws_first_ep s) (ws_values s i)"
    and ep: "\<And>e. ws_first_ep s = Some e \<Longrightarrow> \<exists>i < n. task i = Inl e"
  shows "\<exists>r. all_collect n s = Some r \<and>
    (case r of Inl e \<Rightarrow> \<exists>i < n. task i = Inl e | Inr vs \<Rightarrow> length vs = n \<and> (\<forall>i < n. task i = Inr (vs ! i)))"
proof (cases "ws_first_ep s")
  case (Some e)
  then show ?thesis using ep by (simp add: all_collect_def)
next
  case None
  have v: "\<exists>v. task i = Inr v \<and> ws_values s i = Some v" if "i < n" for i
    using st [OF that] None by (auto simp: outcome_stored_def split: sum.splits)
  then have "list_all (\<lambda>i. ws_values s i \<noteq> None) [0..<n]" by (fastforce simp: list_all_iff)
  moreover have "task i = Inr (the (ws_values s i))" if "i < n" for i using v [OF that] by auto
  ultimately show ?thesis using None by (simp add: all_collect_def)
qed

lemma no_lost_wake:
  assumes "waiter_inv m s" "ws_awaiter s = A_suspended" "when_is_done m s" "\<And>i. \<not> owner (ws_runner s i)"
  shows "ws_posted s = 1"
  using assms by (auto simp: waiter_inv_def awaiter_ok_def)

lemma all_done_is_done:
  assumes "when_inv m n task s" "0 < n" "\<And>i. i < n \<Longrightarrow> ws_runner s i = R_done"
  shows "when_is_done m s" "\<not> owner (ws_runner s i)"
proof -
  have none: "i < n \<Longrightarrow> \<not> uncounted (ws_runner s i)" for i using assms(3) by simp
  show "when_is_done m s"
  proof (cases "m = M_all")
    case m: True
    have "{i. i < n \<and> uncounted (ws_runner s i)} = {}" using none by auto
    then show "when_is_done m s" using assms(1) m by (simp add: when_inv_def all_inv_def when_is_done_def)
  next
    case False
    then have "any_inv m n task s" using assms(1) by (simp add: when_inv_def)
    then show ?thesis using assms(2,3) unfolding any_inv_def by (metis runner_pc.distinct(7))
  qed
  show "\<not> owner (ws_runner s i)"
  proof (cases "i < n")
    case False
    then have "ws_runner s i = R_run" using assms(1) unfolding when_inv_def all_inv_def any_inv_def by (metis (full_types))
    then show ?thesis by simp
  qed (use assms(3) in simp)
qed

section \<open>Running an interleaving\<close>

datatype when_label = L_run nat | L_wait

text \<open>The next step of runner \<open>i\<close>, and of the waiting coroutine.\<close>

fun when_do :: "when_mode \<Rightarrow> nat \<Rightarrow> (nat \<Rightarrow> 'v task_outcome) \<Rightarrow> when_label \<Rightarrow> 'v when_state \<Rightarrow> 'v when_state option" where
  "when_do m n task (L_run i) s =
     (case ws_runner s i of
        R_run \<Rightarrow> if i < n then Some (if m = M_all then all_store i (task i) s else any_claim m i s) else None
      | R_stored \<Rightarrow> Some (all_count m i s)
      | R_won \<Rightarrow> Some (any_store m i (task i) s)
      | R_last \<Rightarrow> Some (run_complete i s)
      | R_done \<Rightarrow> None)"
| "when_do m n task L_wait s =
     (case ws_awaiter s of
        A_start \<Rightarrow> Some (await_ready m s)
      | A_not_ready \<Rightarrow> Some (await_suspend_check m s)
      | A_checked \<Rightarrow> await_suspend_publish s
      | A_suspended \<Rightarrow> if 0 < ws_posted s then Some (await_resumed s) else None
      | A_running \<Rightarrow> None)"

lemma when_do_step: "when_do m n task l s = Some t \<Longrightarrow> when_step m n task s t"
  by (cases l) (auto intro: when_step.intros split: runner_pc.splits awaiter_pc.splits if_splits)

abbreviation when_reach :: "when_mode \<Rightarrow> nat \<Rightarrow> (nat \<Rightarrow> 'v task_outcome) \<Rightarrow> 'v when_state \<Rightarrow> bool" where
  "when_reach m n task \<equiv> reach (\<lambda>s. s = when_init m n \<and> 0 < n) (when_step m n task)"

interpretation when_all: inductive_invariant "\<lambda>s. s = when_init m n \<and> 0 < n" "when_step m n task" "when_inv m n task" for m n task
  by unfold_locales (auto simp: when_inv_init when_inv_step)

interpretation when_run: labelled_steps "\<lambda>s. s = when_init m n \<and> 0 < n" "when_step m n task" "when_do m n task" for m n task
  by unfold_locales (fact when_do_step)

lemmas when_run_simps = when_init_def when_is_done_def base_try_complete_def any_try_complete_def try_complete_def set_exception_def
  all_set_value_def any_set_value_def request_cancel_other_def when_complete_def put_runner_def put_awaiter_def all_store_def all_count_def
  any_claim_def any_store_def run_complete_def await_ready_def await_suspend_check_def await_suspend_publish_def await_resumed_def
  all_collect_def any_collect_def

definition two_tasks :: "nat \<Rightarrow> nat task_outcome" where
  "two_tasks i = (if i = 0 then Inr 10 else Inr 20)"

section \<open>Properties\<close>


definition all_run :: "when_label list" where
  "all_run = [L_run 0, L_wait, L_wait, L_run 1, L_run 1, L_wait, L_run 0, L_run 0, L_wait]"


text \<open>
  (C12) \<open>when_any\<close> and \<open>when_any_cancel_join\<close>: at most one task wins; once its runner has called
  \<open>complete()\<close> the stored result is exactly the outcome of one task; and when all runners have
  ended while the coroutine is suspended, its resumption has been posted.
\<close>

theorem when_any_result:
  assumes "when_reach m n task s" "m \<noteq> M_all"
  shows "(ws_waiter s = Done_sentinel \<longrightarrow> (\<exists>i < n. any_collect s = Some (map_sum id (Pair i) (task i)))) \<and>
    (owner (ws_runner s i) \<and> owner (ws_runner s j) \<longrightarrow> i = j) \<and> ws_posted s \<le> 1 \<and>
    (ws_awaiter s = A_suspended \<and> (\<forall>i < n. ws_runner s i = R_done) \<longrightarrow> ws_posted s = 1)"
proof -
  have inv: "when_inv m n task s" using assms(1) by (rule when_all.reach_inv)
  have n: "0 < n" using assms(1) by (induction rule: reach.induct) auto
  have w: "waiter_inv m s" "any_inv m n task s" using inv assms(2) by (simp_all add: when_inv_def)
  have "ws_waiter s = Done_sentinel \<longrightarrow> (\<exists>i < n. any_collect s = Some (map_sum id (Pair i) (task i)))"
    using w(2) unfolding any_inv_def by blast
  moreover have "owner (ws_runner s i) \<and> owner (ws_runner s j) \<longrightarrow> i = j"
    using w(1) unfolding waiter_inv_def one_owner_def Uniq_def by blast
  moreover have "ws_posted s \<le> 1" using w(1) by (auto simp: waiter_inv_def awaiter_ok_def split: awaiter_pc.splits)
  moreover have "ws_posted s = 1" if "ws_awaiter s = A_suspended" "\<forall>i < n. ws_runner s i = R_done"
    using no_lost_wake [OF w(1) that(1)] all_done_is_done [OF inv n] that(2) by blast
  ultimately show ?thesis by blast
qed

definition any_run :: "when_label list" where
  "any_run = [L_wait, L_wait, L_wait, L_run 1, L_run 0, L_run 1, L_run 1, L_wait]"

theorem when_any_result_witness:
  "\<exists>s. do_all (when_do M_or 2 two_tasks) any_run (when_init M_or 2) = Some s \<and> ws_awaiter s = A_running \<and>
     any_collect s = Some (Inr (1, 20)) \<and> ws_stop s = {0} \<and>
     (\<exists>i < 2. any_collect s = Some (map_sum id (Pair i) (two_tasks i)))"
proof -
  obtain s where s: "do_all (when_do M_or 2 two_tasks) any_run (when_init M_or 2) = Some s" "ws_awaiter s = A_running"
      "any_collect s = Some (Inr (1, 20))" "ws_stop s = {0}" "ws_waiter s = Done_sentinel"
    by (simp add: any_run_def when_run_simps two_tasks_def)
  have "when_reach M_or 2 two_tasks s" using reach_start s(1) by (rule when_run.do_all_reach) simp
  from when_any_result [OF this] show ?thesis using s by blast
qed

text \<open>
  The winner of \<open>when_any\<close> claims its place before it stores its value, and a coroutine
  that asks in between finds the operation done: it goes on with no result and no exception, and
  hits the assertion on the missing value. The same holds for \<open>when_any_cancel_join\<close>.
\<close>

lemma when_any_reads_early:
  "\<forall>m \<in> {M_any, M_or}. \<exists>s. when_reach m 2 two_tasks s \<and> ws_awaiter s = A_running \<and> any_collect s = None"
proof
  fix m assume "m \<in> {M_any, M_or}"
  then obtain s where s: "do_all (when_do m 2 two_tasks) [L_run 0, L_wait] (when_init m 2) = Some s" "ws_awaiter s = A_running"
      "any_collect s = None"
    by (cases m) (simp_all add: when_run_simps)
  have "when_reach m 2 two_tasks s" using reach_start s(1) by (rule when_run.do_all_reach) simp
  then show "\<exists>s. when_reach m 2 two_tasks s \<and> ws_awaiter s = A_running \<and> any_collect s = None" using s by blast
qed

end
