(* ===== verification/ErasedStorage.thy ===== *)
theory ErasedStorage
  imports Prelude
begin

text \<open>
  Type erasure with small-object storage: \<open>detail/unique_function.hpp\<close> (the library's own
  version) and \<open>detail/any_executor_storage.hpp\<close>.

  Wrappers are numbered; the inline buffer of wrapper \<open>i\<close> is the place \<open>Inline i\<close>, cells from
  \<open>new\<close> or \<open>make_shared\<close> are places \<open>Heap h\<close>. Memory maps the places with a live object to the
  object's type and value. A vtable is the type it was instantiated for. Constructing an object
  over a live one, destroying or using a place with no live object of the vtable's type, and a
  violated assertion are \<open>None\<close>. Which types fit inline is a parameter.
\<close>

datatype loc = Inline nat | Heap nat

type_synonym 'v memory = "loc \<rightharpoonup> nat \<times> 'v"

definition construct_at :: "loc \<Rightarrow> nat \<times> 'v \<Rightarrow> 'v memory \<Rightarrow> 'v memory option" where
  "construct_at l x m = (case m l of None \<Rightarrow> Some (m(l \<mapsto> x)) | Some _ \<Rightarrow> None)"

definition destroy_at :: "loc \<Rightarrow> nat \<Rightarrow> 'v memory \<Rightarrow> 'v memory option" where
  "destroy_at l ty m = (case m l of Some (ty', v) \<Rightarrow> if ty' = ty then Some (m(l := None)) else None | None \<Rightarrow> None)"

definition object_at :: "loc \<Rightarrow> nat \<Rightarrow> 'v memory \<Rightarrow> 'v option" where
  "object_at l ty m = (case m l of Some (ty', v) \<Rightarrow> if ty' = ty then Some v else None | None \<Rightarrow> None)"

text \<open>\<open>move_inline_impl\<close> and \<open>copy_inline_impl\<close>: the value goes along.\<close>

definition move_inline :: "nat \<Rightarrow> loc \<Rightarrow> loc \<Rightarrow> 'v memory \<Rightarrow> 'v memory option" where
  "move_inline ty src dst m =
     Option.bind (object_at src ty m) (\<lambda>v. Option.bind (construct_at dst (ty, v) m) (destroy_at src ty))"

definition copy_inline :: "nat \<Rightarrow> loc \<Rightarrow> loc \<Rightarrow> 'v memory \<Rightarrow> 'v memory option" where
  "copy_inline ty src dst m = Option.bind (object_at src ty m) (\<lambda>v. construct_at dst (ty, v) m)"

section \<open>unique_function\<close>

record uf_wrapper =
  uf_ptr :: "loc option"
  uf_vtable :: "nat option"
  uf_is_inline :: bool

definition uf_empty :: uf_wrapper where
  "uf_empty = \<lparr>uf_ptr = None, uf_vtable = None, uf_is_inline = False\<rparr>"

record 'v uf_state =
  um_memory :: "'v memory"
  um_heap :: nat
  um_fun :: "nat \<Rightarrow> uf_wrapper"

definition uf_init :: "'v uf_state" where
  "uf_init = \<lparr>um_memory = Map.empty, um_heap = 0, um_fun = (\<lambda>_. uf_empty)\<rparr>"

definition uf_put :: "nat \<Rightarrow> uf_wrapper \<Rightarrow> 'v memory \<Rightarrow> 'v uf_state \<Rightarrow> 'v uf_state" where
  "uf_put i w m s = s\<lparr>um_memory := m, um_fun := (um_fun s)(i := w)\<rparr>"

text \<open>The constructor from a callable of type \<open>ty\<close>, on a new wrapper.\<close>

definition uf_make :: "(nat \<Rightarrow> bool) \<Rightarrow> nat \<Rightarrow> nat \<Rightarrow> 'v \<Rightarrow> bool \<Rightarrow> 'v uf_state \<Rightarrow> 'v uf_state option" where
  "uf_make fits i ty v is_null s =
     (if is_null then Some s
      else if fits ty then
        map_option (\<lambda>m. uf_put i \<lparr>uf_ptr = Some (Inline i), uf_vtable = Some ty, uf_is_inline = True\<rparr> m s)
          (construct_at (Inline i) (ty, v) (um_memory s))
      else
        map_option (\<lambda>m. (uf_put i \<lparr>uf_ptr = Some (Heap (um_heap s)), uf_vtable = Some ty, uf_is_inline = False\<rparr> m s)\<lparr>um_heap := um_heap s + 1\<rparr>)
          (construct_at (Heap (um_heap s)) (ty, v) (um_memory s)))"

definition uf_reset :: "nat \<Rightarrow> 'v uf_state \<Rightarrow> 'v uf_state option" where
  "uf_reset i s =
     (case uf_ptr (um_fun s i) of
        None \<Rightarrow> Some s
      | Some l \<Rightarrow>
          (case uf_vtable (um_fun s i) of
             None \<Rightarrow> None
           | Some ty \<Rightarrow> map_option (\<lambda>m. uf_put i uf_empty m s) (destroy_at l ty (um_memory s))))"

definition uf_move_from :: "nat \<Rightarrow> nat \<Rightarrow> 'v uf_state \<Rightarrow> 'v uf_state option" where
  "uf_move_from i j s =
     (case uf_ptr (um_fun s j) of
        None \<Rightarrow> Some (uf_put i uf_empty (um_memory s) s)
      | Some l \<Rightarrow>
          (case uf_vtable (um_fun s j) of
             None \<Rightarrow> None
           | Some ty \<Rightarrow>
               if uf_is_inline (um_fun s j) then
                 map_option (\<lambda>m. uf_put j uf_empty m (uf_put i \<lparr>uf_ptr = Some (Inline i), uf_vtable = Some ty, uf_is_inline = True\<rparr> m s))
                   (move_inline ty l (Inline i) (um_memory s))
               else
                 Some (uf_put j uf_empty (um_memory s)
                   (uf_put i \<lparr>uf_ptr = Some l, uf_vtable = Some ty, uf_is_inline = False\<rparr> (um_memory s) s))))"

definition uf_assign :: "nat \<Rightarrow> nat \<Rightarrow> 'v uf_state \<Rightarrow> 'v uf_state option" where
  "uf_assign i j s = (if i = j then Some s else Option.bind (uf_reset i s) (uf_move_from i j))"

definition uf_invoke :: "nat \<Rightarrow> 'v uf_state \<Rightarrow> 'v option" where
  "uf_invoke i s =
     (case (uf_ptr (um_fun s i), uf_vtable (um_fun s i)) of
        (Some l, Some ty) \<Rightarrow> object_at l ty (um_memory s)
      | _ \<Rightarrow> None)"

section \<open>any_executor_storage\<close>

record es_wrapper =
  es_ptr :: "loc option"
  es_vtable :: "nat option"
  es_is_inline :: bool
  es_shared :: "nat option"     \<comment> \<open>what \<open>storage_\<close> owns\<close>

definition es_empty :: es_wrapper where
  "es_empty = \<lparr>es_ptr = None, es_vtable = None, es_is_inline = False, es_shared = None\<rparr>"

record 'v es_state =
  em_memory :: "'v memory"
  em_heap :: nat
  em_count :: "nat \<Rightarrow> nat"      \<comment> \<open>owners of a cell of \<open>make_shared\<close>\<close>
  em_ex :: "nat \<Rightarrow> es_wrapper"

definition es_init :: "'v es_state" where
  "es_init = \<lparr>em_memory = Map.empty, em_heap = 0, em_count = (\<lambda>_. 0), em_ex = (\<lambda>_. es_empty)\<rparr>"

definition es_put :: "nat \<Rightarrow> es_wrapper \<Rightarrow> 'v es_state \<Rightarrow> 'v es_state" where
  "es_put i w s = s\<lparr>em_ex := (em_ex s)(i := w)\<rparr>"

definition es_make :: "(nat \<Rightarrow> bool) \<Rightarrow> nat \<Rightarrow> nat \<Rightarrow> 'v \<Rightarrow> 'v es_state \<Rightarrow> 'v es_state option" where
  "es_make fits i ty v s =
     (if fits ty then
        map_option (\<lambda>m. es_put i \<lparr>es_ptr = Some (Inline i), es_vtable = Some ty, es_is_inline = True, es_shared = es_shared (em_ex s i)\<rparr>
            (s\<lparr>em_memory := m\<rparr>))
          (construct_at (Inline i) (ty, v) (em_memory s))
      else
        map_option (\<lambda>m. es_put i \<lparr>es_ptr = Some (Heap (em_heap s)), es_vtable = Some ty, es_is_inline = False, es_shared = Some (em_heap s)\<rparr>
            (s\<lparr>em_memory := m, em_count := (em_count s)(em_heap s := 1), em_heap := em_heap s + 1\<rparr>))
          (construct_at (Heap (em_heap s)) (ty, v) (em_memory s)))"

text \<open>\<open>shared_ptr::reset\<close>: the last owner destroys the object.\<close>

definition shared_reset :: "nat \<Rightarrow> nat \<Rightarrow> 'v es_state \<Rightarrow> 'v es_state option" where
  "shared_reset h ty s =
     (if em_count s h \<le> 1 then map_option (\<lambda>m. s\<lparr>em_memory := m, em_count := (em_count s)(h := 0)\<rparr>) (destroy_at (Heap h) ty (em_memory s))
      else Some (s\<lparr>em_count := (em_count s)(h := em_count s h - 1)\<rparr>))"

definition es_reset :: "nat \<Rightarrow> 'v es_state \<Rightarrow> 'v es_state option" where
  "es_reset i s =
     (let w = em_ex s i
      in case (es_ptr w, es_vtable w) of
           (None, _) \<Rightarrow> Some s
         | (Some l, None) \<Rightarrow> None
         | (Some l, Some ty) \<Rightarrow>
             if es_is_inline w then
               map_option (\<lambda>m. es_put i \<lparr>es_ptr = None, es_vtable = None, es_is_inline = False, es_shared = es_shared w\<rparr> (s\<lparr>em_memory := m\<rparr>))
                 (destroy_at l ty (em_memory s))
             else
               map_option (es_put i es_empty)
                 (case es_shared w of None \<Rightarrow> Some s | Some h \<Rightarrow> shared_reset h ty s))"

definition es_copy_from :: "nat \<Rightarrow> nat \<Rightarrow> 'v es_state \<Rightarrow> 'v es_state option" where
  "es_copy_from i j s =
     (let w = em_ex s j
      in case (es_ptr w, es_vtable w) of
           (None, _) \<Rightarrow> Some (es_put i \<lparr>es_ptr = None, es_vtable = None, es_is_inline = False, es_shared = es_shared (em_ex s i)\<rparr> s)
         | (Some l, None) \<Rightarrow> None
         | (Some l, Some ty) \<Rightarrow>
             if es_is_inline w then
               map_option (\<lambda>m. es_put i \<lparr>es_ptr = Some (Inline i), es_vtable = Some ty, es_is_inline = True, es_shared = es_shared (em_ex s i)\<rparr>
                   (s\<lparr>em_memory := m\<rparr>))
                 (copy_inline ty l (Inline i) (em_memory s))
             else
               (case es_shared w of
                  None \<Rightarrow> None
                | Some h \<Rightarrow>
                    Some (es_put i \<lparr>es_ptr = Some (Heap h), es_vtable = Some ty, es_is_inline = False, es_shared = Some h\<rparr>
                      (s\<lparr>em_count := (em_count s)(h := em_count s h + 1)\<rparr>))))"

definition es_move_from :: "nat \<Rightarrow> nat \<Rightarrow> 'v es_state \<Rightarrow> 'v es_state option" where
  "es_move_from i j s =
     (let w = em_ex s j
      in case (es_ptr w, es_vtable w) of
           (None, _) \<Rightarrow> Some (es_put i \<lparr>es_ptr = None, es_vtable = None, es_is_inline = False, es_shared = es_shared (em_ex s i)\<rparr> s)
         | (Some l, None) \<Rightarrow> None
         | (Some l, Some ty) \<Rightarrow>
             if es_is_inline w then
               map_option (\<lambda>m. es_put j (w\<lparr>es_ptr := None, es_vtable := None, es_is_inline := False\<rparr>)
                   (es_put i \<lparr>es_ptr = Some (Inline i), es_vtable = Some ty, es_is_inline = True, es_shared = es_shared (em_ex s i)\<rparr>
                     (s\<lparr>em_memory := m\<rparr>)))
                 (move_inline ty l (Inline i) (em_memory s))
             else
               Some (es_put j es_empty
                 (es_put i \<lparr>es_ptr = map_option Heap (es_shared w), es_vtable = Some ty, es_is_inline = False, es_shared = es_shared w\<rparr> s)))"

definition es_copy_assign :: "nat \<Rightarrow> nat \<Rightarrow> 'v es_state \<Rightarrow> 'v es_state option" where
  "es_copy_assign i j s = (if i = j then Some s else Option.bind (es_reset i s) (es_copy_from i j))"

definition es_move_assign :: "nat \<Rightarrow> nat \<Rightarrow> 'v es_state \<Rightarrow> 'v es_state option" where
  "es_move_assign i j s = (if i = j then Some s else Option.bind (es_reset i s) (es_move_from i j))"

text \<open>The object \<open>post\<close>, \<open>dispatch\<close>, \<open>capabilities\<close>, \<open>io_context_ptr\<close> and \<open>target\<close> work on.\<close>

definition es_object :: "nat \<Rightarrow> 'v es_state \<Rightarrow> (nat \<times> 'v) option" where
  "es_object i s =
     (case (es_ptr (em_ex s i), es_vtable (em_ex s i)) of
        (Some l, Some ty) \<Rightarrow> map_option (Pair ty) (object_at l ty (em_memory s))
      | _ \<Rightarrow> None)"

definition es_target :: "nat \<Rightarrow> nat \<Rightarrow> 'v es_state \<Rightarrow> 'v option" where
  "es_target ty i s = (case es_object i s of Some (ty', v) \<Rightarrow> if ty = ty' then Some v else None | None \<Rightarrow> None)"

definition es_equal :: "nat \<Rightarrow> nat \<Rightarrow> 'v es_state \<Rightarrow> bool option" where
  "es_equal i j s =
     (let a = em_ex s i; b = em_ex s j
      in if es_ptr a = None \<and> es_ptr b = None then Some True
         else if es_ptr a = None \<or> es_ptr b = None then Some False
         else if es_vtable a \<noteq> es_vtable b then Some False
         else case (es_object i s, es_object j s) of
                (Some x, Some y) \<Rightarrow> Some (snd x = snd y)
              | _ \<Rightarrow> None)"

section \<open>Refinement of a specification\<close>

fun run_ops :: "('op \<Rightarrow> 's \<Rightarrow> 's option) \<Rightarrow> 'op list \<Rightarrow> 's \<Rightarrow> 's option" where
  "run_ops f [] s = Some s"
| "run_ops f (x # xs) s = Option.bind (f x s) (run_ops f xs)"

text \<open>Operations that never fail where the invariant holds, keep it and do what is specified.\<close>

locale refined_ops =
  fixes op_do :: "'op \<Rightarrow> 's \<Rightarrow> 's option"
    and spec :: "'op \<Rightarrow> 'a \<Rightarrow> 'a"
    and abs :: "'s \<Rightarrow> 'a"
    and inv :: "'s \<Rightarrow> bool"
  assumes op_refines: "inv s \<Longrightarrow> \<exists>t. op_do x s = Some t \<and> inv t \<and> abs t = spec x (abs s)"
begin

lemma run_refines: "inv s \<Longrightarrow> \<exists>t. run_ops op_do xs s = Some t \<and> inv t \<and> abs t = fold spec xs (abs s)"
proof (induction xs arbitrary: s)
  case (Cons x xs)
  obtain u where u: "op_do x s = Some u" "inv u" "abs u = spec x (abs s)" using op_refines [OF Cons.prems] by blast
  then show ?case using Cons.IH [OF u(2)] by auto
qed simp

end

section \<open>unique_function: ownership\<close>

text \<open>The wrapper as its user sees it: empty, or a callable of some type.\<close>

definition uf_abs :: "'v uf_state \<Rightarrow> nat \<rightharpoonup> nat \<times> 'v" where
  "uf_abs s i =
     (case (uf_ptr (um_fun s i), uf_vtable (um_fun s i)) of
        (Some l, Some ty) \<Rightarrow> map_option (Pair ty) (object_at l ty (um_memory s))
      | _ \<Rightarrow> None)"

definition uf_wrapper_ok :: "(nat \<Rightarrow> bool) \<Rightarrow> 'v memory \<Rightarrow> nat \<Rightarrow> uf_wrapper \<Rightarrow> bool" where
  "uf_wrapper_ok fits m i w \<longleftrightarrow> w = uf_empty \<or>
     (\<exists>l ty v. w = \<lparr>uf_ptr = Some l, uf_vtable = Some ty, uf_is_inline = fits ty\<rparr> \<and> m l = Some (ty, v) \<and>
        (if fits ty then l = Inline i else (\<exists>h. l = Heap h)))"

definition uf_inv :: "(nat \<Rightarrow> bool) \<Rightarrow> 'v uf_state \<Rightarrow> bool" where
  "uf_inv fits s \<longleftrightarrow> (\<forall>i. uf_wrapper_ok fits (um_memory s) i (um_fun s i)) \<and>
     (\<forall>i j l. uf_ptr (um_fun s i) = Some l \<longrightarrow> uf_ptr (um_fun s j) = Some l \<longrightarrow> i = j) \<and>
     (\<forall>l. um_memory s l \<noteq> None \<longrightarrow> (\<exists>i. uf_ptr (um_fun s i) = Some l)) \<and>
     (\<forall>h. um_heap s \<le> h \<longrightarrow> um_memory s (Heap h) = None)"

lemma uf_invD:
  assumes "uf_inv fits s"
  shows "uf_wrapper_ok fits (um_memory s) i (um_fun s i)"
    "uf_ptr (um_fun s i) = Some l \<Longrightarrow> uf_ptr (um_fun s j) = Some l \<Longrightarrow> i = j"
    "um_memory s l = Some x \<Longrightarrow> \<exists>i. uf_ptr (um_fun s i) = Some l"
    "um_heap s \<le> h \<Longrightarrow> um_memory s (Heap h) = None"
  using assms unfolding uf_inv_def by blast+

lemma uf_wrapper_cases:
  assumes "uf_inv fits s"
  obtains "um_fun s i = uf_empty"
  | l ty v where "um_fun s i = \<lparr>uf_ptr = Some l, uf_vtable = Some ty, uf_is_inline = fits ty\<rparr>" "um_memory s l = Some (ty, v)"
      "if fits ty then l = Inline i else (\<exists>h. l = Heap h)"
  using uf_invD(1) [OF assms, of i] unfolding uf_wrapper_ok_def by blast

lemma uf_wrapper_ok_other:
  assumes "uf_wrapper_ok fits m i w" "uf_ptr w \<noteq> Some l"
  shows "uf_wrapper_ok fits (m(l := x)) i w"
proof (cases "w = uf_empty")
  case False
  then obtain l' ty v where w: "w = \<lparr>uf_ptr = Some l', uf_vtable = Some ty, uf_is_inline = fits ty\<rparr>" "m l' = Some (ty, v)"
      "if fits ty then l' = Inline i else (\<exists>h. l' = Heap h)"
    using assms(1) unfolding uf_wrapper_ok_def by blast
  then have "(m(l := x)) l' = Some (ty, v)" using assms(2) by auto
  then show ?thesis using w unfolding uf_wrapper_ok_def by blast
qed (simp add: uf_wrapper_ok_def)

lemma uf_abs_cong:
  "um_fun t i = um_fun s i \<Longrightarrow> (\<And>l. uf_ptr (um_fun s i) = Some l \<Longrightarrow> um_memory t l = um_memory s l) \<Longrightarrow> uf_abs t i = uf_abs s i"
  unfolding uf_abs_def object_at_def by (cases "uf_ptr (um_fun s i)") (simp_all split: option.split)

lemma uf_put_simps [simp]:
  "um_memory (uf_put i w m s) = m" "um_fun (uf_put i w m s) = (um_fun s)(i := w)" "um_heap (uf_put i w m s) = um_heap s"
  by (simp_all add: uf_put_def)

lemma uf_empty_simps [simp]: "uf_ptr uf_empty = None" "uf_vtable uf_empty = None"
  by (simp_all add: uf_empty_def)

text \<open>Giving up what a wrapper owns, and giving an empty wrapper an object.\<close>

lemma uf_drop:
  assumes inv: "uf_inv fits s" and l: "uf_ptr (um_fun s i) = Some l"
  shows "uf_inv fits (uf_put i uf_empty ((um_memory s)(l := None)) s)" (is "uf_inv fits ?t")
    "uf_abs (uf_put i uf_empty ((um_memory s)(l := None)) s) = (uf_abs s)(i := None)"
proof -
  have other: "j \<noteq> i \<Longrightarrow> uf_ptr (um_fun s j) \<noteq> Some l" for j using uf_invD(2) [OF inv l] by auto
  show "uf_inv fits ?t" unfolding uf_inv_def
  proof (intro conjI allI impI)
    fix j
    show "uf_wrapper_ok fits (um_memory ?t) j (um_fun ?t j)"
    proof (cases "j = i")
      case False
      then show ?thesis using uf_wrapper_ok_other [OF uf_invD(1) [OF inv, of j] other [OF False]] by simp
    qed (simp add: uf_wrapper_ok_def)
  next
    fix j k l' assume "uf_ptr (um_fun ?t j) = Some l'" "uf_ptr (um_fun ?t k) = Some l'"
    then show "j = k" using uf_invD(2) [OF inv, of j l' k] by (auto split: if_splits)
  next
    fix l' assume l': "um_memory ?t l' \<noteq> None"
    then obtain j where j: "uf_ptr (um_fun s j) = Some l'" using uf_invD(3) [OF inv, of l'] by (auto split: if_splits)
    then have "j \<noteq> i" using l l' by auto
    then show "\<exists>j. uf_ptr (um_fun ?t j) = Some l'" using j by (intro exI [of _ j]) simp
  next
    fix h assume "um_heap ?t \<le> h"
    then show "um_memory ?t (Heap h) = None" using uf_invD(4) [OF inv] by simp
  qed
  show "uf_abs ?t = (uf_abs s)(i := None)"
  proof
    fix j
    show "uf_abs ?t j = ((uf_abs s)(i := None)) j"
    proof (cases "j = i")
      case True
      then show ?thesis by (simp add: uf_abs_def)
    next
      case False
      have "uf_abs ?t j = uf_abs s j" by (rule uf_abs_cong) (use False other [OF False] in auto)
      then show ?thesis using False by simp
    qed
  qed
qed

lemma uf_place:
  fixes v :: 'v
  assumes inv: "uf_inv fits s" and e: "um_fun s i = uf_empty" and free: "um_memory s l = None"
    and l: "if fits ty then l = Inline i else (\<exists>h < hp. l = Heap h)" and hp: "um_heap s \<le> hp"
  defines "t \<equiv> (uf_put i \<lparr>uf_ptr = Some l, uf_vtable = Some ty, uf_is_inline = fits ty\<rparr> ((um_memory s)(l \<mapsto> (ty, v))) s)\<lparr>um_heap := hp\<rparr>"
  shows "uf_inv fits t" "uf_abs t = (uf_abs s)(i \<mapsto> (ty, v))"
proof -
  have other: "uf_ptr (um_fun s j) \<noteq> Some l" for j
    using uf_wrapper_cases [OF inv, of j] free by (metis option.distinct(1) option.inject uf_empty_simps(1) uf_wrapper.select_convs(1))
  have tm: "um_memory t = (um_memory s)(l \<mapsto> (ty, v))" "um_heap t = hp"
      "um_fun t = (um_fun s)(i := \<lparr>uf_ptr = Some l, uf_vtable = Some ty, uf_is_inline = fits ty\<rparr>)"
    by (simp_all add: t_def)
  show "uf_inv fits t" unfolding uf_inv_def
  proof (intro conjI allI impI)
    fix j
    show "uf_wrapper_ok fits (um_memory t) j (um_fun t j)"
    proof (cases "j = i")
      case True
      then show ?thesis using l by (auto simp: uf_wrapper_ok_def tm split: if_splits)
    next
      case False
      then show ?thesis using uf_wrapper_ok_other [OF uf_invD(1) [OF inv, of j] other [of j]] by (simp add: tm)
    qed
  next
    fix j k l' assume "uf_ptr (um_fun t j) = Some l'" "uf_ptr (um_fun t k) = Some l'"
    then show "j = k" using uf_invD(2) [OF inv, of j l' k] other by (auto simp: tm split: if_splits)
  next
    fix l' assume l': "um_memory t l' \<noteq> None"
    show "\<exists>j. uf_ptr (um_fun t j) = Some l'"
    proof (cases "l' = l")
      case True
      then show ?thesis by (intro exI [of _ i]) (simp add: tm)
    next
      case False
      then obtain j where j: "uf_ptr (um_fun s j) = Some l'" using uf_invD(3) [OF inv, of l'] l' by (auto simp: tm)
      then have "j \<noteq> i" using e by auto
      then show ?thesis using j by (intro exI [of _ j]) (simp add: tm)
    qed
  next
    fix h assume "um_heap t \<le> h"
    then show "um_memory t (Heap h) = None" using uf_invD(4) [OF inv, of h] hp l by (auto simp: tm split: if_splits)
  qed
  show "uf_abs t = (uf_abs s)(i \<mapsto> (ty, v))"
  proof
    fix j
    show "uf_abs t j = ((uf_abs s)(i \<mapsto> (ty, v))) j"
    proof (cases "j = i")
      case True
      then show ?thesis by (simp add: uf_abs_def tm object_at_def)
    next
      case False
      have "uf_abs t j = uf_abs s j" by (rule uf_abs_cong) (use False other [of j] in \<open>auto simp: tm\<close>)
      then show ?thesis using False by simp
    qed
  qed
qed

lemma uf_reset_ok:
  assumes inv: "uf_inv fits s"
  shows "\<exists>t. uf_reset i s = Some t \<and> uf_inv fits t \<and> uf_abs t = (uf_abs s)(i := None) \<and> um_fun t i = uf_empty \<and>
    (\<forall>j. j \<noteq> i \<longrightarrow> um_fun t j = um_fun s j)"
proof (cases rule: uf_wrapper_cases [OF inv, of i])
  case 1
  then have "uf_abs s i = None" by (simp add: uf_abs_def)
  then have "(uf_abs s)(i := None) = uf_abs s" by auto
  then show ?thesis using 1 inv by (simp add: uf_reset_def)
next
  case (2 l ty v)
  then have p: "uf_ptr (um_fun s i) = Some l" by simp
  have "uf_reset i s = Some (uf_put i uf_empty ((um_memory s)(l := None)) s)"
    using 2 by (simp add: uf_reset_def destroy_at_def)
  then show ?thesis using uf_drop [OF inv p] by auto
qed

lemma uf_inline_free:
  assumes inv: "uf_inv fits s" and e: "um_fun s i = uf_empty"
  shows "um_memory s (Inline i) = None"
proof (rule ccontr)
  assume "um_memory s (Inline i) \<noteq> None"
  then obtain j where j: "uf_ptr (um_fun s j) = Some (Inline i)" using uf_invD(3) [OF inv] by blast
  then have "j = i" using uf_wrapper_cases [OF inv, of j]
    by (metis loc.distinct(1) loc.inject(1) option.distinct(1) option.inject uf_empty_simps(1) uf_wrapper.select_convs(1))
  then show False using e j by simp
qed

lemma uf_make_ok:
  assumes inv: "uf_inv fits s" and e: "um_fun s i = uf_empty"
  shows "\<exists>t. uf_make fits i ty v is_null s = Some t \<and> uf_inv fits t \<and>
    uf_abs t = (if is_null then uf_abs s else (uf_abs s)(i \<mapsto> (ty, v)))"
proof (cases "is_null")
  case True
  then show ?thesis using inv by (simp add: uf_make_def)
next
  case False
  have free: "um_memory s (Inline i) = None" using inv e by (rule uf_inline_free)
  have heap: "um_memory s (Heap (um_heap s)) = None" using uf_invD(4) [OF inv] by simp
  show ?thesis
  proof (cases "fits ty")
    case True
    have eq: "s\<lparr>um_heap := um_heap s\<rparr> = s" by simp
    from uf_place [OF inv e free, of ty "um_heap s" v] True False free show ?thesis
      by (simp add: uf_make_def construct_at_def uf_put_def)
  next
    case f: False
    from uf_place [OF inv e heap, of ty "um_heap s + 1" v] f False heap show ?thesis
      by (simp add: uf_make_def construct_at_def)
  qed
qed

lemma uf_move_from_ok:
  assumes inv: "uf_inv fits s" and e: "um_fun s i = uf_empty" and ij: "i \<noteq> j"
  shows "\<exists>t. uf_move_from i j s = Some t \<and> uf_inv fits t \<and> uf_abs t = (uf_abs s)(i := uf_abs s j, j := None)"
proof (cases rule: uf_wrapper_cases [OF inv, of j])
  case 1
  then have n: "uf_abs s j = None" "uf_abs s i = None" using e by (simp_all add: uf_abs_def)
  have "uf_put i uf_empty (um_memory s) s = s" using e by (simp add: uf_put_def fun_upd_idem)
  moreover have "(uf_abs s)(i := uf_abs s j, j := None) = uf_abs s" using n by auto
  ultimately show ?thesis using 1 inv by (simp add: uf_move_from_def)
next
  case (2 l ty v)
  let ?s1 = "uf_put j uf_empty ((um_memory s)(l := None)) s"
  let ?w = "\<lambda>l. \<lparr>uf_ptr = Some l, uf_vtable = Some ty, uf_is_inline = fits ty\<rparr>"
  have p: "uf_ptr (um_fun s j) = Some l" using 2 by simp
  note d = uf_drop [OF inv p]
  have e1: "um_fun ?s1 i = uf_empty" using e ij by simp
  have a: "uf_abs s j = Some (ty, v)" using 2 by (simp add: uf_abs_def object_at_def)
  have upd: "((uf_abs s)(j := None))(i \<mapsto> (ty, v)) = (uf_abs s)(i := uf_abs s j, j := None)" using a ij by auto
  define l' where "l' = (if fits ty then Inline i else l)"
  have free: "um_memory ?s1 l' = None"
  proof (cases "fits ty")
    case True
    have "um_memory s (Inline i) = None" using inv e by (rule uf_inline_free)
    then show ?thesis using True by (simp add: l'_def)
  qed (simp add: l'_def)
  have loc: "if fits ty then l' = Inline i else (\<exists>h < um_heap s. l' = Heap h)"
    using 2(2,3) uf_invD(4) [OF inv] by (auto simp: l'_def not_le [symmetric] split: if_splits)
  note pl = uf_place [OF d(1) e1 free loc, of v]
  have "uf_move_from i j s = Some (uf_put i (?w l') ((um_memory ?s1)(l' \<mapsto> (ty, v))) ?s1)"
  proof (cases "fits ty")
    case True
    then have l: "l = Inline j" using 2(3) by simp
    have "um_memory s (Inline i) = None" using free True l ij by (simp add: l'_def)
    then show ?thesis using 2(1,2) True l ij
      by (simp add: uf_move_from_def move_inline_def construct_at_def destroy_at_def object_at_def l'_def uf_put_def fun_upd_twist)
  next
    case False
    then show ?thesis using 2(1,2) ij
      by (simp add: uf_move_from_def l'_def uf_put_def fun_upd_twist fun_upd_idem)
  qed
  moreover have "uf_inv fits (uf_put i (?w l') ((um_memory ?s1)(l' \<mapsto> (ty, v))) ?s1)" 
    using pl(1) by (simp add: uf_put_def)
  moreover have "uf_abs (uf_put i (?w l') ((um_memory ?s1)(l' \<mapsto> (ty, v))) ?s1) = (uf_abs s)(i := uf_abs s j, j := None)"
    using pl(2) d(2) upd by (simp add: uf_put_def)
  ultimately show ?thesis by blast
qed

section \<open>any_executor_storage: ownership\<close>

definition es_owners :: "(nat \<Rightarrow> es_wrapper) \<Rightarrow> nat \<Rightarrow> nat set" where
  "es_owners f h = {i. es_shared (f i) = Some h}"

definition es_inline_wrapper :: "nat \<Rightarrow> nat \<Rightarrow> es_wrapper" where
  "es_inline_wrapper i ty = \<lparr>es_ptr = Some (Inline i), es_vtable = Some ty, es_is_inline = True, es_shared = None\<rparr>"

definition es_heap_wrapper :: "nat \<Rightarrow> nat \<Rightarrow> es_wrapper" where
  "es_heap_wrapper h ty = \<lparr>es_ptr = Some (Heap h), es_vtable = Some ty, es_is_inline = False, es_shared = Some h\<rparr>"

definition es_wrapper_ok :: "(nat \<Rightarrow> bool) \<Rightarrow> 'v memory \<Rightarrow> nat \<Rightarrow> es_wrapper \<Rightarrow> bool" where
  "es_wrapper_ok fits m i w \<longleftrightarrow> w = es_empty \<or>
     (\<exists>ty v. fits ty \<and> w = es_inline_wrapper i ty \<and> m (Inline i) = Some (ty, v)) \<or>
     (\<exists>h ty v. \<not> fits ty \<and> w = es_heap_wrapper h ty \<and> m (Heap h) = Some (ty, v))"

definition es_inv :: "(nat \<Rightarrow> bool) \<Rightarrow> 'v es_state \<Rightarrow> bool" where
  "es_inv fits s \<longleftrightarrow> (\<forall>i. es_wrapper_ok fits (em_memory s) i (em_ex s i)) \<and>
     (\<forall>i. em_memory s (Inline i) \<noteq> None \<longrightarrow> es_ptr (em_ex s i) = Some (Inline i)) \<and>
     (\<forall>h. finite (es_owners (em_ex s) h) \<and> em_count s h = card (es_owners (em_ex s) h) \<and>
          (em_memory s (Heap h) \<noteq> None \<longleftrightarrow> 0 < em_count s h)) \<and>
     (\<forall>h. em_heap s \<le> h \<longrightarrow> em_memory s (Heap h) = None)"

lemma es_wrapper_simps [simp]:
  "es_ptr es_empty = None" "es_shared es_empty = None" "es_vtable es_empty = None"
  "es_ptr (es_inline_wrapper i ty) = Some (Inline i)" "es_shared (es_inline_wrapper i ty) = None"
  "es_vtable (es_inline_wrapper i ty) = Some ty" "es_is_inline (es_inline_wrapper i ty)"
  "es_ptr (es_heap_wrapper h ty) = Some (Heap h)" "es_shared (es_heap_wrapper h ty) = Some h"
  "es_vtable (es_heap_wrapper h ty) = Some ty" "\<not> es_is_inline (es_heap_wrapper h ty)"
  by (simp_all add: es_empty_def es_inline_wrapper_def es_heap_wrapper_def)

lemma es_put_simps [simp]:
  "em_memory (es_put i w s) = em_memory s" "em_heap (es_put i w s) = em_heap s" "em_count (es_put i w s) = em_count s"
  "em_ex (es_put i w s) = (em_ex s)(i := w)"
  by (simp_all add: es_put_def)

lemma es_invD:
  assumes "es_inv fits s"
  shows "es_wrapper_ok fits (em_memory s) i (em_ex s i)" "em_memory s (Inline i) = Some x \<Longrightarrow> es_ptr (em_ex s i) = Some (Inline i)"
    "finite (es_owners (em_ex s) h)" "em_count s h = card (es_owners (em_ex s) h)" "em_memory s (Heap h) \<noteq> None \<longleftrightarrow> 0 < em_count s h"
    "em_heap s \<le> h \<Longrightarrow> em_memory s (Heap h) = None"
  using assms unfolding es_inv_def by blast+

lemma es_wrapper_cases:
  assumes "es_inv fits s"
  obtains "em_ex s i = es_empty"
  | ty v where "fits ty" "em_ex s i = es_inline_wrapper i ty" "em_memory s (Inline i) = Some (ty, v)"
  | h ty v where "\<not> fits ty" "em_ex s i = es_heap_wrapper h ty" "em_memory s (Heap h) = Some (ty, v)"
  using es_invD(1) [OF assms, of i] unfolding es_wrapper_ok_def by blast

lemma es_wrapper_ok_cong:
  assumes "es_wrapper_ok fits m i w" "\<And>l. es_ptr w = Some l \<Longrightarrow> m' l = m l"
  shows "es_wrapper_ok fits m' i w"
  using assms(1) unfolding es_wrapper_ok_def
proof (elim disjE exE conjE)
  fix ty v assume "fits ty" "w = es_inline_wrapper i ty" "m (Inline i) = Some (ty, v)"
  then show "w = es_empty \<or> (\<exists>ty v. fits ty \<and> w = es_inline_wrapper i ty \<and> m' (Inline i) = Some (ty, v)) \<or>
      (\<exists>h ty v. \<not> fits ty \<and> w = es_heap_wrapper h ty \<and> m' (Heap h) = Some (ty, v))"
    using assms(2) [of "Inline i"] by auto
next
  fix h ty v assume "\<not> fits ty" "w = es_heap_wrapper h ty" "m (Heap h) = Some (ty, v)"
  then show "w = es_empty \<or> (\<exists>ty v. fits ty \<and> w = es_inline_wrapper i ty \<and> m' (Inline i) = Some (ty, v)) \<or>
      (\<exists>h ty v. \<not> fits ty \<and> w = es_heap_wrapper h ty \<and> m' (Heap h) = Some (ty, v))"
    using assms(2) [of "Heap h"] es_wrapper_simps(8) by metis
qed simp

lemma es_object_cong:
  "em_ex t i = em_ex s i \<Longrightarrow> (\<And>l. es_ptr (em_ex s i) = Some l \<Longrightarrow> em_memory t l = em_memory s l) \<Longrightarrow> es_object i t = es_object i s"
  unfolding es_object_def object_at_def by (cases "es_ptr (em_ex s i)") (simp_all split: option.split)

text \<open>Wrapper \<open>i\<close> changes to \<open>w\<close>, with the memory and the counts that go with it.\<close>

lemma es_update:
  assumes inv: "es_inv fits s" and ex: "em_ex t = (em_ex s)(i := w)" and w: "es_wrapper_ok fits (em_memory t) i w"
    and keep: "\<And>j l. j \<noteq> i \<Longrightarrow> es_ptr (em_ex s j) = Some l \<Longrightarrow> em_memory t l = em_memory s l"
    and inl: "\<And>j. em_memory t (Inline j) \<noteq> None \<Longrightarrow> if j = i then es_ptr w = Some (Inline i) else em_memory s (Inline j) \<noteq> None"
    and count: "\<And>h. em_count t h + (if es_shared (em_ex s i) = Some h then 1 else 0) = em_count s h + (if es_shared w = Some h then 1 else 0)"
    and live: "\<And>h. em_memory t (Heap h) \<noteq> None \<longleftrightarrow> 0 < em_count t h" and heap: "\<And>h. em_heap t \<le> h \<Longrightarrow> em_memory t (Heap h) = None"
  shows "es_inv fits t" "j \<noteq> i \<Longrightarrow> es_object j t = es_object j s"
proof -
  have own: "finite (es_owners (em_ex t) h)" "em_count t h = card (es_owners (em_ex t) h)" for h
    using card_update [of "\<lambda>w. es_shared w = Some h" "em_ex s" i w] es_invD(3,4) [OF inv, of h] count [of h]
    unfolding es_owners_def ex by auto
  show "es_inv fits t" unfolding es_inv_def
  proof (intro conjI allI impI)
    fix j show "es_wrapper_ok fits (em_memory t) j (em_ex t j)"
    proof (cases "j = i")
      case False
      then show ?thesis using es_wrapper_ok_cong [OF es_invD(1) [OF inv, of j]] keep [OF False] by (simp add: ex)
    qed (simp add: ex w)
  next
    fix j assume "em_memory t (Inline j) \<noteq> None"
    then show "es_ptr (em_ex t j) = Some (Inline j)" using inl [of j] es_invD(2) [OF inv, of j] by (auto simp: ex split: if_splits)
  qed (use own live heap in auto)
  show "es_object j t = es_object j s" if "j \<noteq> i"
    by (rule es_object_cong) (use that keep ex in auto)
qed

lemma es_owner_counted:
  assumes inv: "es_inv fits s" and i: "es_shared (em_ex s i) = Some h"
  shows "0 < em_count s h" "j \<noteq> i \<Longrightarrow> es_shared (em_ex s j) = Some h \<Longrightarrow> 1 < em_count s h"
proof -
  have f: "finite (es_owners (em_ex s) h)" "em_count s h = card (es_owners (em_ex s) h)" "i \<in> es_owners (em_ex s) h"
    using es_invD(3,4) [OF inv] i by (simp_all add: es_owners_def)
  then show "0 < em_count s h" by (auto simp: card_gt_0_iff)
  show "1 < em_count s h" if "j \<noteq> i" "es_shared (em_ex s j) = Some h"
    using card_mono [OF f(1), of "{i, j}"] f(2,3) that by (simp add: es_owners_def)
qed

lemma es_ptr_facts:
  assumes inv: "es_inv fits s"
  shows "es_ptr (em_ex s j) = Some (Heap h) \<Longrightarrow> es_shared (em_ex s j) = Some h" "es_ptr (em_ex s j) = Some (Inline i) \<Longrightarrow> j = i"
  by (cases rule: es_wrapper_cases [OF inv, of j]; auto)+

lemma es_inline_free:
  assumes inv: "es_inv fits s" and e: "es_ptr (em_ex s i) \<noteq> Some (Inline i)" shows "em_memory s (Inline i) = None"
proof (rule ccontr)
  assume "em_memory s (Inline i) \<noteq> None"
  then show False using es_invD(2) [OF inv, of i] e by auto
qed

lemma es_reset_ok:
  assumes inv: "es_inv fits s"
  shows "\<exists>t. es_reset i s = Some t \<and> es_inv fits t \<and> em_ex t i = es_empty \<and> (\<forall>j. j \<noteq> i \<longrightarrow> es_object j t = es_object j s \<and> em_ex t j = em_ex s j)"
proof (cases rule: es_wrapper_cases [OF inv, of i])
  case 1
  then show ?thesis using inv by (simp add: es_reset_def)
next
  case (2 ty v)
  let ?t = "es_put i es_empty (s\<lparr>em_memory := (em_memory s)(Inline i := None)\<rparr>)"
  have "es_reset i s = Some ?t" using 2 by (simp add: es_reset_def destroy_at_def es_empty_def)
  moreover have ex: "em_ex ?t = (em_ex s)(i := es_empty)" by simp
  have "es_inv fits ?t" "\<And>j. j \<noteq> i \<Longrightarrow> es_object j ?t = es_object j s"
    by (rule es_update [OF inv ex];
        use 2 es_invD(5,6) [OF inv] es_ptr_facts(2) [OF inv] in \<open>auto simp: es_wrapper_ok_def\<close>)+
  ultimately show ?thesis by auto
next
  case (3 h ty v)
  have sh: "es_shared (em_ex s i) = Some h" using 3 by simp
  let ?m = "if em_count s h \<le> 1 then (em_memory s)(Heap h := None) else em_memory s"
  let ?t = "es_put i es_empty (s\<lparr>em_memory := ?m, em_count := (em_count s)(h := em_count s h - 1)\<rparr>)"
  have "es_reset i s = Some ?t" using 3 by (simp add: es_reset_def shared_reset_def destroy_at_def)
  moreover have ex: "em_ex ?t = (em_ex s)(i := es_empty)" by simp
  have keep: "em_memory ?t l = em_memory s l" if "j \<noteq> i" "es_ptr (em_ex s j) = Some l" for j l
    using es_owner_counted(2) [OF inv sh that(1)] es_ptr_facts(1) [OF inv, of j h] that by auto
  have "es_inv fits ?t" "\<And>j. j \<noteq> i \<Longrightarrow> es_object j ?t = es_object j s"
    by (rule es_update [OF inv ex]; use 3 es_owner_counted(1) [OF inv sh] es_invD(5,6) [OF inv] keep es_inline_free [OF inv, of i] in \<open>auto simp: es_wrapper_ok_def split: if_splits\<close>)+
  ultimately show ?thesis by auto
qed

lemma es_place_inline:
  fixes v :: 'v
  assumes inv: "es_inv fits s" and e: "em_ex s i = es_empty" and ty: "fits ty"
  defines "t \<equiv> es_put i (es_inline_wrapper i ty) (s\<lparr>em_memory := (em_memory s)(Inline i \<mapsto> (ty, v))\<rparr>)"
  shows "es_inv fits t" "es_object i t = Some (ty, v)" "j \<noteq> i \<Longrightarrow> es_object j t = es_object j s"
proof -
  have ex: "em_ex t = (em_ex s)(i := es_inline_wrapper i ty)" by (simp add: t_def)
  show "es_inv fits t" "j \<noteq> i \<Longrightarrow> es_object j t = es_object j s"
    by (rule es_update [OF inv ex];
        use e ty es_invD(5,6) [OF inv] es_ptr_facts(2) [OF inv] in \<open>auto simp: es_wrapper_ok_def t_def\<close>)+
  show "es_object i t = Some (ty, v)" by (simp add: es_object_def object_at_def t_def)
qed

lemma es_make_ok:
  assumes inv: "es_inv fits s" and e: "em_ex s i = es_empty"
  shows "\<exists>t. es_make fits i ty v s = Some t \<and> es_inv fits t \<and> es_object i t = Some (ty, v) \<and> (\<forall>j. j \<noteq> i \<longrightarrow> es_object j t = es_object j s)"
proof (cases "fits ty")
  case True
  then have "es_make fits i ty v s = Some (es_put i (es_inline_wrapper i ty) (s\<lparr>em_memory := (em_memory s)(Inline i \<mapsto> (ty, v))\<rparr>))"
    using es_inline_free [OF inv, of i] e by (simp add: es_make_def construct_at_def es_inline_wrapper_def)
  then show ?thesis using es_place_inline [OF inv e True] by auto
next
  case False
  let ?h = "em_heap s"
  let ?t = "es_put i (es_heap_wrapper ?h ty)
      (s\<lparr>em_memory := (em_memory s)(Heap ?h \<mapsto> (ty, v)), em_count := (em_count s)(?h := 1), em_heap := ?h + 1\<rparr>)"
  have free: "em_memory s (Heap ?h) = None" "em_count s ?h = 0" using es_invD(5,6) [OF inv, of ?h] by auto
  have mk: "es_make fits i ty v s = Some ?t" using False free by (simp add: es_make_def construct_at_def es_heap_wrapper_def)
  have ex: "em_ex ?t = (em_ex s)(i := es_heap_wrapper ?h ty)" by simp
  have keep: "em_memory ?t l = em_memory s l" if "es_ptr (em_ex s j) = Some l" for j l
    using that es_wrapper_cases [OF inv, of j] free(1) by (cases rule: es_wrapper_cases [OF inv, of j]) auto
  have "es_inv fits ?t" "\<And>j. j \<noteq> i \<Longrightarrow> es_object j ?t = es_object j s"
    by (rule es_update [OF inv ex]; use e False free es_invD(5,6) [OF inv] keep es_inline_free [OF inv, of i] in \<open>auto simp: es_wrapper_ok_def\<close>)+
  moreover have "es_object i ?t = Some (ty, v)" by (simp add: es_object_def object_at_def)
  ultimately show ?thesis using mk by auto
qed

lemma es_copy_from_ok:
  assumes inv: "es_inv fits s" and e: "em_ex s i = es_empty" and ij: "i \<noteq> j"
  shows "\<exists>t. es_copy_from i j s = Some t \<and> es_inv fits t \<and> es_object i t = es_object j s \<and>
    (\<forall>k. k \<noteq> i \<longrightarrow> es_object k t = es_object k s \<and> em_ex t k = em_ex s k)"
proof (cases rule: es_wrapper_cases [OF inv, of j])
  case 1
  have "es_put i \<lparr>es_ptr = None, es_vtable = None, es_is_inline = False, es_shared = es_shared (em_ex s i)\<rparr> s = s"
    using e by (simp add: es_put_def es_empty_def fun_upd_idem)
  then show ?thesis using 1 e inv by (simp add: es_copy_from_def es_object_def)
next
  case (2 ty v)
  let ?t = "es_put i (es_inline_wrapper i ty) (s\<lparr>em_memory := (em_memory s)(Inline i \<mapsto> (ty, v))\<rparr>)"
  have "es_copy_from i j s = Some ?t"
    using 2 e es_inline_free [OF inv, of i] by (simp add: es_copy_from_def copy_inline_def object_at_def construct_at_def es_inline_wrapper_def)
  moreover have "es_object j s = Some (ty, v)" using 2 by (simp add: es_object_def object_at_def)
  ultimately show ?thesis using es_place_inline [OF inv e 2(1), where v = v] by auto
next
  case (3 h ty v)
  let ?t = "es_put i (es_heap_wrapper h ty) (s\<lparr>em_count := (em_count s)(h := em_count s h + 1)\<rparr>)"
  have cp: "es_copy_from i j s = Some ?t" using 3 by (simp add: es_copy_from_def es_heap_wrapper_def)
  have ex: "em_ex ?t = (em_ex s)(i := es_heap_wrapper h ty)" by simp
  have ok: "es_wrapper_ok fits (em_memory s) i (es_heap_wrapper h ty)" using 3 unfolding es_wrapper_ok_def by blast
  have "es_inv fits ?t" "\<And>k. k \<noteq> i \<Longrightarrow> es_object k ?t = es_object k s"
    by (rule es_update [OF inv ex]; use ok e 3 es_invD(5,6) [OF inv] es_inline_free [OF inv, of i] in auto)+
  moreover have "es_object i ?t = es_object j s" using 3 by (simp add: es_object_def object_at_def)
  ultimately show ?thesis using cp by auto
qed

text \<open>Moving is copying and then giving up the source.\<close>

lemma es_move_from_copy:
  assumes inv: "es_inv fits s" and e: "em_ex s i = es_empty" and ij: "i \<noteq> j"
  shows "es_move_from i j s = Option.bind (es_copy_from i j s) (es_reset j)"
proof (cases rule: es_wrapper_cases [OF inv, of j])
  case 1
  then show ?thesis using ij by (simp add: es_move_from_def es_copy_from_def es_reset_def)
next
  case (2 ty v)
  then show ?thesis using ij e es_inline_free [OF inv, of i]
    by (simp add: es_move_from_def es_copy_from_def es_reset_def move_inline_def copy_inline_def object_at_def construct_at_def
        destroy_at_def es_put_def fun_upd_twist es_inline_wrapper_def)
next
  case (3 h ty v)
  have "0 < em_count s h" using es_owner_counted(1) [OF inv, of j h] 3 by simp
  then show ?thesis using 3 ij e
    by (simp add: es_move_from_def es_copy_from_def es_reset_def shared_reset_def es_put_def fun_upd_twist)
qed

lemma es_move_from_ok:
  assumes inv: "es_inv fits s" and e: "em_ex s i = es_empty" and ij: "i \<noteq> j"
  shows "\<exists>t. es_move_from i j s = Some t \<and> es_inv fits t \<and> es_object i t = es_object j s \<and> es_object j t = None \<and>
    (\<forall>k. k \<noteq> i \<longrightarrow> k \<noteq> j \<longrightarrow> es_object k t = es_object k s)"
proof -
  obtain u where u: "es_copy_from i j s = Some u" "es_inv fits u" "es_object i u = es_object j s"
      "\<forall>k. k \<noteq> i \<longrightarrow> es_object k u = es_object k s \<and> em_ex u k = em_ex s k"
    using es_copy_from_ok [OF assms] by blast
  obtain t where t: "es_reset j u = Some t" "es_inv fits t" "em_ex t j = es_empty"
      "\<forall>k. k \<noteq> j \<longrightarrow> es_object k t = es_object k u \<and> em_ex t k = em_ex u k"
    using es_reset_ok [OF u(2)] by blast
  have "es_object j t = None" using t(3) by (simp add: es_object_def)
  then show ?thesis using u t ij es_move_from_copy [OF assms] by (intro exI [of _ t]) simp
qed

lemma es_equal_ok:
  assumes inv: "es_inv fits s"
  shows "es_equal i j s = Some (es_object i s = es_object j s)"
proof -
  have o: "es_ptr (em_ex s k) = None \<and> es_object k s = None \<or>
      es_ptr (em_ex s k) \<noteq> None \<and> (\<exists>ty v. es_vtable (em_ex s k) = Some ty \<and> es_object k s = Some (ty, v))" for k
    by (cases rule: es_wrapper_cases [OF inv, of k]) (simp_all add: es_object_def object_at_def)
  show ?thesis using o [of i] o [of j] by (auto simp: es_equal_def)
qed

section \<open>Programs\<close>

text \<open>
  What a program does with the wrappers. A number is used again for a new wrapper after the
  previous one was destroyed; a move constructor is an assignment to a new wrapper.
\<close>

datatype 'v uf_op = U_new nat nat 'v bool | U_assign nat nat | U_reset nat

fun uf_do :: "(nat \<Rightarrow> bool) \<Rightarrow> 'v uf_op \<Rightarrow> 'v uf_state \<Rightarrow> 'v uf_state option" where
  "uf_do fits (U_new i ty v is_null) s = Option.bind (uf_reset i s) (uf_make fits i ty v is_null)"
| "uf_do fits (U_assign i j) s = uf_assign i j s"
| "uf_do fits (U_reset i) s = uf_reset i s"

text \<open>The specification: a move-only optional value.\<close>

fun uf_spec :: "'v uf_op \<Rightarrow> (nat \<rightharpoonup> nat \<times> 'v) \<Rightarrow> (nat \<rightharpoonup> nat \<times> 'v)" where
  "uf_spec (U_new i ty v is_null) a = a(i := if is_null then None else Some (ty, v))"
| "uf_spec (U_assign i j) a = (if i = j then a else a(i := a j, j := None))"
| "uf_spec (U_reset i) a = a(i := None)"

datatype 'v es_op = E_new nat nat 'v | E_copy nat nat | E_move nat nat | E_reset nat

fun es_do :: "(nat \<Rightarrow> bool) \<Rightarrow> 'v es_op \<Rightarrow> 'v es_state \<Rightarrow> 'v es_state option" where
  "es_do fits (E_new i ty v) s = Option.bind (es_reset i s) (es_make fits i ty v)"
| "es_do fits (E_copy i j) s = es_copy_assign i j s"
| "es_do fits (E_move i j) s = es_move_assign i j s"
| "es_do fits (E_reset i) s = es_reset i s"

fun es_spec :: "'v es_op \<Rightarrow> (nat \<rightharpoonup> nat \<times> 'v) \<Rightarrow> (nat \<rightharpoonup> nat \<times> 'v)" where
  "es_spec (E_new i ty v) a = a(i \<mapsto> (ty, v))"
| "es_spec (E_copy i j) a = a(i := a j)"
| "es_spec (E_move i j) a = (if i = j then a else a(i := a j, j := None))"
| "es_spec (E_reset i) a = a(i := None)"

lemma uf_do_ok:
  assumes inv: "uf_inv fits s"
  shows "\<exists>t. uf_do fits x s = Some t \<and> uf_inv fits t \<and> uf_abs t = uf_spec x (uf_abs s)"
proof (cases x)
  case (U_new i ty v n)
  obtain u where u: "uf_reset i s = Some u" "uf_inv fits u" "uf_abs u = (uf_abs s)(i := None)" "um_fun u i = uf_empty"
    using uf_reset_ok [OF inv] by blast
  obtain t where "uf_make fits i ty v n u = Some t" "uf_inv fits t" "uf_abs t = (if n then uf_abs u else (uf_abs u)(i \<mapsto> (ty, v)))"
    using uf_make_ok [OF u(2,4)] by blast
  then show ?thesis using u U_new by (intro exI [of _ t]) simp
next
  case (U_assign i j)
  show ?thesis
  proof (cases "i = j")
    case False
    obtain u where u: "uf_reset i s = Some u" "uf_inv fits u" "uf_abs u = (uf_abs s)(i := None)" "um_fun u i = uf_empty"
      using uf_reset_ok [OF inv] by blast
    obtain t where "uf_move_from i j u = Some t" "uf_inv fits t" "uf_abs t = (uf_abs u)(i := uf_abs u j, j := None)"
      using uf_move_from_ok [OF u(2,4) False] by blast
    then show ?thesis using u U_assign False by (intro exI [of _ t]) (simp add: uf_assign_def)
  qed (use U_assign inv in \<open>simp add: uf_assign_def\<close>)
next
  case (U_reset i)
  then show ?thesis using uf_reset_ok [OF inv, of i] by auto
qed

lemma es_do_ok:
  assumes inv: "es_inv fits s"
  shows "\<exists>t. es_do fits x s = Some t \<and> es_inv fits t \<and> (\<lambda>k. es_object k t) = es_spec x (\<lambda>k. es_object k s)"
proof -
  have reset: "\<exists>u. es_reset i s = Some u \<and> es_inv fits u \<and> em_ex u i = es_empty \<and> es_object i u = None \<and>
      (\<forall>k. k \<noteq> i \<longrightarrow> es_object k u = es_object k s)" for i
    using es_reset_ok [OF inv, of i] by (auto simp: es_object_def)
  show ?thesis
  proof (cases x)
    case (E_new i ty v)
    obtain u where u: "es_reset i s = Some u" "es_inv fits u" "em_ex u i = es_empty" "\<forall>k. k \<noteq> i \<longrightarrow> es_object k u = es_object k s"
      using reset by blast
    obtain t where "es_make fits i ty v u = Some t" "es_inv fits t" "es_object i t = Some (ty, v)"
        "\<forall>k. k \<noteq> i \<longrightarrow> es_object k t = es_object k u"
      using es_make_ok [OF u(2,3)] by blast
    then show ?thesis using u E_new by (intro exI [of _ t]) (auto simp: fun_eq_iff)
  next
    case (E_copy i j)
    show ?thesis
    proof (cases "i = j")
      case False
      obtain u where u: "es_reset i s = Some u" "es_inv fits u" "em_ex u i = es_empty" "\<forall>k. k \<noteq> i \<longrightarrow> es_object k u = es_object k s"
        using reset by blast
      obtain t where "es_copy_from i j u = Some t" "es_inv fits t" "es_object i t = es_object j u"
          "\<forall>k. k \<noteq> i \<longrightarrow> es_object k t = es_object k u"
        using es_copy_from_ok [OF u(2,3) False] by blast
      then show ?thesis using u E_copy False by (intro exI [of _ t]) (auto simp: fun_eq_iff es_copy_assign_def)
    qed (use E_copy inv in \<open>simp add: es_copy_assign_def fun_eq_iff\<close>)
  next
    case (E_move i j)
    show ?thesis
    proof (cases "i = j")
      case False
      obtain u where u: "es_reset i s = Some u" "es_inv fits u" "em_ex u i = es_empty" "\<forall>k. k \<noteq> i \<longrightarrow> es_object k u = es_object k s"
        using reset by blast
      obtain t where "es_move_from i j u = Some t" "es_inv fits t" "es_object i t = es_object j u" "es_object j t = None"
          "\<forall>k. k \<noteq> i \<longrightarrow> k \<noteq> j \<longrightarrow> es_object k t = es_object k u"
        using es_move_from_ok [OF u(2,3) False] by blast
      then show ?thesis using u E_move False by (intro exI [of _ t]) (auto simp: fun_eq_iff es_move_assign_def)
    qed (use E_move inv in \<open>simp add: es_move_assign_def fun_eq_iff\<close>)
  next
    case (E_reset i)
    then show ?thesis using reset [of i] by (auto simp: fun_eq_iff)
  qed
qed

interpretation uf_ops: refined_ops "uf_do fits" uf_spec uf_abs "uf_inv fits" for fits
  by unfold_locales (rule uf_do_ok)

interpretation es_ops: refined_ops "es_do fits" es_spec "\<lambda>s k. es_object k s" "es_inv fits" for fits
  by unfold_locales (rule es_do_ok)

lemma uf_inv_init: "uf_inv fits uf_init" "uf_abs uf_init = Map.empty"
  by (auto simp: uf_inv_def uf_init_def uf_wrapper_ok_def uf_abs_def)

lemma es_inv_init: "es_inv fits es_init" "(\<lambda>k. es_object k es_init) = Map.empty"
  by (auto simp: es_inv_def es_init_def es_wrapper_ok_def es_owners_def es_object_def)

lemma uf_invoke_abs: "uf_invoke i s = map_option snd (uf_abs s i)"
  by (simp add: uf_invoke_def uf_abs_def option.map_comp o_def option.map_ident split: option.split)

section \<open>Property\<close>

text \<open>
  (C37) Whatever a program does with the type-erased wrappers, no object is constructed over a
  live one, destroyed twice or used after its end or at the wrong type, and none is leaked: every
  live object of a \<open>unique_function\<close> belongs to exactly one wrapper, and a shared executor
  lives exactly as long as it has owners. The wrappers behave as optional values that are moved
  (\<open>unique_function\<close>) or copied and moved (executors), wherever their objects are stored: a call
  reaches the callable put in, and executors compare equal exactly when they hold equal values
  of the same type.
\<close>

theorem erased_storage_refines:
  "(\<exists>t. run_ops (uf_do fits) xs uf_init = Some t \<and>
      (\<forall>i. uf_invoke i t = map_option snd (fold uf_spec xs Map.empty i)) \<and>
      (\<forall>l. um_memory t l \<noteq> None \<longleftrightarrow> (\<exists>!i. uf_ptr (um_fun t i) = Some l))) \<and>
   (\<exists>t. run_ops (es_do fits) ys es_init = Some t \<and>
      (\<forall>i. es_object i t = fold es_spec ys Map.empty i) \<and>
      (\<forall>h. em_memory t (Heap h) \<noteq> None \<longleftrightarrow> (\<exists>i. es_shared (em_ex t i) = Some h)) \<and>
      (\<forall>i j. es_equal i j t = Some (fold es_spec ys Map.empty i = fold es_spec ys Map.empty j)))"
proof
  obtain t where t: "run_ops (uf_do fits) xs uf_init = Some t" "uf_inv fits t" "uf_abs t = fold uf_spec xs Map.empty"
    using uf_ops.run_refines [OF uf_inv_init(1)] unfolding uf_inv_init(2) by blast
  have live: "um_memory t l \<noteq> None" if "uf_ptr (um_fun t i) = Some l" for i l
    using that by (cases rule: uf_wrapper_cases [OF t(2), of i]) auto
  have "um_memory t l \<noteq> None \<longleftrightarrow> (\<exists>!i. uf_ptr (um_fun t i) = Some l)" for l
    using uf_invD(2) [OF t(2)] uf_invD(3) [OF t(2), of l] live by blast
  then show "\<exists>t. run_ops (uf_do fits) xs uf_init = Some t \<and>
      (\<forall>i. uf_invoke i t = map_option snd (fold uf_spec xs Map.empty i)) \<and>
      (\<forall>l. um_memory t l \<noteq> None \<longleftrightarrow> (\<exists>!i. uf_ptr (um_fun t i) = Some l))"
    using t uf_invoke_abs [of _ t] by (intro exI [of _ t]) simp
next
  obtain t where t: "run_ops (es_do fits) ys es_init = Some t" "es_inv fits t" "(\<lambda>k. es_object k t) = fold es_spec ys Map.empty"
    using es_ops.run_refines [OF es_inv_init(1)] unfolding es_inv_init(2) by blast
  have obj: "es_object k t = fold es_spec ys Map.empty k" for k using t(3) by (rule fun_cong)
  have "em_memory t (Heap h) \<noteq> None \<longleftrightarrow> (\<exists>i. es_shared (em_ex t i) = Some h)" for h
    using es_invD(3-5) [OF t(2), of h] by (auto simp: es_owners_def card_gt_0_iff)
  then show "\<exists>t. run_ops (es_do fits) ys es_init = Some t \<and>
      (\<forall>i. es_object i t = fold es_spec ys Map.empty i) \<and>
      (\<forall>h. em_memory t (Heap h) \<noteq> None \<longleftrightarrow> (\<exists>i. es_shared (em_ex t i) = Some h)) \<and>
      (\<forall>i j. es_equal i j t = Some (fold es_spec ys Map.empty i = fold es_spec ys Map.empty j))"
    using t es_equal_ok [OF t(2)] obj by (intro exI [of _ t]) simp
qed

end
