(* ===== verification/SteadyTimer.thy ===== *)
theory SteadyTimer
  imports Errors
begin

text \<open>
  \<open>steady_timer.hpp\<close> and \<open>co_sleep.hpp\<close>: the state a timer shares with its waits, used from any
  thread.

  A handle is the number of its registration; registrations are made on the reactor thread, the
  other members are called anywhere. What happens under the mutex is one step; the cancelling of
  a handle that was taken out follows as another. The reactor's own timers are modelled
  elsewhere: here a registration fires at any time, also after it was cancelled (\<open>cancel\<close> from a
  foreign thread only posts the request), and \<open>tm_cancelled\<close> holds those the reactor has been told
  to abort.
\<close>

datatype timer_wait_pc =
    TW_idle
  | TW_snapshot int                \<comment> \<open>expiry read, before \<open>register_timer\<close>\<close>
  | TW_registered nat "nat option" \<comment> \<open>handle stored, before the old handle is cancelled\<close>
  | TW_waiting nat
  | TW_done "unit result"

record steady_timer =
  tm_expiry :: int
  tm_closed :: bool
  tm_handle :: "nat option"
  tm_next :: nat
  tm_when :: "nat \<Rightarrow> int"
  tm_cancelled :: "nat set"
  tm_wait :: "nat \<Rightarrow> timer_wait_pc"
  tm_task :: "nat \<Rightarrow> nat option"   \<comment> \<open>the handle a thread is about to cancel\<close>

definition timer_init :: "int \<Rightarrow> steady_timer" where
  "timer_init at = \<lparr>tm_expiry = at, tm_closed = False, tm_handle = None, tm_next = 0, tm_when = (\<lambda>_. 0), tm_cancelled = {},
     tm_wait = (\<lambda>_. TW_idle), tm_task = (\<lambda>_. None)\<rparr>"

definition tm_put :: "nat \<Rightarrow> timer_wait_pc \<Rightarrow> steady_timer \<Rightarrow> steady_timer" where
  "tm_put i p s = s\<lparr>tm_wait := (tm_wait s)(i := p)\<rparr>"

text \<open>\<open>take_handle\<close>, by thread \<open>j\<close>.\<close>

definition tm_take_handle :: "nat \<Rightarrow> steady_timer \<Rightarrow> steady_timer" where
  "tm_take_handle j s = s\<lparr>tm_handle := None, tm_task := (tm_task s)(j := tm_handle s)\<rparr>"

definition expires_at :: "nat \<Rightarrow> int \<Rightarrow> steady_timer \<Rightarrow> steady_timer" where
  "expires_at j at s = tm_take_handle j (s\<lparr>tm_expiry := at\<rparr>)"

definition expires_after :: "nat \<Rightarrow> int \<Rightarrow> int \<Rightarrow> steady_timer \<Rightarrow> steady_timer" where
  "expires_after j now d s = expires_at j (now + d) s"

definition timer_cancel :: "nat \<Rightarrow> steady_timer \<Rightarrow> steady_timer" where
  "timer_cancel j s = tm_take_handle j s"

definition timer_close :: "nat \<Rightarrow> steady_timer \<Rightarrow> steady_timer" where
  "timer_close j s = tm_take_handle j (s\<lparr>tm_closed := True\<rparr>)"

definition cancel_taken :: "nat \<Rightarrow> steady_timer \<Rightarrow> steady_timer" where
  "cancel_taken j s = s\<lparr>tm_cancelled := tm_cancelled s \<union> set_option (tm_task s j), tm_task := (tm_task s)(j := None)\<rparr>"

text \<open>\<open>async_wait\<close>: on the reactor thread, the snapshot and then \<open>register_timer\<close>.\<close>

definition wait_snapshot :: "nat \<Rightarrow> steady_timer \<Rightarrow> steady_timer" where
  "wait_snapshot i s = tm_put i (TW_snapshot (tm_expiry s)) s"

definition register_timer :: "nat \<Rightarrow> int \<Rightarrow> steady_timer \<Rightarrow> steady_timer" where
  "register_timer i expiry_snapshot s =
     (if tm_closed s then tm_put i (TW_done (fail_with operation_aborted)) s
      else (let h = tm_next s
            in tm_put i (TW_registered h (tm_handle s))
                 (s\<lparr>tm_next := h + 1, tm_when := (tm_when s)(h := expiry_snapshot), tm_handle := Some h\<rparr>)))"

definition cancel_old :: "nat \<Rightarrow> nat \<Rightarrow> nat option \<Rightarrow> steady_timer \<Rightarrow> steady_timer" where
  "cancel_old i h old s = tm_put i (TW_waiting h) (s\<lparr>tm_cancelled := tm_cancelled s \<union> set_option old\<rparr>)"

definition wait_ends :: "nat \<Rightarrow> unit result \<Rightarrow> steady_timer \<Rightarrow> steady_timer" where
  "wait_ends i r s = tm_put i (TW_done r) s"

inductive timer_step :: "steady_timer \<Rightarrow> steady_timer \<Rightarrow> bool" where
  snapshot: "tm_wait s i = TW_idle \<Longrightarrow> timer_step s (wait_snapshot i s)"
| register: "tm_wait s i = TW_snapshot e \<Longrightarrow> timer_step s (register_timer i e s)"
| registered: "tm_wait s i = TW_registered h old \<Longrightarrow> timer_step s (cancel_old i h old s)"
| fires: "tm_wait s i = TW_waiting h \<Longrightarrow> timer_step s (wait_ends i ok s)"
| aborts: "tm_wait s i = TW_waiting h \<Longrightarrow> h \<in> tm_cancelled s \<Longrightarrow> timer_step s (wait_ends i (fail_with operation_aborted) s)"
| expires: "tm_task s j = None \<Longrightarrow> timer_step s (expires_at j at s)"
| cancel: "tm_task s j = None \<Longrightarrow> timer_step s (timer_cancel j s)"
| close: "tm_task s j = None \<Longrightarrow> timer_step s (timer_close j s)"
| taken: "tm_task s j = Some h \<Longrightarrow> timer_step s (cancel_taken j s)"

section \<open>Invariant\<close>

fun wait_handle :: "timer_wait_pc \<Rightarrow> nat option" where
  "wait_handle (TW_registered h old) = Some h"
| "wait_handle (TW_waiting h) = Some h"
| "wait_handle p = None"

fun wait_old :: "timer_wait_pc \<Rightarrow> nat option" where
  "wait_old (TW_registered h old) = old"
| "wait_old p = None"

text \<open>Somebody has told the reactor to abort \<open>h\<close>, is about to, or can find it.\<close>

definition reachable_handle :: "steady_timer \<Rightarrow> nat \<Rightarrow> bool" where
  "reachable_handle s h \<longleftrightarrow> h \<in> tm_cancelled s \<or> tm_handle s = Some h \<or> (\<exists>j. tm_task s j = Some h) \<or> (\<exists>i. wait_old (tm_wait s i) = Some h)"

definition timer_inv :: "steady_timer \<Rightarrow> bool" where
  "timer_inv s \<longleftrightarrow> (\<forall>i h. wait_handle (tm_wait s i) = Some h \<longrightarrow> reachable_handle s h \<and> h < tm_next s) \<and>
     (\<forall>i j h. wait_handle (tm_wait s i) = Some h \<longrightarrow> wait_handle (tm_wait s j) = Some h \<longrightarrow> i = j) \<and>
     (tm_closed s \<longrightarrow> tm_handle s = None)"

lemma timer_invD:
  assumes "timer_inv s"
  shows "wait_handle (tm_wait s i) = Some h \<Longrightarrow> reachable_handle s h" "wait_handle (tm_wait s i) = Some h \<Longrightarrow> h < tm_next s"
    "wait_handle (tm_wait s i) = Some h \<Longrightarrow> wait_handle (tm_wait s j) = Some h \<Longrightarrow> i = j" "tm_closed s \<Longrightarrow> tm_handle s = None"
  using assms unfolding timer_inv_def by blast+

lemma timer_inv_keep:
  assumes inv: "timer_inv s" and waits: "\<And>i. wait_handle (tm_wait t i) = None \<or> wait_handle (tm_wait t i) = wait_handle (tm_wait s i)"
    and reach: "\<And>h. reachable_handle s h \<Longrightarrow> reachable_handle t h" and next_: "tm_next s \<le> tm_next t" and closed: "tm_closed t \<Longrightarrow> tm_handle t = None"
  shows "timer_inv t"
proof -
  have h: "wait_handle (tm_wait s i) = Some h" if "wait_handle (tm_wait t i) = Some h" for i h using waits [of i] that by auto
  show ?thesis unfolding timer_inv_def
  proof (intro conjI allI impI)
    fix i h assume w: "wait_handle (tm_wait t i) = Some h"
    show "reachable_handle t h" using reach timer_invD(1) [OF inv h [OF w]] .
    show "h < tm_next t" using timer_invD(2) [OF inv h [OF w]] next_ by simp
  next
    fix i j h' assume "wait_handle (tm_wait t i) = Some h'" "wait_handle (tm_wait t j) = Some h'"
    then show "i = j" using timer_invD(3) [OF inv] h by blast
  qed (rule closed)
qed

lemma tm_put_simps [simp]:
  "tm_wait (tm_put i p s) = (tm_wait s)(i := p)" "tm_handle (tm_put i p s) = tm_handle s" "tm_closed (tm_put i p s) = tm_closed s"
  "tm_task (tm_put i p s) = tm_task s" "tm_cancelled (tm_put i p s) = tm_cancelled s" "tm_next (tm_put i p s) = tm_next s"
  "tm_when (tm_put i p s) = tm_when s" "tm_expiry (tm_put i p s) = tm_expiry s"
  by (simp_all add: tm_put_def)

lemma reachable_cases:
  assumes "reachable_handle s h"
  obtains (cancelled) "h \<in> tm_cancelled s" | (stored) "tm_handle s = Some h" | (task) j where "tm_task s j = Some h"
    | (old) k where "wait_old (tm_wait s k) = Some h"
  using assms unfolding reachable_handle_def by blast

lemma reachableI:
  "h \<in> tm_cancelled s \<Longrightarrow> reachable_handle s h" "tm_handle s = Some h \<Longrightarrow> reachable_handle s h"
  "tm_task s j = Some h \<Longrightarrow> reachable_handle s h" "wait_old (tm_wait s k) = Some h \<Longrightarrow> reachable_handle s h"
  unfolding reachable_handle_def by blast+

lemma reachable_take:
  assumes j: "tm_task s j = None" and "reachable_handle s h"
  shows "reachable_handle (tm_take_handle j s) h"
  using assms(2)
proof (cases rule: reachable_cases)
  case stored
  show ?thesis by (rule reachableI(3) [where j = j]) (simp add: tm_take_handle_def stored)
next
  case (task k)
  show ?thesis by (rule reachableI(3) [where j = k]) (use task j in \<open>auto simp: tm_take_handle_def\<close>)
next
  case (old k)
  show ?thesis by (rule reachableI(4) [where k = k]) (simp add: tm_take_handle_def old)
qed (simp add: reachable_handle_def tm_take_handle_def)

text \<open>A wait moves from a point where it holds no old handle, or tells the reactor about it.\<close>

lemma reachable_move:
  assumes old: "\<And>h. wait_old (tm_wait s i) = Some h \<Longrightarrow> h \<in> tm_cancelled t" and wait: "tm_wait t = (tm_wait s)(i := p)"
    and same: "tm_handle t = tm_handle s" "tm_task t = tm_task s" "tm_cancelled s \<subseteq> tm_cancelled t" and h: "reachable_handle s h"
  shows "reachable_handle t h"
  using h
proof (cases rule: reachable_cases)
  case cancelled
  then show ?thesis using same(3) by (intro reachableI(1)) auto
next
  case stored
  then show ?thesis by (intro reachableI(2)) (simp add: same)
next
  case (task j)
  then show ?thesis by (intro reachableI(3) [where j = j]) (simp add: same)
next
  case (old k)
  show ?thesis
  proof (cases "k = i")
    case True
    then show ?thesis using assms(1) old by (intro reachableI(1)) simp
  next
    case False
    then show ?thesis using old by (intro reachableI(4) [where k = k]) (simp add: wait)
  qed
qed

lemma timer_inv_move:
  assumes inv: "timer_inv s" and handle: "wait_handle p = None \<or> wait_handle p = wait_handle (tm_wait s i)"
    and old: "\<And>h. wait_old (tm_wait s i) = Some h \<Longrightarrow> h \<in> tm_cancelled t" and wait: "tm_wait t = (tm_wait s)(i := p)"
    and same: "tm_handle t = tm_handle s" "tm_task t = tm_task s" "tm_cancelled s \<subseteq> tm_cancelled t" "tm_next t = tm_next s" "tm_closed t = tm_closed s"
  shows "timer_inv t"
proof (rule timer_inv_keep [OF inv])
  show "reachable_handle s h \<Longrightarrow> reachable_handle t h" for h by (rule reachable_move [OF old wait same(1-3)])
  show "wait_handle (tm_wait t k) = None \<or> wait_handle (tm_wait t k) = wait_handle (tm_wait s k)" for k using handle by (simp add: wait)
  show "tm_next s \<le> tm_next t" "tm_closed t \<Longrightarrow> tm_handle t = None" using timer_invD(4) [OF inv] by (simp_all add: same)
qed

lemma timer_inv_take:
  assumes inv: "timer_inv s" and j: "tm_task s j = None" and t: "t = tm_take_handle j (s\<lparr>tm_expiry := e, tm_closed := c\<rparr>)"
  shows "timer_inv t"
proof -
  have "reachable_handle t h" if "reachable_handle s h" for h
    unfolding t by (rule reachable_take) (use j that in \<open>auto simp: reachable_handle_def\<close>)
  then show ?thesis using inv by (intro timer_inv_keep [OF inv]) (auto simp: t tm_take_handle_def)
qed

lemma timer_inv_register:
  assumes inv: "timer_inv s" and i: "tm_wait s i = TW_snapshot e"
  shows "timer_inv (register_timer i e s)"
proof (cases "tm_closed s")
  case True
  show ?thesis
    by (rule timer_inv_move [OF inv, where i = i and p = "TW_done (fail_with operation_aborted)"]) (use True i in \<open>simp_all add: register_timer_def\<close>)
next
  case False
  let ?t = "register_timer i e s"
  have t: "tm_wait ?t = (tm_wait s)(i := TW_registered (tm_next s) (tm_handle s))" "tm_handle ?t = Some (tm_next s)" "tm_next ?t = Suc (tm_next s)"
      "tm_closed ?t = False" "tm_task ?t = tm_task s" "tm_cancelled ?t = tm_cancelled s"
    using False by (simp_all add: register_timer_def Let_def)
  have reach: "reachable_handle ?t h" if "reachable_handle s h" for h
    using that
  proof (cases rule: reachable_cases)
    case stored
    show ?thesis by (rule reachableI(4) [where k = i]) (simp add: t stored)
  next
    case (old k)
    show ?thesis by (rule reachableI(4) [where k = k]) (use i old in \<open>auto simp: t\<close>)
  next
    case (task j)
    show ?thesis by (rule reachableI(3) [where j = j]) (simp add: t task)
  qed (simp add: reachable_handle_def t)
  have old: "wait_handle (tm_wait s k) \<noteq> Some (tm_next s)" for k using timer_invD(2) [OF inv, of k] by blast
  show ?thesis unfolding timer_inv_def
  proof (intro conjI allI impI)
    fix k h assume w: "wait_handle (tm_wait ?t k) = Some h"
    show "reachable_handle ?t h"
    proof (cases "k = i")
      case True
      then show ?thesis using w by (simp add: reachable_handle_def t)
    qed (use w reach timer_invD(1) [OF inv, of k h] in \<open>simp add: t\<close>)
    show "h < tm_next ?t" using w timer_invD(2) [OF inv, of k h] by (auto simp: t split: if_splits)
  next
    fix k l h assume "wait_handle (tm_wait ?t k) = Some h" "wait_handle (tm_wait ?t l) = Some h"
    then show "k = l" using timer_invD(3) [OF inv, of k h l] old by (auto simp: t split: if_splits)
  qed (simp add: t)
qed

lemma timer_inv_taken:
  assumes inv: "timer_inv s"
  shows "timer_inv (cancel_taken j s)"
proof (rule timer_inv_keep [OF inv])
  show "reachable_handle (cancel_taken j s) h" if "reachable_handle s h" for h
    using that
  proof (cases rule: reachable_cases)
    case (task k)
    show ?thesis
    proof (cases "k = j")
      case True
      then show ?thesis using task by (intro reachableI(1)) (simp add: cancel_taken_def)
    next
      case False
      then show ?thesis using task by (intro reachableI(3) [where j = k]) (simp add: cancel_taken_def)
    qed
  next
    case (old k)
    show ?thesis by (rule reachableI(4) [where k = k]) (simp add: cancel_taken_def old)
  qed (simp_all add: reachable_handle_def cancel_taken_def)
qed (use timer_invD(4) [OF inv] in \<open>simp_all add: cancel_taken_def\<close>)

lemma timer_inv_step: "timer_step s t \<Longrightarrow> timer_inv s \<Longrightarrow> timer_inv t"
proof (induction rule: timer_step.induct)
  case (snapshot s i)
  show ?case
    by (rule timer_inv_move [OF snapshot(2), where i = i and p = "TW_snapshot (tm_expiry s)"]) (simp_all add: wait_snapshot_def snapshot)
next
  case (register s i e)
  then show ?case by (intro timer_inv_register)
next
  case (registered s i h old)
  show ?case by (rule timer_inv_move [OF registered(2), where i = i and p = "TW_waiting h"]) (auto simp: cancel_old_def registered)
next
  case (fires s i h)
  show ?case by (rule timer_inv_move [OF fires(2), where i = i and p = "TW_done ok"]) (simp_all add: wait_ends_def fires)
next
  case (aborts s i h)
  show ?case
    by (rule timer_inv_move [OF aborts(3), where i = i and p = "TW_done (fail_with operation_aborted)"]) (simp_all add: wait_ends_def aborts(1))
next
  case (expires s j at)
  show ?case by (rule timer_inv_take [OF expires(2,1), where e = at and c = "tm_closed s"]) (simp add: expires_at_def)
next
  case (cancel s j)
  show ?case by (rule timer_inv_take [OF cancel(2,1), where e = "tm_expiry s" and c = "tm_closed s"]) (simp add: timer_cancel_def)
next
  case (close s j)
  show ?case by (rule timer_inv_take [OF close(2,1), where e = "tm_expiry s" and c = True]) (simp add: timer_close_def)
next
  case (taken s j h)
  show ?case by (rule timer_inv_taken [OF taken(2)])
qed

lemma timer_inv_init: "timer_inv (timer_init at)"
  unfolding timer_inv_def timer_init_def by simp

interpretation timer: inductive_invariant "\<lambda>s. s = timer_init at" timer_step timer_inv for at
  by unfold_locales (simp add: timer_inv_init, rule timer_inv_step)

section \<open>Interleavings as data\<close>

datatype timer_label = TL_wait nat | TL_expires nat int | TL_cancel nat | TL_close nat | TL_taken nat

text \<open>A waiting coroutine labelled here is one whose handle was cancelled, and ends aborted.\<close>

fun timer_do :: "timer_label \<Rightarrow> steady_timer \<Rightarrow> steady_timer option" where
  "timer_do (TL_wait i) s =
     (case tm_wait s i of
        TW_idle \<Rightarrow> Some (wait_snapshot i s)
      | TW_snapshot e \<Rightarrow> Some (register_timer i e s)
      | TW_registered h old \<Rightarrow> Some (cancel_old i h old s)
      | TW_waiting h \<Rightarrow> if h \<in> tm_cancelled s then Some (wait_ends i (fail_with operation_aborted) s) else None
      | TW_done r \<Rightarrow> None)"
| "timer_do (TL_expires j at) s = (if tm_task s j = None then Some (expires_at j at s) else None)"
| "timer_do (TL_cancel j) s = (if tm_task s j = None then Some (timer_cancel j s) else None)"
| "timer_do (TL_close j) s = (if tm_task s j = None then Some (timer_close j s) else None)"
| "timer_do (TL_taken j) s = (if tm_task s j = None then None else Some (cancel_taken j s))"

lemma timer_do_step: "timer_do l s = Some t \<Longrightarrow> timer_step s t"
  by (cases l) (auto split: timer_wait_pc.splits if_splits intro: timer_step.intros)

interpretation timer_run: labelled_steps "\<lambda>s. s = timer_init at" timer_step timer_do for at
  by unfold_locales (rule timer_do_step)

lemmas timer_run_simps =
  timer_init_def tm_put_def tm_take_handle_def expires_at_def timer_cancel_def timer_close_def cancel_taken_def wait_snapshot_def
  register_timer_def cancel_old_def wait_ends_def Let_def

section \<open>Properties\<close>

text \<open>
  (C34) Once no thread is in the middle of a call, every pending wait of a \<open>steady_timer\<close> is one the
  reactor has been told to abort or the one whose handle is stored; so at most one wait is still
  live, none after \<open>close\<close>, and a call of \<open>cancel\<close> or \<open>expires_at\<close> from there reaches them all. No
  registration becomes unreachable, in whatever order the calls of the threads interleave.
\<close>

theorem timer_cancel_reaches_waits:
  assumes reach: "reach (\<lambda>s. s = timer_init at) timer_step s" and tasks: "\<forall>j. tm_task s j = None"
    and waits: "\<forall>i h old. tm_wait s i \<noteq> TW_registered h old" and i: "tm_wait s i = TW_waiting h"
  shows "(h \<in> tm_cancelled s \<or> tm_handle s = Some h) \<and> (tm_closed s \<longrightarrow> h \<in> tm_cancelled s) \<and>
    (tm_wait s k = TW_waiting h' \<and> h \<notin> tm_cancelled s \<and> h' \<notin> tm_cancelled s \<longrightarrow> k = i) \<and>
    h \<in> tm_cancelled (cancel_taken j (timer_cancel j s)) \<and> h \<in> tm_cancelled (cancel_taken j (expires_at j e s))"
proof -
  have inv: "timer_inv s" using reach by (rule timer.reach_inv)
  have old: "wait_old (tm_wait s k) = None" for k using waits by (cases "tm_wait s k") auto
  have found: "x \<in> tm_cancelled s \<or> tm_handle s = Some x" if "tm_wait s k = TW_waiting x" for k x
    using timer_invD(1) [OF inv, of k x] that tasks old by (simp add: reachable_handle_def)
  have same: "k = i" if "tm_wait s k = TW_waiting h" using timer_invD(3) [OF inv, of k h i] that i by simp
  have closed: "tm_closed s \<Longrightarrow> h \<in> tm_cancelled s" using found [OF i] timer_invD(4) [OF inv] by auto
  have live: "k = i" if k: "tm_wait s k = TW_waiting h'" and n: "h \<notin> tm_cancelled s" "h' \<notin> tm_cancelled s"
  proof -
    have "h' = h" using found [OF i] found [OF k] n by simp
    then show ?thesis using same k by simp
  qed
  show ?thesis
  proof (intro conjI impI)
    show "h \<in> tm_cancelled s \<or> tm_handle s = Some h" by (rule found [OF i])
    show "h \<in> tm_cancelled s" if "tm_closed s" using that by (rule closed)
    show "k = i" if "tm_wait s k = TW_waiting h' \<and> h \<notin> tm_cancelled s \<and> h' \<notin> tm_cancelled s" using live that by blast
    show "h \<in> tm_cancelled (cancel_taken j (timer_cancel j s))" using found [OF i]
      by (auto simp: cancel_taken_def timer_cancel_def tm_take_handle_def)
    show "h \<in> tm_cancelled (cancel_taken j (expires_at j e s))" using found [OF i]
      by (auto simp: cancel_taken_def expires_at_def tm_take_handle_def)
  qed
qed

definition rearm_run :: "timer_label list" where
  "rearm_run = [TL_wait 0, TL_wait 0, TL_wait 0, TL_wait 1, TL_expires 7 50, TL_wait 1, TL_taken 7, TL_wait 1]"

theorem timer_cancel_reaches_waits_witness:
  "\<exists>s. do_all timer_do rearm_run (timer_init 10) = Some s \<and> tm_wait s 1 = TW_waiting 1 \<and> tm_handle s = Some 1 \<and> 1 \<notin> tm_cancelled s \<and>
     (tm_wait s 0 = TW_waiting 0 \<and> 1 \<notin> tm_cancelled s \<and> 0 \<notin> tm_cancelled s \<longrightarrow> (0 :: nat) = 1) \<and>
     1 \<in> tm_cancelled (cancel_taken 3 (timer_cancel 3 s)) \<and> 1 \<in> tm_cancelled (cancel_taken 3 (expires_at 3 99 s))"
proof -
  obtain s where s: "do_all timer_do rearm_run (timer_init 10) = Some s" "tm_wait s 1 = TW_waiting 1" "tm_handle s = Some 1" "1 \<notin> tm_cancelled s"
      "tm_task s = (\<lambda>_. None)" "tm_wait s = (\<lambda>_. TW_idle)(0 := TW_waiting 0, 1 := TW_waiting 1)"
    by (simp add: rearm_run_def timer_run_simps fun_eq_iff)
  have r: "reach (\<lambda>s. s = timer_init 10) timer_step s" by (rule timer_run.do_all_reach [OF reach_start s(1)]) simp
  have "\<forall>j. tm_task s j = None" "\<forall>i h old. tm_wait s i \<noteq> TW_registered h old" using s(5,6) by simp_all
  from timer_cancel_reaches_waits [OF r this s(2), of 0 0 3 99] show ?thesis using s by blast
qed

text \<open>
  The expiry is read and the registration made under two separate locks: an \<open>expires_at\<close> from
  another thread in between finds no handle to cancel, and the wait is registered with the expiry
  that was just replaced. Nobody is left to cancel it.
\<close>

lemma timer_stale_expiry:
  "\<exists>s. reach (\<lambda>s. s = timer_init 1000) timer_step s \<and> tm_expiry s = 5 \<and> tm_wait s 0 = TW_waiting 0 \<and> tm_when s 0 = 1000 \<and>
     tm_cancelled s = {} \<and> (\<forall>j. tm_task s j = None)"
proof -
  obtain s where s: "do_all timer_do [TL_wait 0, TL_expires 1 5, TL_wait 0, TL_wait 0] (timer_init 1000) = Some s"
      "tm_expiry s = 5" "tm_wait s 0 = TW_waiting 0" "tm_when s 0 = 1000" "tm_cancelled s = {}" "\<forall>j. tm_task s j = None"
    by (simp add: timer_run_simps)
  have "reach (\<lambda>s. s = timer_init 1000) timer_step s" by (rule timer_run.do_all_reach [OF reach_start s(1)]) simp
  then show ?thesis using s by blast
qed

end
