(* ===== verification/Coroutine.thy ===== *)
theory Coroutine
  imports Prelude
begin

text \<open>
  Coroutines and how they run: \<open>detail/awaitable_promise.hpp\<close>, \<open>awaitable.hpp\<close>,
  \<open>bind_executor.hpp\<close> and the starting of coroutines in \<open>detail/spawn.hpp\<close>.

  A coroutine frame is known by its number, an executor too; an empty \<open>any_executor\<close> is \<open>None\<close>. A
  thread has the executor it works for and the coroutine it runs. Any number of threads take
  what was posted, in any order; a coroutine that awaits an operation of the reactor is in
  \<open>co_waiting\<close> until the operation posts it. The life of a frame is kept beside its promise in
  \<open>pr_life\<close>, which no code reads.
\<close>

datatype life = Created | Live | Finished | Destroyed

record 'v promise =
  pr_ex :: "nat option"
  pr_cont :: "nat option"
  pr_exception :: "nat option"
  pr_value :: "'v option"
  pr_detached :: bool
  pr_life :: life

text \<open>A stop source is the one of a promise or one from elsewhere.\<close>

datatype stop_id = Own nat | External nat

record 'v co_state =
  co_frames :: "'v promise list"
  co_current :: "nat option list"
  co_running :: "nat option list"
  co_posted :: "(nat \<times> nat) list"
  co_waiting :: "nat list"
  co_stopped :: "stop_id set"
  co_callbacks :: "(stop_id \<times> nat) list"

definition promise_init :: "'v promise" where
  "promise_init = \<lparr>pr_ex = None, pr_cont = None, pr_exception = None, pr_value = None, pr_detached = False, pr_life = Created\<rparr>"

definition co_init :: "nat \<Rightarrow> 'v co_state" where
  "co_init threads = \<lparr>co_frames = [], co_current = replicate threads None, co_running = replicate threads None, co_posted = [],
     co_waiting = [], co_stopped = {}, co_callbacks = []\<rparr>"

abbreviation frame :: "'v co_state \<Rightarrow> nat \<Rightarrow> 'v promise" where
  "frame s h \<equiv> co_frames s ! h"

definition put_frame :: "nat \<Rightarrow> 'v promise \<Rightarrow> 'v co_state \<Rightarrow> 'v co_state" where
  "put_frame h p s = s\<lparr>co_frames := (co_frames s)[h := p]\<rparr>"

definition put_thread :: "nat \<Rightarrow> nat option \<Rightarrow> nat option \<Rightarrow> 'v co_state \<Rightarrow> 'v co_state" where
  "put_thread k cur h s = s\<lparr>co_current := (co_current s)[k := cur], co_running := (co_running s)[k := h]\<rparr>"

definition co_post :: "nat \<Rightarrow> nat \<Rightarrow> 'v co_state \<Rightarrow> 'v co_state" where
  "co_post ex h s = s\<lparr>co_posted := co_posted s @ [(ex, h)]\<rparr>"

section \<open>Stop tokens\<close>

text \<open>
  \<open>std::stop_source::request_stop\<close> runs the callbacks registered with the source, on the calling
  thread; the callback of a promise requests a stop of the promise's own source, which nests.
  The list holds the sources still to be stopped, innermost call first.
\<close>

definition callbacks_of :: "(stop_id \<times> nat) list \<Rightarrow> stop_id \<Rightarrow> stop_id list" where
  "callbacks_of cbs src = map (\<lambda>(_, h). Own h) (filter (\<lambda>(p, _). p = src) cbs)"

function stop_all :: "(stop_id \<times> nat) list \<Rightarrow> stop_id list \<Rightarrow> stop_id set \<Rightarrow> stop_id set" where
  "stop_all cbs [] S = S"
| "stop_all cbs (src # rest) S =
     (if src \<in> S then stop_all cbs rest S else stop_all cbs (callbacks_of cbs src @ rest) (insert src S))"
  by pat_completeness auto

lemma set_callbacks_of: "set (callbacks_of cbs src) = {Own h |h. (src, h) \<in> set cbs}"
  by (auto simp: callbacks_of_def image_iff)

definition pending_stops :: "(stop_id \<times> nat) list \<Rightarrow> stop_id list \<Rightarrow> stop_id set \<Rightarrow> stop_id set" where
  "pending_stops cbs ws S = (Own ` snd ` set cbs \<union> set ws) - S"

lemma pending_stops_insert:
  assumes "src \<notin> S"
  shows "card (pending_stops cbs (callbacks_of cbs src @ rest) (insert src S)) < card (pending_stops cbs (src # rest) S)"
proof (rule psubset_card_mono)
  show "finite (pending_stops cbs (src # rest) S)" by (simp add: pending_stops_def)
  have "set (callbacks_of cbs src) \<subseteq> Own ` snd ` set cbs" by (force simp: set_callbacks_of)
  then have "pending_stops cbs (callbacks_of cbs src @ rest) (insert src S) \<subseteq> pending_stops cbs (src # rest) S - {src}"
    by (auto simp: pending_stops_def)
  moreover have "src \<in> pending_stops cbs (src # rest) S" using assms by (simp add: pending_stops_def)
  ultimately show "pending_stops cbs (callbacks_of cbs src @ rest) (insert src S) \<subset> pending_stops cbs (src # rest) S" by blast
qed

lemma pending_stops_drop: "card (pending_stops cbs rest S) \<le> card (pending_stops cbs (src # rest) S)"
  by (rule card_mono) (auto simp: pending_stops_def)

termination stop_all
proof (relation "measures [\<lambda>(cbs, ws, S). card (pending_stops cbs ws S), \<lambda>(cbs, ws, S). length ws]", goal_cases)
  case (2 cbs src rest S)
  then show ?case using pending_stops_drop [of cbs rest S src] by auto
next
  case (3 cbs src rest S)
  then show ?case using pending_stops_insert [of src S cbs rest] by simp
qed simp

definition co_request_stop :: "stop_id \<Rightarrow> 'v co_state \<Rightarrow> 'v co_state" where
  "co_request_stop src s = s\<lparr>co_stopped := stop_all (co_callbacks s) [src] (co_stopped s)\<rparr>"

definition inherit_stop_token :: "nat \<Rightarrow> stop_id option \<Rightarrow> 'v co_state \<Rightarrow> 'v co_state" where
  "inherit_stop_token h parent s =
     (case parent of
        None \<Rightarrow> s
      | Some src \<Rightarrow>
          if h \<in> snd ` set (co_callbacks s) then s
          else if src \<in> co_stopped s then co_request_stop (Own h) s
          else s\<lparr>co_callbacks := co_callbacks s @ [(src, h)]\<rparr>)"

definition reset_stop_callback :: "nat \<Rightarrow> 'v co_state \<Rightarrow> 'v co_state" where
  "reset_stop_callback h s = s\<lparr>co_callbacks := filter (\<lambda>(_, c). c \<noteq> h) (co_callbacks s)\<rparr>"

section \<open>Promises\<close>

definition set_executor :: "nat option \<Rightarrow> 'v promise \<Rightarrow> 'v promise" where
  "set_executor ex p = p\<lparr>pr_ex := ex\<rparr>"

definition inherit_executor :: "nat option \<Rightarrow> 'v promise \<Rightarrow> 'v promise" where
  "inherit_executor parent p = (case pr_ex p of None \<Rightarrow> p\<lparr>pr_ex := parent\<rparr> | Some _ \<Rightarrow> p)"

definition set_continuation :: "nat \<Rightarrow> 'v promise \<Rightarrow> 'v promise" where
  "set_continuation h p = p\<lparr>pr_cont := Some h\<rparr>"

text \<open>How the body of a coroutine ends, and what \<open>await_resume\<close> then gives: an exception, or the value, taken out.\<close>

fun co_return :: "nat + 'v \<Rightarrow> 'v promise \<Rightarrow> 'v promise" where
  "co_return (Inl e) p = p\<lparr>pr_exception := Some e\<rparr>"
| "co_return (Inr v) p = p\<lparr>pr_value := Some v\<rparr>"

definition co_await_resume :: "'v promise \<Rightarrow> (nat + 'v) option \<times> 'v promise" where
  "co_await_resume p =
     (case pr_exception p of
        Some e \<Rightarrow> (Some (Inl e), p)
      | None \<Rightarrow> (map_option Inr (pr_value p), p\<lparr>pr_value := None\<rparr>))"

text \<open>\<open>detach\<close> and the checks of \<open>init_spawned_promise\<close>: \<open>None\<close> is a violated check.\<close>

definition detach :: "'v promise \<Rightarrow> 'v promise option" where
  "detach p = (if pr_ex p = None then None else Some (p\<lparr>pr_detached := True\<rparr>))"

definition init_spawned_promise :: "nat option \<Rightarrow> stop_id option \<Rightarrow> nat \<Rightarrow> 'v co_state \<Rightarrow> 'v co_state option" where
  "init_spawned_promise ex token h s =
     (let s1 = (if ex = None then s else put_frame h (set_executor ex (frame s h)) s);
          s2 = inherit_stop_token h token s1
      in if pr_ex (frame s2 h) = None then None else Some s2)"

definition spawn_detached_impl :: "nat option \<Rightarrow> stop_id option \<Rightarrow> nat \<Rightarrow> 'v co_state \<Rightarrow> 'v co_state option" where
  "spawn_detached_impl ex token h s =
     (case init_spawned_promise ex token h s of
        None \<Rightarrow> None
      | Some s1 \<Rightarrow>
          (case detach (frame s1 h) of
             None \<Rightarrow> None
           | Some p \<Rightarrow> Some (co_post (the (pr_ex p)) h (put_frame h (p\<lparr>pr_life := Live\<rparr>) s1))))"

definition bind_executor :: "nat option \<Rightarrow> nat \<Rightarrow> 'v co_state \<Rightarrow> 'v co_state" where
  "bind_executor ex h s = put_frame h (set_executor ex (frame s h)) s"

section \<open>Suspending and resuming\<close>

text \<open>\<open>co_await\<close> of coroutine \<open>c\<close> by \<open>h\<close> on thread \<open>k\<close>: control passes straight to \<open>c\<close>.\<close>

definition await_suspend :: "nat \<Rightarrow> nat \<Rightarrow> nat \<Rightarrow> 'v co_state \<Rightarrow> 'v co_state" where
  "await_suspend k h c s =
     (let p = inherit_executor (pr_ex (frame s h)) (set_continuation h (frame s c));
          s1 = inherit_stop_token c (Some (Own h)) (put_frame c (p\<lparr>pr_life := Live\<rparr>) s)
      in put_thread k (co_current s ! k) (Some c) s1)"

text \<open>
  The end of coroutine \<open>h\<close> on thread \<open>k\<close>. A post to an empty executor does nothing: the
  continuation would be lost.
\<close>

definition final_suspend :: "nat \<Rightarrow> nat \<Rightarrow> 'v co_state \<Rightarrow> 'v co_state" where
  "final_suspend k h s =
     (let s1 = reset_stop_callback h s; p = frame s1 h
      in if pr_detached p then put_thread k None None (put_frame h (p\<lparr>pr_life := Destroyed\<rparr>) s1)
         else (let s2 = put_frame h (p\<lparr>pr_cont := None, pr_life := Finished\<rparr>) s1
               in case pr_cont p of
                    None \<Rightarrow> put_thread k None None s2
                  | Some c \<Rightarrow>
                      if co_current s2 ! k = pr_ex p then put_thread k (co_current s2 ! k) (Some c) s2
                      else put_thread k None None (case pr_ex p of None \<Rightarrow> s2 | Some ex \<Rightarrow> co_post ex c s2)))"

definition switch_to :: "nat \<Rightarrow> nat \<Rightarrow> nat option \<Rightarrow> 'v co_state \<Rightarrow> 'v co_state option" where
  "switch_to k h target s =
     (case target of
        None \<Rightarrow> None
      | Some ex \<Rightarrow>
          (let s1 = put_frame h (set_executor (Some ex) (frame s h)) s
           in if co_current s ! k = Some ex then Some s1 else Some (put_thread k None None (co_post ex h s1))))"

definition on_executor :: "nat \<Rightarrow> nat \<Rightarrow> nat option \<Rightarrow> 'v co_state \<Rightarrow> 'v co_state option" where
  "on_executor k h target s =
     (case target of
        None \<Rightarrow> None
      | Some ex \<Rightarrow> if co_current s ! k = Some ex then Some s else Some (put_thread k None None (co_post ex h s)))"

text \<open>The owner of a frame destroys it, and its callback with it.\<close>

definition co_destroy :: "nat \<Rightarrow> 'v co_state \<Rightarrow> 'v co_state" where
  "co_destroy h s = put_frame h ((frame s h)\<lparr>pr_life := Destroyed\<rparr>) (reset_stop_callback h s)"

inductive co_step :: "'v co_state \<Rightarrow> 'v co_state \<Rightarrow> bool" where
  create: "co_step s (s\<lparr>co_frames := co_frames s @ [promise_init]\<rparr>)"
| bind: "h < length (co_frames s) \<Longrightarrow> pr_life (frame s h) = Created \<Longrightarrow> co_step s (bind_executor ex h s)"
| spawn: "h < length (co_frames s) \<Longrightarrow> pr_life (frame s h) = Created \<Longrightarrow> spawn_detached_impl ex token h s = Some t \<Longrightarrow> co_step s t"
| start: "co_posted s = xs @ (ex, h) # ys \<Longrightarrow> k < length (co_running s) \<Longrightarrow> co_running s ! k = None \<Longrightarrow>
    co_step s (put_thread k (Some ex) (Some h) (s\<lparr>co_posted := xs @ ys\<rparr>))"
| await: "k < length (co_running s) \<Longrightarrow> co_running s ! k = Some h \<Longrightarrow> c < length (co_frames s) \<Longrightarrow> pr_life (frame s c) = Created \<Longrightarrow>
    co_step s (await_suspend k h c s)"
| operation: "k < length (co_running s) \<Longrightarrow> co_running s ! k = Some h \<Longrightarrow>
    co_step s (put_thread k None None (s\<lparr>co_waiting := co_waiting s @ [h]\<rparr>))"
| operation_done: "co_waiting s = xs @ h # ys \<Longrightarrow> pr_ex (frame s h) = Some ex \<Longrightarrow> co_step s (co_post ex h (s\<lparr>co_waiting := xs @ ys\<rparr>))"
| switch: "k < length (co_running s) \<Longrightarrow> co_running s ! k = Some h \<Longrightarrow> switch_to k h target s = Some t \<Longrightarrow> co_step s t"
| on: "k < length (co_running s) \<Longrightarrow> co_running s ! k = Some h \<Longrightarrow> on_executor k h target s = Some t \<Longrightarrow> co_step s t"
| finish: "k < length (co_running s) \<Longrightarrow> co_running s ! k = Some h \<Longrightarrow>
    co_step s (final_suspend k h (put_frame h (co_return x (frame s h)) s))"
| take_result: "c < length (co_frames s) \<Longrightarrow> pr_life (frame s c) = Finished \<Longrightarrow>
    co_step s (put_frame c (snd (co_await_resume (frame s c))) s)"
| destroy: "h < length (co_frames s) \<Longrightarrow> pr_life (frame s h) \<in> {Created, Finished} \<Longrightarrow> co_step s (co_destroy h s)"
| stop: "co_step s (co_request_stop src s)"

section \<open>Stopping reaches every callback\<close>

definition cb_edges :: "(stop_id \<times> nat) list \<Rightarrow> (stop_id \<times> stop_id) set" where
  "cb_edges cbs = {(src, Own h) |src h. (src, h) \<in> set cbs}"

lemma callbacks_edges: "set (callbacks_of cbs src) = cb_edges cbs `` {src}"
  by (auto simp: set_callbacks_of cb_edges_def)

lemma stop_all_covers: "S \<union> set ws \<subseteq> stop_all cbs ws S"
  by (induction cbs ws S rule: stop_all.induct) auto

lemma cover_weaken: "A \<subseteq> C \<Longrightarrow> T \<subseteq> insert x S \<union> (A \<union> B) \<Longrightarrow> x \<in> C \<Longrightarrow> T \<subseteq> S \<union> (C \<union> B)"
  by blast

lemma stop_all_sound: "stop_all cbs ws S \<subseteq> S \<union> (cb_edges cbs)\<^sup>* `` set ws"
proof (induction cbs ws S rule: stop_all.induct)
  case (2 cbs src rest S)
  show ?case
  proof (cases "src \<in> S")
    case True
    then show ?thesis using 2(1) by auto
  next
    case False
    have "(cb_edges cbs)\<^sup>* `` set (callbacks_of cbs src) \<subseteq> (cb_edges cbs)\<^sup>* `` {src}"
      unfolding callbacks_edges by (auto intro: converse_rtrancl_into_rtrancl)
    moreover have "stop_all cbs (callbacks_of cbs src @ rest) (insert src S) \<subseteq>
        insert src S \<union> ((cb_edges cbs)\<^sup>* `` set (callbacks_of cbs src) \<union> (cb_edges cbs)\<^sup>* `` set rest)"
      using 2(2) [OF False] by (simp only: set_append Image_Un)
    moreover have "src \<in> (cb_edges cbs)\<^sup>* `` {src}" by simp
    ultimately have "stop_all cbs (callbacks_of cbs src @ rest) (insert src S) \<subseteq> S \<union> ((cb_edges cbs)\<^sup>* `` {src} \<union> (cb_edges cbs)\<^sup>* `` set rest)"
      by (rule cover_weaken)
    moreover have "(cb_edges cbs)\<^sup>* `` set (src # rest) = (cb_edges cbs)\<^sup>* `` {src} \<union> (cb_edges cbs)\<^sup>* `` set rest"
      by (metis Image_Un insert_is_Un list.simps(15))
    ultimately show ?thesis using False by simp
  qed
qed simp

lemma stop_all_closed:
  "(\<And>a b. a \<in> S \<Longrightarrow> (a, b) \<in> cb_edges cbs \<Longrightarrow> b \<in> S \<union> set ws) \<Longrightarrow> a \<in> stop_all cbs ws S \<Longrightarrow> (a, b) \<in> cb_edges cbs \<Longrightarrow>
     b \<in> stop_all cbs ws S"
proof (induction cbs ws S rule: stop_all.induct)
  case (1 cbs S)
  then show ?case by force
next
  case (2 cbs src rest S)
  show ?case
  proof (cases "src \<in> S")
    case True
    then have "\<And>a b. a \<in> S \<Longrightarrow> (a, b) \<in> cb_edges cbs \<Longrightarrow> b \<in> S \<union> set rest" using 2(3) by force
    then show ?thesis using 2(1) [OF True] 2(4,5) True by simp
  next
    case False
    have "b \<in> insert src S \<union> set (callbacks_of cbs src @ rest)" if "a \<in> insert src S" "(a, b) \<in> cb_edges cbs" for a b
      using that 2(3) [of a b] by (auto simp: callbacks_edges)
    then show ?thesis using 2(2) [OF False] 2(4,5) False by simp
  qed
qed

definition stop_closed :: "'v co_state \<Rightarrow> bool" where
  "stop_closed s \<longleftrightarrow> (\<forall>(a, b) \<in> cb_edges (co_callbacks s). a \<in> co_stopped s \<longrightarrow> b \<in> co_stopped s)"

lemma co_request_stop_reaches:
  assumes "stop_closed s"
  shows "co_stopped (co_request_stop src s) = co_stopped s \<union> (cb_edges (co_callbacks s))\<^sup>* `` {src}"
proof
  let ?T = "stop_all (co_callbacks s) [src] (co_stopped s)"
  have step: "b \<in> ?T" if "a \<in> ?T" "(a, b) \<in> cb_edges (co_callbacks s)" for a b
    by (rule stop_all_closed [OF _ that]) (use assms in \<open>auto simp: stop_closed_def\<close>)
  have src: "src \<in> ?T" using stop_all_covers [of "co_stopped s" "[src]" "co_callbacks s"] by simp
  have "b \<in> ?T" if "(src, b) \<in> (cb_edges (co_callbacks s))\<^sup>*" for b
    using that by (induction rule: rtrancl_induct) (use src step in blast)+
  then show "co_stopped s \<union> (cb_edges (co_callbacks s))\<^sup>* `` {src} \<subseteq> co_stopped (co_request_stop src s)"
    using stop_all_covers [of "co_stopped s" "[src]"] by (auto simp: co_request_stop_def)
  show "co_stopped (co_request_stop src s) \<subseteq> co_stopped s \<union> (cb_edges (co_callbacks s))\<^sup>* `` {src}"
    using stop_all_sound [of "co_callbacks s" "[src]" "co_stopped s"] by (simp add: co_request_stop_def)
qed

lemma co_request_stop_closed:
  assumes "stop_closed s"
  shows "stop_closed (co_request_stop src s)"
  unfolding stop_closed_def
proof (clarify)
  fix a b assume ab: "(a, b) \<in> cb_edges (co_callbacks (co_request_stop src s))" "a \<in> co_stopped (co_request_stop src s)"
  have cb: "co_callbacks (co_request_stop src s) = co_callbacks s" by (simp add: co_request_stop_def)
  show "b \<in> co_stopped (co_request_stop src s)"
    using ab assms unfolding co_request_stop_reaches [OF assms] cb by (auto simp: stop_closed_def intro: rtrancl_into_rtrancl)
qed

section \<open>Invariant\<close>

definition places :: "'v co_state \<Rightarrow> nat multiset" where
  "places s = owned id (co_running s) + mset (map snd (co_posted s)) + mset (co_waiting s) + owned pr_cont (co_frames s)"

definition live :: "'v co_state \<Rightarrow> nat \<Rightarrow> bool" where
  "live s h \<longleftrightarrow> h < length (co_frames s) \<and> pr_life (frame s h) = Live"

definition places_ok :: "'v co_state \<Rightarrow> bool" where
  "places_ok s \<longleftrightarrow> (\<forall>h. count (places s) h = (if live s h then 1 else 0))"

definition promise_ok :: "'v promise \<Rightarrow> bool" where
  "promise_ok p \<longleftrightarrow> (pr_life p \<noteq> Live \<longrightarrow> pr_cont p = None) \<and> (pr_detached p \<longrightarrow> pr_cont p = None) \<and> (pr_life p = Live \<longrightarrow> pr_ex p \<noteq> None) \<and>
     (pr_life p = Created \<longrightarrow> \<not> pr_detached p)"

definition awaited_ok :: "'v co_state \<Rightarrow> bool" where
  "awaited_ok s \<longleftrightarrow> (\<forall>c < length (co_frames s). \<forall>h. pr_cont (frame s c) = Some h \<longrightarrow> (Own h, c) \<in> set (co_callbacks s) \<or> Own c \<in> co_stopped s)"

definition co_inv :: "'v co_state \<Rightarrow> bool" where
  "co_inv s \<longleftrightarrow> places_ok s \<and> list_all promise_ok (co_frames s) \<and> stop_closed s \<and> awaited_ok s \<and>
     (\<forall>(_, c) \<in> set (co_callbacks s). live s c) \<and> length (co_current s) = length (co_running s)"

lemma count_opt_mset: "count (opt_mset p) h = (if p = Some h then 1 else 0)"
  by (cases p) auto

lemma count_owned_update:
  assumes "i < length xs"
  shows "count (owned f (xs[i := x])) h + (if f (xs ! i) = Some h then 1 else 0) = count (owned f xs) h + (if f x = Some h then 1 else 0)"
  using arg_cong [OF owned_update [OF assms, of f x], of "\<lambda>m. count m h"] by (simp add: count_opt_mset)

text \<open>How the number of places of a coroutine changes with one frame and one thread.\<close>

lemma places_put_frame:
  assumes "c < length (co_frames s)"
  shows "count (places (put_frame c p s)) h + (if pr_cont (frame s c) = Some h then 1 else 0) = count (places s) h + (if pr_cont p = Some h then 1 else 0)"
  using count_owned_update [OF assms, of pr_cont p h] by (simp add: places_def put_frame_def)

lemma places_put_thread:
  assumes "k < length (co_running s)"
  shows "count (places (put_thread k cur r s)) h + (if co_running s ! k = Some h then 1 else 0) = count (places s) h + (if r = Some h then 1 else 0)"
  using count_owned_update [OF assms, of id r h] by (simp add: places_def put_thread_def)

lemma places_post: "count (places (co_post ex c s)) h = count (places s) h + (if c = h then 1 else 0)"
  by (simp add: places_def co_post_def)

lemma co_put_simps [simp]:
  "co_frames (put_thread k cur r s) = co_frames s" "co_frames (co_post ex h s) = co_frames s" "co_frames (co_request_stop src s) = co_frames s"
  "co_frames (inherit_stop_token h tok s) = co_frames s" "co_frames (reset_stop_callback h s) = co_frames s"
  "co_running (put_frame h p s) = co_running s" "co_running (co_post ex h s) = co_running s" "co_running (co_request_stop src s) = co_running s"
  "co_running (inherit_stop_token h tok s) = co_running s" "co_running (reset_stop_callback h s) = co_running s"
  "co_current (put_frame h p s) = co_current s" "co_current (co_post ex h s) = co_current s" "co_current (co_request_stop src s) = co_current s"
  "co_current (inherit_stop_token h tok s) = co_current s" "co_current (reset_stop_callback h s) = co_current s"
  "co_callbacks (put_frame h p s) = co_callbacks s" "co_callbacks (co_post ex h s) = co_callbacks s"
  "co_callbacks (co_request_stop src s) = co_callbacks s" "co_callbacks (put_thread k cur r s) = co_callbacks s"
  "co_stopped (put_frame h p s) = co_stopped s" "co_stopped (co_post ex h s) = co_stopped s" "co_stopped (put_thread k cur r s) = co_stopped s"
  "co_stopped (reset_stop_callback h s) = co_stopped s"
  "co_frames (put_frame h p s) = (co_frames s)[h := p]"
  "co_running (put_thread k cur r s) = (co_running s)[k := r]" "co_current (put_thread k cur r s) = (co_current s)[k := cur]"
  by (simp_all add: put_thread_def co_post_def co_request_stop_def put_frame_def reset_stop_callback_def inherit_stop_token_def split: option.split)

lemma places_same [simp]:
  "places (co_request_stop src s) = places s" "places (inherit_stop_token h tok s) = places s" "places (reset_stop_callback h s) = places s"
  by (simp_all add: places_def co_request_stop_def reset_stop_callback_def inherit_stop_token_def split: option.split)

lemma live_same [simp]:
  "live (co_request_stop src s) h = live s h" "live (inherit_stop_token c tok s) h = live s h" "live (reset_stop_callback c s) h = live s h"
  "live (put_thread k cur r s) h = live s h" "live (co_post ex c s) h = live s h"
  by (simp_all add: live_def)

lemma live_put_frame: "c < length (co_frames s) \<Longrightarrow> live (put_frame c p s) h = (if h = c then pr_life p = Live else live s h)"
  by (auto simp: live_def)

lemma co_invD:
  assumes "co_inv s"
  shows "places_ok s" "list_all promise_ok (co_frames s)" "stop_closed s" "awaited_ok s"
    "(p, c) \<in> set (co_callbacks s) \<Longrightarrow> live s c" "length (co_current s) = length (co_running s)"
    "h < length (co_frames s) \<Longrightarrow> promise_ok (frame s h)"
  using assms unfolding co_inv_def by (auto simp: list_all_length)

lemma running_live:
  assumes "places_ok s" "k < length (co_running s)" "co_running s ! k = Some h"
  shows "live s h"
proof (rule ccontr)
  assume "\<not> live s h"
  then have "count (places s) h = 0" using assms(1) by (simp add: places_ok_def)
  moreover have "h \<in># owned id (co_running s)" using nth_mem [OF assms(2)] assms(3) by (auto simp: set_mset_owned)
  ultimately show False by (simp add: places_def count_eq_zero_iff)
qed

lemma places_okI:
  assumes "places_ok s" and "\<And>h. count (places t) h + (if live s h then 1 else 0) = count (places s) h + (if live t h then 1 else 0)"
  shows "places_ok t"
  unfolding places_ok_def
proof
  fix h
  show "count (places t) h = (if live t h then 1 else 0)" using assms(1) assms(2) [of h] unfolding places_ok_def by (simp split: if_splits)
qed

lemma promises_update: "list_all promise_ok xs \<Longrightarrow> promise_ok p \<Longrightarrow> list_all promise_ok (xs[i := p])"
  by (auto simp: list_all_iff dest!: set_update_subset_insert [THEN subsetD])

lemma stop_closed_mono:
  assumes "stop_closed s" "set (co_callbacks t) \<subseteq> set (co_callbacks s)" "co_stopped t = co_stopped s"
  shows "stop_closed t"
  using assms unfolding stop_closed_def cb_edges_def by fastforce

lemma awaited_okI:
  assumes "awaited_ok s" "c < length (co_frames s)" "co_frames t = (co_frames s)[c := p]"
    and other: "\<And>d h. d \<noteq> c \<Longrightarrow> (Own h, d) \<in> set (co_callbacks s) \<or> Own d \<in> co_stopped s \<Longrightarrow> (Own h, d) \<in> set (co_callbacks t) \<or> Own d \<in> co_stopped t"
    and self: "\<And>h. pr_cont p = Some h \<Longrightarrow> (Own h, c) \<in> set (co_callbacks t) \<or> Own c \<in> co_stopped t"
  shows "awaited_ok t"
  unfolding awaited_ok_def
proof (intro allI impI)
  fix d h assume d: "d < length (co_frames t)" "pr_cont (frame t d) = Some h"
  show "(Own h, d) \<in> set (co_callbacks t) \<or> Own d \<in> co_stopped t"
  proof (cases "d = c")
    case True
    then show ?thesis using self d assms(2,3) by simp
  next
    case False
    then show ?thesis using other d assms(1,3) by (simp add: awaited_ok_def)
  qed
qed

text \<open>A promise changes without its coroutine being moved.\<close>

lemma co_inv_put_frame:
  assumes inv: "co_inv s" and c: "c < length (co_frames s)" and p: "promise_ok p" "pr_cont p = pr_cont (frame s c)"
    "(pr_life p = Live) = (pr_life (frame s c) = Live)"
  shows "co_inv (put_frame c p s)"
proof -
  have live: "live (put_frame c p s) h = live s h" for h using c p(3) by (simp add: live_put_frame) (simp add: live_def)
  have "places_ok (put_frame c p s)"
    by (rule places_okI [OF co_invD(1) [OF inv]]) (use places_put_frame [OF c, of p] p(2) live in simp)
  moreover have "awaited_ok (put_frame c p s)"
    by (rule awaited_okI [OF co_invD(4) [OF inv] c]) (use co_invD(4) [OF inv] c p(2) in \<open>auto simp: awaited_ok_def\<close>)
  moreover have "stop_closed (put_frame c p s)" by (rule stop_closed_mono [OF co_invD(3) [OF inv]]) simp_all
  ultimately show ?thesis using co_invD(2,6) [OF inv] co_invD(5) [OF inv] p(1) by (auto simp: co_inv_def live promises_update)
qed

text \<open>A coroutine moves from one place to another.\<close>

lemma co_inv_move:
  assumes inv: "co_inv s" and same: "co_frames t = co_frames s" "co_callbacks t = co_callbacks s" "co_stopped t = co_stopped s"
    "length (co_current t) = length (co_current s)" "length (co_running t) = length (co_running s)" and places: "places t = places s"
  shows "co_inv t"
proof -
  have eq: "places_ok t = places_ok s" "stop_closed t = stop_closed s" "awaited_ok t = awaited_ok s" "live t = live s"
    by (simp_all add: places_ok_def stop_closed_def awaited_ok_def live_def same places fun_eq_iff)
  show ?thesis using inv unfolding co_inv_def eq same by simp
qed

lemma inherit_put_frame [simp]:
  "co_callbacks (inherit_stop_token c tok (put_frame h p s)) = co_callbacks (inherit_stop_token c tok s)"
  "co_stopped (inherit_stop_token c tok (put_frame h p s)) = co_stopped (inherit_stop_token c tok s)"
  by (simp_all add: inherit_stop_token_def co_request_stop_def put_frame_def split: option.split)

lemma inherit_fresh:
  assumes inv: "co_inv s" and c: "\<not> live s c"
  shows "(a, d) \<in> set (co_callbacks (inherit_stop_token c tok s)) \<Longrightarrow> live s d \<or> d = c"
    "co_stopped s \<subseteq> co_stopped (inherit_stop_token c tok s)" "set (co_callbacks s) \<subseteq> set (co_callbacks (inherit_stop_token c tok s))"
    "stop_closed (inherit_stop_token c tok s)"
    "tok = Some src \<Longrightarrow> (src, c) \<in> set (co_callbacks (inherit_stop_token c tok s)) \<or> Own c \<in> co_stopped (inherit_stop_token c tok s)"
proof -
  have no: "c \<notin> snd ` set (co_callbacks s)" using c co_invD(5) [OF inv] by force
  show "(a, d) \<in> set (co_callbacks (inherit_stop_token c tok s)) \<Longrightarrow> live s d \<or> d = c"
    using co_invD(5) [OF inv, of a d] by (auto simp: inherit_stop_token_def split: option.splits if_splits)
  have grow: "co_stopped s \<subseteq> co_stopped (co_request_stop x s)" "x \<in> co_stopped (co_request_stop x s)" for x
    using stop_all_covers [of "co_stopped s" "[x]" "co_callbacks s"] by (auto simp: co_request_stop_def)
  show "co_stopped s \<subseteq> co_stopped (inherit_stop_token c tok s)" using grow(1) by (auto simp: inherit_stop_token_def split: option.split)
  show "set (co_callbacks s) \<subseteq> set (co_callbacks (inherit_stop_token c tok s))" by (auto simp: inherit_stop_token_def split: option.split)
  show "tok = Some src \<Longrightarrow> (src, c) \<in> set (co_callbacks (inherit_stop_token c tok s)) \<or> Own c \<in> co_stopped (inherit_stop_token c tok s)"
    using no grow(2) by (simp add: inherit_stop_token_def)
  show "stop_closed (inherit_stop_token c tok s)"
    using co_invD(3) [OF inv] co_request_stop_closed [OF co_invD(3) [OF inv], of "Own c"]
    by (auto simp: inherit_stop_token_def stop_closed_def cb_edges_def split: option.split)
qed

text \<open>A coroutine begins: it is spawned or awaited.\<close>

lemma co_inv_begin:
  assumes inv: "co_inv s" and c: "c < length (co_frames s)" "pr_life (frame s c) = Created" and p: "promise_ok p" "pr_life p = Live"
    and t: "co_frames t = (co_frames s)[c := p]" "co_callbacks t = co_callbacks (inherit_stop_token c tok s)"
      "co_stopped t = co_stopped (inherit_stop_token c tok s)" "length (co_current t) = length (co_current s)"
      "length (co_running t) = length (co_running s)"
    and places: "\<And>h. count (places t) h = count (places s) h + (if h = c then 1 else 0)"
    and cont: "\<And>h. pr_cont p = Some h \<Longrightarrow> tok = Some (Own h)"
  shows "co_inv t"
proof -
  have dead: "\<not> live s c" using c by (simp add: live_def)
  note fresh = inherit_fresh [OF inv dead, where tok = tok]
  have live: "live t h = (h = c \<or> live s h)" for h using c(1) p(2) by (cases "h = c") (simp_all add: live_def t)
  have "places_ok t" by (rule places_okI [OF co_invD(1) [OF inv]]) (use dead live places in auto)
  moreover have "awaited_ok t"
  proof (rule awaited_okI [OF co_invD(4) [OF inv] c(1) t(1)])
    show "(Own h, c) \<in> set (co_callbacks t) \<or> Own c \<in> co_stopped t" if "pr_cont p = Some h" for h
      using fresh(5) [OF cont [OF that]] by (simp add: t)
  qed (use fresh(2,3) in \<open>auto simp: t\<close>)
  moreover have "stop_closed t" using fresh(4) by (simp add: stop_closed_def t)
  moreover have "\<forall>(_, d) \<in> set (co_callbacks t). live t d" using fresh(1) by (auto simp: t live)
  ultimately show ?thesis using co_invD(2,6) [OF inv] p(1) t(4,5) by (simp add: co_inv_def t(1) promises_update)
qed

text \<open>A coroutine ends.\<close>

lemma co_inv_end:
  assumes inv: "co_inv s" and h: "live s h" and p: "promise_ok p" "pr_life p \<noteq> Live"
    and t: "co_frames t = (co_frames s)[h := p]" "co_callbacks t = co_callbacks (reset_stop_callback h s)"
      "co_stopped t = co_stopped s" "length (co_current t) = length (co_current s)" "length (co_running t) = length (co_running s)"
    and places: "\<And>x. count (places t) x + (if x = h then 1 else 0) = count (places s) x"
  shows "co_inv t"
proof -
  have hl: "h < length (co_frames s)" using h by (simp add: live_def)
  have live: "live t x = (x \<noteq> h \<and> live s x)" for x using hl p(2) by (cases "x = h") (simp_all add: live_def t)
  have "places_ok t"
  proof (rule places_okI [OF co_invD(1) [OF inv]])
    show "count (places t) x + (if live s x then 1 else 0) = count (places s) x + (if live t x then 1 else 0)" for x
      using places [of x] live [of x] h by (simp split: if_splits)
  qed
  moreover have "awaited_ok t"
    by (rule awaited_okI [OF co_invD(4) [OF inv] hl t(1)]) (use p in \<open>auto simp: t reset_stop_callback_def promise_ok_def\<close>)
  moreover have "stop_closed t" by (rule stop_closed_mono [OF co_invD(3) [OF inv]]) (auto simp: t reset_stop_callback_def)
  moreover have "\<forall>(_, d) \<in> set (co_callbacks t). live t d" using co_invD(5) [OF inv] by (auto simp: t reset_stop_callback_def live)
  ultimately show ?thesis using co_invD(2,6) [OF inv] p(1) t(4,5) by (simp add: co_inv_def t(1) promises_update)
qed

lemma co_inv_spawn:
  assumes inv: "co_inv s" and h: "h < length (co_frames s)" "pr_life (frame s h) = Created" and t: "spawn_detached_impl ex token h s = Some t"
  shows "co_inv t"
proof -
  define p where "p = (if ex = None then frame s h else set_executor ex (frame s h))"
  have cont: "pr_cont (frame s h) = None" using co_invD(7) [OF inv h(1)] h(2) by (simp add: promise_ok_def)
  have p: "pr_cont p = None" "pr_life p = Created" using cont h(2) by (simp_all add: p_def set_executor_def)
  define s1 where "s1 = inherit_stop_token h token (if ex = None then s else put_frame h (set_executor ex (frame s h)) s)"
  have s1: "co_frames s1 = (co_frames s)[h := p]" "co_callbacks s1 = co_callbacks (inherit_stop_token h token s)"
      "co_stopped s1 = co_stopped (inherit_stop_token h token s)" "co_running s1 = co_running s" "co_current s1 = co_current s"
    by (simp_all add: s1_def p_def)
  have i: "init_spawned_promise ex token h s = (if pr_ex p = None then None else Some s1)"
    using h(1) by (auto simp: init_spawned_promise_def Let_def s1_def p_def)
  obtain e where e: "pr_ex p = Some e" "t = co_post e h (put_frame h (p\<lparr>pr_detached := True, pr_life := Live\<rparr>) s1)"
    using t h(1) by (auto simp: spawn_detached_impl_def i detach_def s1(1) split: option.splits if_splits)
  have places: "count (places t) x = count (places s) x + (if x = h then 1 else 0)" for x
  proof -
    have "count (places s1) x = count (places s) x"
      using places_put_frame [OF h(1), of "set_executor ex (frame s h)" x] by (simp add: s1_def set_executor_def)
    then show ?thesis
      using places_put_frame [of h s1 "p\<lparr>pr_detached := True, pr_life := Live\<rparr>" x] h(1) p(1) s1(1) by (auto simp: e(2) places_post)
  qed
  show ?thesis
    by (rule co_inv_begin [OF inv h, where p = "p\<lparr>pr_detached := True, pr_life := Live\<rparr>" and tok = token])
      (use e(1) p(1) h(1) places in \<open>simp_all add: e(2) s1 promise_ok_def\<close>)
qed

lemma co_inv_await:
  assumes inv: "co_inv s" and k: "k < length (co_running s)" "co_running s ! k = Some h"
    and c: "c < length (co_frames s)" "pr_life (frame s c) = Created"
  shows "co_inv (await_suspend k h c s)"
proof -
  let ?p = "(inherit_executor (pr_ex (frame s h)) (set_continuation h (frame s c)))\<lparr>pr_life := Live\<rparr>"
  have "live s h" using running_live [OF co_invD(1) [OF inv] k] .
  then have ex: "pr_ex (frame s h) \<noteq> None" using co_invD(7) [OF inv, of h] by (simp add: live_def promise_ok_def)
  have old: "pr_cont (frame s c) = None" using co_invD(7) [OF inv c(1)] c(2) by (simp add: promise_ok_def)
  have p: "pr_cont ?p = Some h" "pr_ex ?p \<noteq> None" "pr_detached ?p = pr_detached (frame s c)"
    using ex by (auto simp: inherit_executor_def set_continuation_def split: option.split)
  define s1 where "s1 = inherit_stop_token c (Some (Own h)) (put_frame c ?p s)"
  have t: "await_suspend k h c s = put_thread k (co_current s ! k) (Some c) s1"
    by (simp add: await_suspend_def Let_def s1_def)
  have places: "count (places (await_suspend k h c s)) x = count (places s) x + (if x = c then 1 else 0)" for x
    using places_put_thread [of k s1 "co_current s ! k" "Some c" x] places_put_frame [OF c(1), of ?p x] k old p(1)
    by (simp add: t s1_def split: if_splits)
  show ?thesis
    by (rule co_inv_begin [OF inv c, where p = ?p and tok = "Some (Own h)"])
      (use p c co_invD(7) [OF inv c(1)] places in \<open>simp_all add: t s1_def promise_ok_def\<close>)
qed

lemma co_inv_final:
  assumes inv: "co_inv s" and k: "k < length (co_running s)" "co_running s ! k = Some h"
  shows "co_inv (final_suspend k h s)"
proof -
  have h: "live s h" using running_live [OF co_invD(1) [OF inv] k] .
  then have hl: "h < length (co_frames s)" and ok: "promise_ok (frame s h)" using co_invD(7) [OF inv, of h] by (simp_all add: live_def)
  let ?p = "frame s h"
  have ex: "pr_ex ?p \<noteq> None" using h ok by (simp add: live_def promise_ok_def)
  define t where "t = final_suspend k h s"
  define s1 where "s1 = reset_stop_callback h s"
  have s1 [simp]: "co_frames s1 = co_frames s" "co_running s1 = co_running s" "co_current s1 = co_current s" "co_stopped s1 = co_stopped s"
      "places s1 = places s" by (simp_all add: s1_def)
  have "co_inv t"
  proof (cases "pr_detached ?p")
    case True
    then have no: "pr_cont ?p = None" using ok by (simp add: promise_ok_def)
    let ?q = "?p\<lparr>pr_life := Destroyed\<rparr>"
    have t: "t = put_thread k None None (put_frame h ?q s1)" using True by (simp add: t_def final_suspend_def Let_def s1_def)
    have "count (places t) x + (if x = h then 1 else 0) = count (places s) x" for x
      using places_put_thread [of k "put_frame h ?q s1" None None x] places_put_frame [of h s1 ?q x] hl k no by (simp add: t split: if_splits)
    then show ?thesis by (intro co_inv_end [OF inv h, where p = ?q]) (simp_all add: t promise_ok_def no s1_def)
  next
    case False
    let ?q = "?p\<lparr>pr_cont := None, pr_life := Finished\<rparr>"
    define s2 where "s2 = put_frame h ?q s1"
    have s2: "count (places s2) x + (if pr_cont ?p = Some x then 1 else 0) = count (places s) x" for x
      using places_put_frame [of h s1 ?q x] hl by (simp add: s2_def split: if_splits)
    obtain e where e: "pr_ex ?p = Some e" using ex by auto
    have t: "t = (case pr_cont ?p of
        None \<Rightarrow> put_thread k None None s2
      | Some c \<Rightarrow> if co_current s2 ! k = Some e then put_thread k (co_current s2 ! k) (Some c) s2
                  else put_thread k None None (co_post e c s2))"
      using False e by (simp add: t_def final_suspend_def Let_def s2_def s1_def [symmetric] split: option.split)
    obtain u where u: "t = put_thread k u None s2 \<and> pr_cont ?p = None \<or>
        (\<exists>c. pr_cont ?p = Some c \<and> (t = put_thread k u (Some c) s2 \<or> (\<exists>ex. t = put_thread k u None (co_post ex c s2))))"
    proof (cases "pr_cont ?p")
      case None
      then show thesis using that [of None] t by simp
    next
      case (Some c)
      show thesis
      proof (cases "co_current s2 ! k = Some e")
        case True
        then show thesis using that [of "Some e"] t Some by simp
      next
        case False
        then show thesis using that [of None] t Some by auto
      qed
    qed
    have kl: "k < length (co_running s2)" "co_running s2 ! k = Some h" using k by (simp_all add: s2_def)
    have "count (places t) x + (if x = h then 1 else 0) = count (places s) x" for x
      using u
    proof (elim disjE conjE exE)
      assume "t = put_thread k u None s2" "pr_cont ?p = None"
      then show ?thesis using places_put_thread [OF kl(1), of u None x] kl(2) s2 [of x] by (simp split: if_splits)
    next
      fix c assume "t = put_thread k u (Some c) s2" "pr_cont ?p = Some c"
      then show ?thesis using places_put_thread [OF kl(1), of u "Some c" x] kl(2) s2 [of x] by (simp split: if_splits)
    next
      fix c ex assume "t = put_thread k u None (co_post ex c s2)" "pr_cont ?p = Some c"
      then show ?thesis
        using places_put_thread [of k "co_post ex c s2" u None x] kl s2 [of x] by (simp add: places_post split: if_splits)
    qed
    then show ?thesis using u by (intro co_inv_end [OF inv h, where p = ?q]) (auto simp: promise_ok_def s1_def s2_def)
  qed
  then show ?thesis by (simp add: t_def)
qed

lemma co_inv_post_running:
  assumes inv: "co_inv s" and k: "k < length (co_running s)" "co_running s ! k = Some h"
  shows "co_inv (put_thread k None None (co_post ex h s))"
proof (rule co_inv_move [OF inv])
  show "places (put_thread k None None (co_post ex h s)) = places s"
    by (rule multiset_eqI) (use places_put_thread [of k "co_post ex h s" None None] k in \<open>simp add: places_post split: if_splits\<close>)
qed simp_all

lemma co_inv_switch:
  assumes inv: "co_inv s" and k: "k < length (co_running s)" "co_running s ! k = Some h" and t: "switch_to k h target s = Some t"
  shows "co_inv t"
proof -
  obtain ex where ex: "target = Some ex" using t by (auto simp: switch_to_def split: option.splits)
  have h: "live s h" using running_live [OF co_invD(1) [OF inv] k] .
  let ?s1 = "put_frame h (set_executor (Some ex) (frame s h)) s"
  have i1: "co_inv ?s1"
    by (rule co_inv_put_frame [OF inv]) (use h co_invD(7) [OF inv, of h] in \<open>simp_all add: live_def promise_ok_def set_executor_def\<close>)
  have "t = ?s1 \<or> t = put_thread k None None (co_post ex h ?s1)" using t by (auto simp: switch_to_def ex Let_def split: if_splits)
  then show ?thesis using i1 co_inv_post_running [OF i1, of k h ex] k by auto
qed

lemma co_inv_step: "co_step s t \<Longrightarrow> co_inv s \<Longrightarrow> co_inv t"
proof (induction rule: co_step.induct)
  case (create s)
  let ?t = "s\<lparr>co_frames := co_frames s @ [promise_init]\<rparr>"
  have live: "live ?t = live s" by (auto simp: live_def fun_eq_iff nth_append promise_init_def less_Suc_eq)
  have "places ?t = places s" by (simp add: places_def promise_init_def)
  then have "places_ok ?t" using co_invD(1) [OF create] by (simp add: places_ok_def live)
  moreover have "awaited_ok ?t" using co_invD(4) [OF create] by (auto simp: awaited_ok_def nth_append promise_init_def less_Suc_eq)
  moreover have "stop_closed ?t" using co_invD(3) [OF create] by (simp add: stop_closed_def)
  moreover have "promise_ok promise_init" by (simp add: promise_ok_def promise_init_def)
  moreover have "\<forall>(_, c) \<in> set (co_callbacks ?t). live ?t c" using co_invD(5) [OF create] unfolding live by auto
  ultimately show ?case using co_invD(2,6) [OF create] unfolding co_inv_def by simp
next
  case (bind h s ex)
  show ?case unfolding bind_executor_def
    by (rule co_inv_put_frame [OF bind(3,1)]) (use co_invD(7) [OF bind(3,1)] bind(2) in \<open>simp_all add: promise_ok_def set_executor_def\<close>)
next
  case (spawn h s ex token t)
  show ?case by (rule co_inv_spawn [OF spawn(4,1-3)])
next
  case (start s xs ex h ys k)
  show ?case
  proof (rule co_inv_move [OF start(4)])
    show "places (put_thread k (Some ex) (Some h) (s\<lparr>co_posted := xs @ ys\<rparr>)) = places s"
    proof (rule multiset_eqI)
      show "count (places (put_thread k (Some ex) (Some h) (s\<lparr>co_posted := xs @ ys\<rparr>))) x = count (places s) x" for x
        using places_put_thread [of k "s\<lparr>co_posted := xs @ ys\<rparr>" "Some ex" "Some h" x] start(1-3)
        by (simp add: places_def [of "s\<lparr>co_posted := xs @ ys\<rparr>"] places_def [of s] split: if_splits)
    qed
  qed simp_all
next
  case (await k s h c)
  show ?case by (rule co_inv_await [OF await(5,1-4)])
next
  case (operation k s h)
  show ?case
  proof (rule co_inv_move [OF operation(3)])
    show "places (put_thread k None None (s\<lparr>co_waiting := co_waiting s @ [h]\<rparr>)) = places s"
    proof (rule multiset_eqI)
      show "count (places (put_thread k None None (s\<lparr>co_waiting := co_waiting s @ [h]\<rparr>))) x = count (places s) x" for x
        using places_put_thread [of k "s\<lparr>co_waiting := co_waiting s @ [h]\<rparr>" None None x] operation(1,2)
        by (simp add: places_def [of "s\<lparr>co_waiting := co_waiting s @ [h]\<rparr>"] places_def [of s] split: if_splits)
    qed
  qed simp_all
next
  case (operation_done s xs h ys ex)
  show ?case by (rule co_inv_move [OF operation_done(3)]) (simp_all add: co_post_def places_def operation_done(1))
next
  case (switch k s h target t)
  show ?case by (rule co_inv_switch [OF switch(4,1-3)])
next
  case (on k s h target t)
  then show ?case using co_inv_post_running [OF on(4,1,2)] by (auto simp: on_executor_def split: option.splits if_splits)
next
  case (finish k s h x)
  have h: "live s h" using running_live [OF co_invD(1) [OF finish(3)] finish(1,2)] .
  have "co_inv (put_frame h (co_return x (frame s h)) s)"
    by (rule co_inv_put_frame [OF finish(3)])
      (use h co_invD(7) [OF finish(3), of h] in \<open>cases x; simp add: live_def promise_ok_def\<close>)+
  then show ?case by (rule co_inv_final) (use finish in simp_all)
next
  case (take_result c s)
  show ?case by (rule co_inv_put_frame [OF take_result(3,1)])
      (use co_invD(7) [OF take_result(3,1)] in \<open>simp_all add: promise_ok_def co_await_resume_def split: option.split\<close>)
next
  case (destroy h s)
  have dead: "\<not> live s h" using destroy(2) by (auto simp: live_def)
  have "c \<noteq> h" if "(p, c) \<in> set (co_callbacks s)" for p c using co_invD(5) [OF destroy(3) that] dead by auto
  then have "filter (\<lambda>(_, c). c \<noteq> h) (co_callbacks s) = co_callbacks s" by (auto simp: filter_id_conv)
  then have "reset_stop_callback h s = s" by (simp add: reset_stop_callback_def)
  then show ?case unfolding co_destroy_def
    by (simp, intro co_inv_put_frame [OF destroy(3,1)]) (use destroy(2) co_invD(7) [OF destroy(3,1)] in \<open>auto simp: promise_ok_def\<close>)
next
  case (stop s src)
  have "co_stopped s \<subseteq> co_stopped (co_request_stop src s)" using co_request_stop_reaches [OF co_invD(3) [OF stop]] by blast
  then have "awaited_ok (co_request_stop src s)" using co_invD(4) [OF stop] by (auto simp: awaited_ok_def)
  moreover have "places_ok (co_request_stop src s)" using co_invD(1) [OF stop] by (simp add: places_ok_def)
  moreover have "\<forall>(_, c) \<in> set (co_callbacks (co_request_stop src s)). live (co_request_stop src s) c" using co_invD(5) [OF stop] by auto
  ultimately show ?case using co_invD(2,6) [OF stop] co_request_stop_closed [OF co_invD(3) [OF stop]] by (simp add: co_inv_def)
qed

lemma co_inv_init: "co_inv (co_init n)"
  by (simp add: co_inv_def co_init_def places_ok_def places_def live_def stop_closed_def cb_edges_def awaited_ok_def owned_replicate_null)

interpretation coroutines: inductive_invariant "\<lambda>s. s = co_init n" co_step co_inv for n
  by unfold_locales (simp add: co_inv_init, rule co_inv_step)

abbreviation co_reach :: "nat \<Rightarrow> 'v co_state \<Rightarrow> bool" where
  "co_reach n \<equiv> reach (\<lambda>s. s = co_init n) co_step"

section \<open>Interleavings as data\<close>

datatype 'v co_label =
    CL_create
  | CL_bind nat nat
  | CL_spawn nat nat "stop_id option"
  | CL_start nat
  | CL_await nat nat
  | CL_switch nat nat
  | CL_finish nat "nat + 'v"
  | CL_stop stop_id

text \<open>\<open>CL_start\<close> takes what was posted first.\<close>

fun co_do :: "'v co_label \<Rightarrow> 'v co_state \<Rightarrow> 'v co_state option" where
  "co_do CL_create s = Some (s\<lparr>co_frames := co_frames s @ [promise_init]\<rparr>)"
| "co_do (CL_bind ex h) s =
     (if h < length (co_frames s) \<and> pr_life (frame s h) = Created then Some (bind_executor (Some ex) h s) else None)"
| "co_do (CL_spawn ex h token) s =
     (if h < length (co_frames s) \<and> pr_life (frame s h) = Created then spawn_detached_impl (Some ex) token h s else None)"
| "co_do (CL_start k) s =
     (case co_posted s of
        [] \<Rightarrow> None
      | (ex, h) # rest \<Rightarrow>
          if k < length (co_running s) \<and> co_running s ! k = None then Some (put_thread k (Some ex) (Some h) (s\<lparr>co_posted := rest\<rparr>)) else None)"
| "co_do (CL_await k c) s =
     (if k < length (co_running s) \<and> c < length (co_frames s) \<and> pr_life (frame s c) = Created
      then map_option (\<lambda>h. await_suspend k h c s) (co_running s ! k) else None)"
| "co_do (CL_switch k ex) s =
     (if k < length (co_running s) then Option.bind (co_running s ! k) (\<lambda>h. switch_to k h (Some ex) s) else None)"
| "co_do (CL_finish k x) s =
     (if k < length (co_running s)
      then map_option (\<lambda>h. final_suspend k h (put_frame h (co_return x (frame s h)) s)) (co_running s ! k) else None)"
| "co_do (CL_stop src) s = Some (co_request_stop src s)"

lemma co_do_step: "co_do l s = Some t \<Longrightarrow> co_step s t"
proof (cases l)
  case (CL_start k)
  assume "co_do l s = Some t"
  then obtain ex h rest where "co_posted s = [] @ (ex, h) # rest" "k < length (co_running s)" "co_running s ! k = None"
      "t = put_thread k (Some ex) (Some h) (s\<lparr>co_posted := [] @ rest\<rparr>)"
    by (auto simp: CL_start split: list.splits if_splits)
  then show ?thesis by (metis co_step.start)
qed (auto split: if_splits simp: bind_eq_Some_conv intro: co_step.intros)

interpretation co_run: labelled_steps "\<lambda>s. s = co_init n" co_step co_do for n
  by unfold_locales (rule co_do_step)

lemmas co_run_simps =
  co_init_def promise_init_def put_frame_def put_thread_def co_post_def callbacks_of_def co_request_stop_def inherit_stop_token_def
  reset_stop_callback_def set_executor_def inherit_executor_def set_continuation_def detach_def init_spawned_promise_def
  spawn_detached_impl_def bind_executor_def await_suspend_def final_suspend_def switch_to_def Let_def

section \<open>Properties\<close>


definition nested_run :: "nat co_label list" where
  "nested_run = [CL_create, CL_create, CL_spawn 5 0 (Some (External 9)), CL_start 1, CL_await 1 1]"


text \<open>
  (C14) Requesting a stop stops exactly the sources that are reached through registered callbacks,
  whatever was stopped before; and in every state the stop of a coroutine has reached all the
  coroutines it awaits, directly or through others, whether the stop was requested before or after
  they were awaited.
\<close>

definition awaits :: "'v co_state \<Rightarrow> (nat \<times> nat) set" where
  "awaits s = {(h, c). c < length (co_frames s) \<and> pr_cont (frame s c) = Some h}"

theorem stop_reaches_awaited:
  assumes "co_reach n s"
  shows "co_stopped (co_request_stop src s) = co_stopped s \<union> (cb_edges (co_callbacks s))\<^sup>* `` {src} \<and>
    ((h, c) \<in> (awaits s)\<^sup>* \<and> Own h \<in> co_stopped s \<longrightarrow> Own c \<in> co_stopped s)"
proof (intro conjI impI)
  have inv: "co_inv s" using assms by (rule coroutines.reach_inv)
  show "co_stopped (co_request_stop src s) = co_stopped s \<union> (cb_edges (co_callbacks s))\<^sup>* `` {src}"
    by (rule co_request_stop_reaches [OF co_invD(3) [OF inv]])
  have step: "Own c \<in> co_stopped s" if "(a, c) \<in> awaits s" "Own a \<in> co_stopped s" for a c
    using that co_invD(3,4) [OF inv] by (fastforce simp: awaits_def awaited_ok_def stop_closed_def cb_edges_def)
  assume "(h, c) \<in> (awaits s)\<^sup>* \<and> Own h \<in> co_stopped s"
  then have "(h, c) \<in> (awaits s)\<^sup>*" "Own h \<in> co_stopped s" by simp_all
  then show "Own c \<in> co_stopped s" by (induction rule: rtrancl_induct) (blast intro: step)+
qed

theorem stop_reaches_awaited_witness:
  "\<exists>s. do_all co_do (nested_run @ [CL_stop (External 9)]) (co_init 2) = Some s \<and> (0, 1) \<in> awaits s \<and> Own 0 \<in> co_stopped s \<and>
     Own 1 \<in> co_stopped s"
proof -
  obtain s where s: "do_all co_do (nested_run @ [CL_stop (External 9)]) (co_init 2) = Some s" "(0, 1) \<in> awaits s" "Own 0 \<in> co_stopped s"
    by (simp add: nested_run_def co_run_simps awaits_def numeral_2_eq_2)
  have r: "co_reach 2 s" by (rule co_run.do_all_reach [OF reach_start s(1)]) simp
  from stop_reaches_awaited [OF r, of "Own 0" 0 1] show ?thesis using s by blast
qed

text \<open>
  The continuation of a coroutine is posted to the executor of the coroutine that ended, not to
  the executor of the one that goes on: after awaiting a coroutine bound to executor 7, a coroutine
  of executor 5 goes on on 7, and the body of the awaited one ran on 5.
\<close>

lemma continuation_on_foreign_executor:
  "\<exists>(s :: nat co_state) t. co_reach 1 s \<and> co_step s t \<and> co_running s = [Some 1] \<and> co_current s = [Some 5] \<and> pr_ex (frame s 1) = Some 7 \<and>
     pr_ex (frame t 0) = Some 5 \<and> co_posted t = [(7, 0)]"
proof -
  obtain s where s: "do_all co_do [CL_create, CL_create, CL_bind 7 1, CL_spawn 5 0 None, CL_start 0, CL_await 0 1] (co_init 1) = Some s"
      "co_running s = [Some 1]" "co_current s = [Some 5]" "pr_ex (frame s 1) = Some 7" "\<exists>t. co_do (CL_finish 0 (Inr (0 :: nat))) s = Some t \<and>
      pr_ex (frame t 0) = Some 5 \<and> co_posted t = [(7, 0)]"
    by (simp add: co_run_simps)
  then obtain t where t: "co_do (CL_finish 0 (Inr 0)) s = Some t" "pr_ex (frame t 0) = Some 5" "co_posted t = [(7, 0)]" by blast
  have r: "co_reach 1 s" by (rule co_run.do_all_reach [OF reach_start s(1)]) simp
  show ?thesis by (intro exI conjI) (rule r, rule co_do_step [OF t(1)], rule s(2), rule s(3), rule s(4), rule t(2), rule t(3))
qed

end
