(* ===== verification/Spawn.thy ===== *)
theory Spawn
  imports Prelude
begin

text \<open>
  Delivering the result of a spawned coroutine, \<open>detail/spawn.hpp\<close> and \<open>co_spawn.hpp\<close>.

  The coroutine ends with an exception or a value on one thread while another asks for the
  result. What happens under the mutex is one step; the callback that \<open>complete\<close> took out is called
  after it is released.
\<close>

datatype spawn_task_pc =
    T_run
  | T_stored          \<comment> \<open>value or exception stored, before \<open>complete()\<close>\<close>
  | T_call bool       \<comment> \<open>marked done; whether a callback was taken out\<close>
  | T_end

datatype 'v awaiter_state =
    W_start
  | W_unready         \<comment> \<open>\<open>await_ready\<close> returned false\<close>
  | W_suspended
  | W_resumed
  | W_got "(nat + 'v) option"

record 'v spawn_result_state =
  sr_done :: bool
  sr_waiter :: bool
  sr_resume :: bool
  sr_ep :: "nat option"
  sr_value :: "'v option"
  sr_posted :: nat
  sr_task :: spawn_task_pc
  sr_awaiter :: "'v awaiter_state"

definition spawn_result_init :: "'v spawn_result_state" where
  "spawn_result_init = \<lparr>sr_done = False, sr_waiter = False, sr_resume = False, sr_ep = None, sr_value = None, sr_posted = 0,
     sr_task = T_run, sr_awaiter = W_start\<rparr>"

text \<open>\<open>spawn_entry_point_with_completion\<close> passes the outcome on as an \<open>expected\<close>; the completion of \<open>use_awaitable\<close> stores it.\<close>

definition result_state_completion :: "nat + 'v \<Rightarrow> 'v spawn_result_state \<Rightarrow> 'v spawn_result_state" where
  "result_state_completion r s =
     (case r of Inl e \<Rightarrow> s\<lparr>sr_ep := Some e, sr_task := T_stored\<rparr> | Inr v \<Rightarrow> s\<lparr>sr_value := Some v, sr_task := T_stored\<rparr>)"

definition spawn_complete :: "'v spawn_result_state \<Rightarrow> 'v spawn_result_state" where
  "spawn_complete s =
     (if sr_done s then s\<lparr>sr_task := T_end\<rparr>
      else s\<lparr>sr_done := True, sr_resume := False, sr_task := T_call (sr_resume s)\<rparr>)"

definition spawn_resume_call :: "bool \<Rightarrow> 'v spawn_result_state \<Rightarrow> 'v spawn_result_state" where
  "spawn_resume_call callback s = s\<lparr>sr_posted := sr_posted s + (if callback then 1 else 0), sr_task := T_end\<rparr>"

definition spawn_await_ready :: "'v spawn_result_state \<Rightarrow> 'v spawn_result_state" where
  "spawn_await_ready s = s\<lparr>sr_awaiter := (if sr_done s then W_resumed else W_unready)\<rparr>"

text \<open>\<open>None\<close> is the violated check on a second awaiter.\<close>

definition spawn_await_suspend :: "'v spawn_result_state \<Rightarrow> 'v spawn_result_state option" where
  "spawn_await_suspend s =
     (if sr_done s then Some (s\<lparr>sr_awaiter := W_resumed\<rparr>)
      else if sr_waiter s then None
      else Some (s\<lparr>sr_waiter := True, sr_resume := True, sr_awaiter := W_suspended\<rparr>))"

definition spawn_resumed :: "'v spawn_result_state \<Rightarrow> 'v spawn_result_state" where
  "spawn_resumed s = s\<lparr>sr_posted := sr_posted s - 1, sr_awaiter := W_resumed\<rparr>"

text \<open>\<open>W_got None\<close> is the violated check on a missing value.\<close>

definition spawn_await_resume :: "'v spawn_result_state \<Rightarrow> 'v spawn_result_state" where
  "spawn_await_resume s =
     s\<lparr>sr_value := None, sr_awaiter := W_got (case sr_ep s of Some e \<Rightarrow> Some (Inl e) | None \<Rightarrow> map_option Inr (sr_value s))\<rparr>"

inductive spawn_step :: "nat + 'v \<Rightarrow> 'v spawn_result_state \<Rightarrow> 'v spawn_result_state \<Rightarrow> bool" for r :: "nat + 'v" where
  store: "sr_task s = T_run \<Longrightarrow> spawn_step r s (result_state_completion r s)"
| complete: "sr_task s = T_stored \<Longrightarrow> spawn_step r s (spawn_complete s)"
| call: "sr_task s = T_call callback \<Longrightarrow> spawn_step r s (spawn_resume_call callback s)"
| ready: "sr_awaiter s = W_start \<Longrightarrow> spawn_step r s (spawn_await_ready s)"
| suspend: "sr_awaiter s = W_unready \<Longrightarrow> spawn_await_suspend s = Some t \<Longrightarrow> spawn_step r s t"
| resumed: "sr_awaiter s = W_suspended \<Longrightarrow> 0 < sr_posted s \<Longrightarrow> spawn_step r s (spawn_resumed s)"
| result_taken: "sr_awaiter s = W_resumed \<Longrightarrow> spawn_step r s (spawn_await_resume s)"

section \<open>Invariant\<close>

definition outcome_in :: "nat + 'v \<Rightarrow> 'v spawn_result_state \<Rightarrow> bool" where
  "outcome_in r s \<longleftrightarrow> (case r of Inl e \<Rightarrow> sr_ep s = Some e | Inr v \<Rightarrow> sr_ep s = None \<and> sr_value s = Some v)"

text \<open>Where the task is, and what it still owes a suspended coroutine.\<close>

definition task_inv :: "nat + 'v \<Rightarrow> 'v spawn_result_state \<Rightarrow> bool" where
  "task_inv r s \<longleftrightarrow>
     (sr_task s = T_run \<longrightarrow> sr_ep s = None) \<and>
     (sr_task s = T_run \<or> sr_task s = T_stored \<longrightarrow> \<not> sr_done s \<and> (\<forall>x. sr_awaiter s \<noteq> W_got x) \<and> sr_awaiter s \<noteq> W_resumed) \<and>
     (sr_task s \<noteq> T_run \<and> sr_task s \<noteq> T_stored \<longrightarrow> sr_done s) \<and>
     (sr_task s \<noteq> T_run \<and> (\<forall>x. sr_awaiter s \<noteq> W_got x) \<longrightarrow> outcome_in r s)"

definition delivery_inv :: "nat + 'v \<Rightarrow> 'v spawn_result_state \<Rightarrow> bool" where
  "delivery_inv r s \<longleftrightarrow>
     (case sr_awaiter s of
        W_suspended \<Rightarrow>
          (if sr_done s then \<not> sr_resume s \<and> sr_posted s + (if sr_task s = T_call True then 1 else 0) = 1
           else sr_resume s \<and> sr_posted s = 0)
      | W_got x \<Rightarrow> x = Some r \<and> sr_posted s = 0 \<and> \<not> sr_resume s \<and> sr_task s \<noteq> T_call True
      | W_resumed \<Rightarrow> sr_posted s = 0 \<and> \<not> sr_resume s \<and> sr_task s \<noteq> T_call True
      | _ \<Rightarrow> sr_posted s = 0 \<and> \<not> sr_resume s \<and> sr_task s \<noteq> T_call True \<and> \<not> sr_waiter s)"

definition spawn_inv :: "nat + 'v \<Rightarrow> 'v spawn_result_state \<Rightarrow> bool" where
  "spawn_inv r s \<longleftrightarrow> task_inv r s \<and> delivery_inv r s"

lemma spawn_inv_init: "spawn_inv r spawn_result_init"
  by (simp add: spawn_inv_def task_inv_def delivery_inv_def spawn_result_init_def)

lemma spawn_inv_step: "spawn_step r s t \<Longrightarrow> spawn_inv r s \<Longrightarrow> spawn_inv r t"
proof (induction rule: spawn_step.induct)
  case (store s)
  then show ?case
    by (cases r; cases "sr_awaiter s") (simp_all add: spawn_inv_def task_inv_def delivery_inv_def result_state_completion_def outcome_in_def)
next
  case (complete s)
  then show ?case
    by (cases r; cases "sr_awaiter s") (simp_all add: spawn_inv_def task_inv_def delivery_inv_def spawn_complete_def outcome_in_def)
next
  case (call s callback)
  then show ?case
    by (cases r; cases "sr_awaiter s"; cases callback) (simp_all add: spawn_inv_def task_inv_def delivery_inv_def spawn_resume_call_def outcome_in_def)
next
  case (ready s)
  then show ?case
    by (cases r; cases "sr_task s") (simp_all add: spawn_inv_def task_inv_def delivery_inv_def spawn_await_ready_def outcome_in_def)
next
  case (suspend s t)
  then show ?case
    by (cases r; cases "sr_task s") (auto simp: spawn_inv_def task_inv_def delivery_inv_def spawn_await_suspend_def outcome_in_def split: if_splits)
next
  case (resumed s)
  then show ?case
    by (cases r; cases "sr_task s") (auto simp: spawn_inv_def task_inv_def delivery_inv_def spawn_resumed_def outcome_in_def split: if_splits)
next
  case (result_taken s)
  then show ?case
    by (cases r; cases "sr_task s") (auto simp: spawn_inv_def task_inv_def delivery_inv_def spawn_await_resume_def outcome_in_def split: if_splits)
qed

interpretation spawn: inductive_invariant "\<lambda>s. s = spawn_result_init" "spawn_step r" "spawn_inv r" for r
  by unfold_locales (simp add: spawn_inv_init, rule spawn_inv_step)

abbreviation spawn_reach :: "nat + 'v \<Rightarrow> 'v spawn_result_state \<Rightarrow> bool" where
  "spawn_reach r \<equiv> reach (\<lambda>s. s = spawn_result_init) (spawn_step r)"

section \<open>Interleavings as data\<close>

text \<open>Whether the task moves or the awaiting coroutine.\<close>

fun spawn_do :: "nat + 'v \<Rightarrow> bool \<Rightarrow> 'v spawn_result_state \<Rightarrow> 'v spawn_result_state option" where
  "spawn_do r True s =
     (case sr_task s of
        T_run \<Rightarrow> Some (result_state_completion r s)
      | T_stored \<Rightarrow> Some (spawn_complete s)
      | T_call callback \<Rightarrow> Some (spawn_resume_call callback s)
      | T_end \<Rightarrow> None)"
| "spawn_do r False s =
     (case sr_awaiter s of
        W_start \<Rightarrow> Some (spawn_await_ready s)
      | W_unready \<Rightarrow> spawn_await_suspend s
      | W_suspended \<Rightarrow> if 0 < sr_posted s then Some (spawn_resumed s) else None
      | W_resumed \<Rightarrow> Some (spawn_await_resume s)
      | W_got x \<Rightarrow> None)"

lemma spawn_do_step: "spawn_do r l s = Some t \<Longrightarrow> spawn_step r s t"
  by (cases l) (auto split: spawn_task_pc.splits awaiter_state.splits if_splits intro: spawn_step.intros)

interpretation spawn_run: labelled_steps "\<lambda>s. s = spawn_result_init" "spawn_step r" "spawn_do r" for r
  by unfold_locales (rule spawn_do_step)

lemmas spawn_run_simps =
  spawn_result_init_def result_state_completion_def spawn_complete_def spawn_resume_call_def spawn_await_ready_def
  spawn_await_suspend_def spawn_resumed_def spawn_await_resume_def

section \<open>Property\<close>

text \<open>
  (C13) \<open>co_spawn(use_awaitable)\<close>: in every interleaving the coroutine that awaits gets the outcome
  of the spawned one, value or exception, and hits no check; its resumption is posted at most once,
  and when the spawned coroutine is over, a suspended one has its resumption posted.
\<close>

theorem spawn_result_delivered:
  assumes "spawn_reach r s"
  shows "(sr_awaiter s = W_got x \<longrightarrow> x = Some r) \<and> sr_posted s \<le> 1 \<and>
    (sr_awaiter s = W_unready \<longrightarrow> spawn_await_suspend s \<noteq> None) \<and>
    (sr_awaiter s = W_suspended \<and> sr_task s = T_end \<longrightarrow> sr_posted s = 1)"
proof -
  have inv: "task_inv r s" "delivery_inv r s" using spawn.reach_inv [OF assms] by (simp_all add: spawn_inv_def)
  show ?thesis
  proof (intro conjI impI)
    show "x = Some r" if "sr_awaiter s = W_got x" using inv(2) that by (simp add: delivery_inv_def)
    show "sr_posted s \<le> 1" using inv(2) by (cases "sr_awaiter s") (auto simp: delivery_inv_def split: if_splits)
    show "spawn_await_suspend s \<noteq> None" if "sr_awaiter s = W_unready" using inv(2) that by (simp add: delivery_inv_def spawn_await_suspend_def)
    show "sr_posted s = 1" if "sr_awaiter s = W_suspended \<and> sr_task s = T_end"
      using inv that by (auto simp: delivery_inv_def task_inv_def split: if_splits)
  qed
qed

definition handover_run :: "bool list" where
  "handover_run = [False, True, False, True, True, False, False]"

theorem spawn_result_delivered_witness:
  "\<exists>s. do_all (spawn_do (Inr (42 :: nat))) handover_run spawn_result_init = Some s \<and> sr_awaiter s = W_got (Some (Inr 42)) \<and>
     sr_posted s \<le> 1"
proof -
  obtain s where s: "do_all (spawn_do (Inr (42 :: nat))) handover_run spawn_result_init = Some s" "sr_awaiter s = W_got (Some (Inr 42))"
    by (simp add: handover_run_def spawn_run_simps)
  have "spawn_reach (Inr 42) s" by (rule spawn_run.do_all_reach [OF reach_start s(1)]) simp
  from spawn_result_delivered [OF this, of "Some (Inr 42)"] show ?thesis using s by blast
qed

end
