(* ===== verification/Starting.thy ===== *)
theory Starting
  imports Coroutine Spawn
begin

text \<open>
  Starting coroutines: \<open>spawn_task\<close> and the entry point of \<open>detail/spawn.hpp\<close>, the overloads of
  \<open>co_spawn.hpp\<close>, and how \<open>when_all\<close>, \<open>when_any\<close> and \<open>when_any_cancel_join\<close> start what they
  wait for. The state adds to that of \<open>Coroutine\<close> what each entry coroutine was given, a factory
  and a completion, and how many result states were made.
\<close>

section \<open>Entry coroutines\<close>

text \<open>
  A factory is a user's callable, the callable that hands out a given coroutine, or the one that
  makes the runner of the task at an index.
\<close>

datatype factory = F_user nat | F_awaitable nat | F_runner nat nat

datatype completion = C_detached | C_result nat | C_callback nat

record 'v start_sys =
  st_co :: "'v co_state"
  st_entries :: "nat \<rightharpoonup> factory \<times> completion"
  st_results :: nat

text \<open>
  A user's completion takes the outcome and changes the state of the program, and may throw,
  which its flag says; that of \<open>use_awaitable\<close> stores the outcome and is followed by
  \<open>complete()\<close>.
\<close>

type_synonym ('v, 's) completion_fn = "nat + 'v \<Rightarrow> 's \<Rightarrow> 's \<times> bool"

definition detached_completion :: "('v, 's) completion_fn" where
  "detached_completion r s = (s, False)"

definition result_completion :: "('v, 'v spawn_result_state) completion_fn" where
  "result_completion r s = (spawn_complete (result_state_completion r s), False)"

definition safe_invoke_completion :: "('v, 's) completion_fn \<Rightarrow> nat + 'v \<Rightarrow> 's \<Rightarrow> 's" where
  "safe_invoke_completion c r s = fst (c r s)"

text \<open>
  The body of an entry coroutine, given how the awaited coroutine ended (\<open>Inl\<close> an exception);
  its own outcome comes last.
\<close>

definition spawn_entry_point :: "('v, 's) completion_fn \<Rightarrow> nat + 'v \<Rightarrow> 's \<Rightarrow> 's \<times> (nat + unit)" where
  "spawn_entry_point c outcome s =
     (case outcome of
        Inr v \<Rightarrow> (safe_invoke_completion c (Inr v) s, Inr ())
      | Inl e \<Rightarrow> (safe_invoke_completion c (Inl e) s, Inr ()))"

definition spawn_task :: "nat option \<Rightarrow> stop_id option \<Rightarrow> factory \<Rightarrow> completion \<Rightarrow> 'v start_sys \<Rightarrow> 'v start_sys option" where
  "spawn_task ex token f c s =
     (let h = length (co_frames (st_co s)); s1 = (st_co s)\<lparr>co_frames := co_frames (st_co s) @ [promise_init]\<rparr>
      in map_option (\<lambda>t. s\<lparr>st_co := t, st_entries := (st_entries s)(h \<mapsto> (f, c))\<rparr>) (spawn_detached_impl ex token h s1))"

section \<open>The overloads of co\_spawn\<close>

text \<open>The second component is the result state an awaitable for the result was made from.\<close>

datatype completion_token = Detached | Use_awaitable | Callback nat

definition co_spawn ::
  "nat option \<Rightarrow> stop_id option \<Rightarrow> factory \<Rightarrow> completion_token \<Rightarrow> 'v start_sys \<Rightarrow> ('v start_sys \<times> nat option) option" where
  "co_spawn ex token f tok s =
     (case tok of
        Detached \<Rightarrow> map_option (\<lambda>t. (t, None)) (spawn_task ex token f C_detached s)
      | Use_awaitable \<Rightarrow>
          (let r = st_results s
           in map_option (\<lambda>t. (t, Some r)) (spawn_task ex token f (C_result r) (s\<lparr>st_results := Suc r\<rparr>)))
      | Callback c \<Rightarrow> map_option (\<lambda>t. (t, None)) (spawn_task ex token f (C_callback c) s))"

definition co_spawn_awaitable ::
  "nat option \<Rightarrow> stop_id option \<Rightarrow> nat \<Rightarrow> completion_token \<Rightarrow> 'v start_sys \<Rightarrow> ('v start_sys \<times> nat option) option" where
  "co_spawn_awaitable ex token a tok s = co_spawn ex token (F_awaitable a) tok s"

section \<open>Starting the tasks of when\_all and when\_any\<close>

definition task_executor :: "nat option \<Rightarrow> nat \<Rightarrow> 'v start_sys \<Rightarrow> nat option" where
  "task_executor fallback t s = (case pr_ex (frame (st_co s) t) of None \<Rightarrow> fallback | Some e \<Rightarrow> Some e)"

primrec when_start :: "nat option \<Rightarrow> stop_id option \<Rightarrow> nat \<Rightarrow> nat list \<Rightarrow> 'v start_sys \<Rightarrow> 'v start_sys option" where
  "when_start fallback token i [] s = Some s"
| "when_start fallback token i (t # ts) s =
     (case spawn_task (task_executor fallback t s) token (F_runner i t) C_detached s of
        None \<Rightarrow> None
      | Some s1 \<Rightarrow> when_start fallback token (Suc i) ts s1)"

text \<open>
  What coroutine \<open>h\<close> does until it waits; the flag says whether it waits at all. \<open>None\<close>: an
  \<open>IOCORO_ENSURE\<close> fails.
\<close>

definition when_all_begin :: "nat \<Rightarrow> nat list \<Rightarrow> 'v start_sys \<Rightarrow> (bool \<times> 'v start_sys) option" where
  "when_all_begin h tasks s =
     (if tasks = [] then Some (False, s)
      else (case pr_ex (frame (st_co s) h) of
              None \<Rightarrow> None
            | Some ex \<Rightarrow> map_option (Pair True) (when_start (Some ex) (Some (Own h)) 0 tasks s)))"

definition when_any_begin :: "nat \<Rightarrow> nat list \<Rightarrow> 'v start_sys \<Rightarrow> (bool \<times> 'v start_sys) option" where
  "when_any_begin h tasks s = (if tasks = [] then None else when_all_begin h tasks s)"

definition cancel_join_begin :: "nat \<Rightarrow> nat \<Rightarrow> nat \<Rightarrow> 'v start_sys \<Rightarrow> ('v start_sys \<times> nat option \<times> nat option) option" where
  "cancel_join_begin h a b s =
     (case pr_ex (frame (st_co s) h) of
        None \<Rightarrow> None
      | Some ex \<Rightarrow>
          (case co_spawn (task_executor (Some ex) a s) (Some (Own h)) (F_runner 0 a) Use_awaitable s of
             None \<Rightarrow> None
           | Some (s1, ra) \<Rightarrow>
               (case co_spawn (task_executor (Some ex) b s1) (Some (Own h)) (F_runner 1 b) Use_awaitable s1 of
                  None \<Rightarrow> None
                | Some (s2, rb) \<Rightarrow> Some (s2, ra, rb))))"

section \<open>What a start does\<close>

text \<open>
  \<open>started_as s ex token h t\<close>: from \<open>s\<close> to \<open>t\<close> one coroutine \<open>h\<close> was added and posted to \<open>ex\<close>,
  and it follows the stop token.
\<close>

definition follows :: "stop_id option \<Rightarrow> nat \<Rightarrow> 'v co_state \<Rightarrow> bool" where
  "follows token h s \<longleftrightarrow> (case token of None \<Rightarrow> True | Some src \<Rightarrow> (src, h) \<in> set (co_callbacks s) \<or> Own h \<in> co_stopped s)"

lemma co_create_step: "co_inv s \<Longrightarrow> co_inv (s\<lparr>co_frames := co_frames s @ [promise_init]\<rparr>)"
  using co_inv_step [OF co_step.create] .

lemma spawn_detached_fresh:
  assumes inv: "co_inv s" and h: "h < length (co_frames s)" "pr_life (frame s h) = Created" and ex: "ex \<noteq> None \<or> pr_ex (frame s h) \<noteq> None"
  obtains e t where "spawn_detached_impl ex token h s = Some t" "e = (case ex of None \<Rightarrow> the (pr_ex (frame s h)) | Some x \<Rightarrow> x)"
    "length (co_frames t) = length (co_frames s)" "\<And>i. i \<noteq> h \<Longrightarrow> co_frames t ! i = co_frames s ! i"
    "co_posted t = co_posted s @ [(e, h)]" "follows token h t"
    "set (co_callbacks s) \<subseteq> set (co_callbacks t)" "co_stopped s \<subseteq> co_stopped t" "co_step s t"
proof -
  define p where "p = (if ex = None then frame s h else set_executor ex (frame s h))"
  define s1 where "s1 = inherit_stop_token h token (if ex = None then s else put_frame h (set_executor ex (frame s h)) s)"
  have s1: "co_frames s1 = (co_frames s)[h := p]" "co_callbacks s1 = co_callbacks (inherit_stop_token h token s)"
      "co_stopped s1 = co_stopped (inherit_stop_token h token s)" "co_posted s1 = co_posted s"
    by (simp_all add: s1_def p_def) (simp_all add: inherit_stop_token_def co_request_stop_def put_frame_def split: option.split)
  obtain e where e: "pr_ex p = Some e" "e = (case ex of None \<Rightarrow> the (pr_ex (frame s h)) | Some x \<Rightarrow> x)"
    using ex by (cases ex) (auto simp: p_def set_executor_def)
  let ?t = "co_post e h (put_frame h (p\<lparr>pr_detached := True, pr_life := Live\<rparr>) s1)"
  have "init_spawned_promise ex token h s = Some s1"
    using h(1) e(1) by (auto simp: init_spawned_promise_def Let_def s1_def p_def)
  then have t: "spawn_detached_impl ex token h s = Some ?t" using h(1) e(1) by (simp add: spawn_detached_impl_def detach_def s1(1))
  have dead: "\<not> live s h" using h(2) by (simp add: live_def)
  note fresh = inherit_fresh [OF inv dead, where tok = token]
  have "follows token h ?t" using fresh(5) by (cases token) (auto simp: follows_def s1)
  then show thesis
    by (rule that [OF t e(2), rotated 3])
      (use fresh(2,3) s1 co_step.spawn [OF h t] in \<open>simp_all add: co_post_def put_frame_def\<close>)
qed

lemma spawn_task_ok:
  assumes inv: "co_inv (st_co s)" and n: "n = length (co_frames (st_co s))"
  obtains t where "spawn_task (Some e) token f c s = Some t" "co_inv (st_co t)" "length (co_frames (st_co t)) = Suc n"
    "\<forall>i < n. co_frames (st_co t) ! i = co_frames (st_co s) ! i" "co_posted (st_co t) = co_posted (st_co s) @ [(e, n)]"
    "st_entries t = (st_entries s)(n \<mapsto> (f, c))" "st_results t = st_results s" "follows token n (st_co t)"
    "set (co_callbacks (st_co s)) \<subseteq> set (co_callbacks (st_co t))" "co_stopped (st_co s) \<subseteq> co_stopped (st_co t)"
    "co_step\<^sup>*\<^sup>* (st_co s) (st_co t)"
proof -
  let ?s1 = "(st_co s)\<lparr>co_frames := co_frames (st_co s) @ [promise_init]\<rparr>"
  have c: "co_step (st_co s) ?s1" by (rule co_step.create)
  have i1: "co_inv ?s1" by (rule co_create_step [OF inv])
  obtain t where t: "spawn_detached_impl (Some e) token n ?s1 = Some t" "length (co_frames t) = length (co_frames ?s1)"
      "\<And>i. i \<noteq> n \<Longrightarrow> co_frames t ! i = co_frames ?s1 ! i" "co_posted t = co_posted ?s1 @ [(e, n)]" "follows token n t"
      "set (co_callbacks ?s1) \<subseteq> set (co_callbacks t)" "co_stopped ?s1 \<subseteq> co_stopped t" "co_step ?s1 t"
    by (rule spawn_detached_fresh [OF i1, of n "Some e" token]) (simp_all add: n promise_init_def)
  have "co_step\<^sup>*\<^sup>* (st_co s) t" using c t(8) by (meson converse_rtranclp_into_rtranclp rtranclp.rtrancl_refl)
  moreover have "co_inv t" by (rule co_inv_step [OF t(8) i1])
  ultimately show thesis
    by (intro that [of "s\<lparr>st_co := t, st_entries := (st_entries s)(n \<mapsto> (f, c))\<rparr>"])
      (use t in \<open>simp_all add: spawn_task_def Let_def n nth_append\<close>)
qed

lemma follows_mono:
  "follows token h s \<Longrightarrow> set (co_callbacks s) \<subseteq> set (co_callbacks t) \<Longrightarrow> co_stopped s \<subseteq> co_stopped t \<Longrightarrow> follows token h t"
  by (auto simp: follows_def split: option.splits)

text \<open>What \<open>when_start\<close> has done: \<open>n\<close> frames were there before, the first task has the index \<open>i\<close>.\<close>

definition when_started :: "nat \<Rightarrow> stop_id option \<Rightarrow> nat \<Rightarrow> nat \<Rightarrow> nat list \<Rightarrow> 'v start_sys \<Rightarrow> 'v start_sys \<Rightarrow> bool" where
  "when_started ex token i n tasks s u \<longleftrightarrow>
     co_inv (st_co u) \<and> co_step\<^sup>*\<^sup>* (st_co s) (st_co u) \<and>
     co_posted (st_co u) = co_posted (st_co s) @ zip (map (\<lambda>t. the (task_executor (Some ex) t s)) tasks) [n..<n + length tasks] \<and>
     (\<forall>j < n. frame (st_co u) j = frame (st_co s) j \<and> st_entries u j = st_entries s j) \<and>
     (\<forall>j < length tasks. st_entries u (n + j) = Some (F_runner (i + j) (tasks ! j), C_detached) \<and> follows token (n + j) (st_co u)) \<and>
     set (co_callbacks (st_co s)) \<subseteq> set (co_callbacks (st_co u)) \<and> co_stopped (st_co s) \<subseteq> co_stopped (st_co u)"

lemma when_started_Cons:
  assumes u: "when_started ex token (Suc i) (Suc n) ts s1 u"
    and s1: "\<forall>i < n. frame (st_co s1) i = frame (st_co s) i" "co_posted (st_co s1) = co_posted (st_co s) @ [(e, n)]"
      "st_entries s1 = (st_entries s)(n \<mapsto> (F_runner i t, C_detached))" "follows token n (st_co s1)"
      "set (co_callbacks (st_co s)) \<subseteq> set (co_callbacks (st_co s1))" "co_stopped (st_co s) \<subseteq> co_stopped (st_co s1)"
      "co_step\<^sup>*\<^sup>* (st_co s) (st_co s1)"
    and e: "task_executor (Some ex) t s = Some e" and ts: "\<forall>t \<in> set ts. t < n"
  shows "when_started ex token i n (t # ts) s u"
proof -
  have "\<forall>x \<in> set ts. task_executor (Some ex) x s1 = task_executor (Some ex) x s" using s1(1) ts by (simp add: task_executor_def)
  then have execs: "map (\<lambda>t. the (task_executor (Some ex) t s1)) ts = map (\<lambda>t. the (task_executor (Some ex) t s)) ts" by simp
  have upt: "[n..<n + length (t # ts)] = n # [Suc n..<Suc n + length ts]"
    using upt_conv_Cons [of n "n + length (t # ts)"] by simp
  have "co_posted (st_co u) = co_posted (st_co s1) @ zip (map (\<lambda>t. the (task_executor (Some ex) t s1)) ts) [Suc n..<Suc n + length ts]"
    using u by (simp only: when_started_def)
  then have posted: "co_posted (st_co u) = co_posted (st_co s) @ zip (map (\<lambda>t. the (task_executor (Some ex) t s)) (t # ts)) [n..<n + length (t # ts)]"
    unfolding execs s1(2) upt by (simp add: e)
  have mono: "set (co_callbacks (st_co s1)) \<subseteq> set (co_callbacks (st_co u))" "co_stopped (st_co s1) \<subseteq> co_stopped (st_co u)"
    "co_step\<^sup>*\<^sup>* (st_co s1) (st_co u)" "co_inv (st_co u)" using u by (simp_all add: when_started_def)
  have old: "\<forall>j < Suc n. frame (st_co u) j = frame (st_co s1) j \<and> st_entries u j = st_entries s1 j"
    and new: "\<forall>j < length ts. st_entries u (Suc n + j) = Some (F_runner (Suc i + j) (ts ! j), C_detached) \<and> follows token (Suc n + j) (st_co u)"
    using u unfolding when_started_def by blast+
  have "st_entries u (n + j) = Some (F_runner (i + j) ((t # ts) ! j), C_detached) \<and> follows token (n + j) (st_co u)"
    if "j < length (t # ts)" for j
  proof (cases j)
    case 0
    then show ?thesis using old s1(3) follows_mono [OF s1(4) mono(1,2)] by simp
  next
    case (Suc k)
    then show ?thesis using new that by simp
  qed
  then show ?thesis
    unfolding when_started_def
    using posted mono(4) rtranclp_trans [OF s1(7) mono(3)] order_trans [OF s1(5) mono(1)] order_trans [OF s1(6) mono(2)] old s1(1,3)
    by (intro conjI) simp_all
qed

lemma when_start_ok:
  "co_inv (st_co s) \<Longrightarrow> n = length (co_frames (st_co s)) \<Longrightarrow> \<forall>t \<in> set tasks. t < n \<Longrightarrow>
   \<exists>u. when_start (Some ex) token i tasks s = Some u \<and> when_started ex token i n tasks s u"
proof (induction tasks arbitrary: s i n)
  case Nil
  then show ?case by (simp add: when_started_def)
next
  case (Cons t ts)
  obtain e where e: "task_executor (Some ex) t s = Some e" by (cases "pr_ex (frame (st_co s) t)") (simp_all add: task_executor_def)
  obtain s1 where s1: "spawn_task (Some e) token (F_runner i t) C_detached s = Some s1" "co_inv (st_co s1)" "length (co_frames (st_co s1)) = Suc n"
      "\<forall>i < n. co_frames (st_co s1) ! i = co_frames (st_co s) ! i" "co_posted (st_co s1) = co_posted (st_co s) @ [(e, n)]"
      "st_entries s1 = (st_entries s)(n \<mapsto> (F_runner i t, C_detached))" "st_results s1 = st_results s" "follows token n (st_co s1)"
      "set (co_callbacks (st_co s)) \<subseteq> set (co_callbacks (st_co s1))" "co_stopped (st_co s) \<subseteq> co_stopped (st_co s1)"
      "co_step\<^sup>*\<^sup>* (st_co s) (st_co s1)"
    by (rule spawn_task_ok [OF Cons.prems(1,2), of e token "F_runner i t" C_detached])
  have "\<forall>x \<in> set ts. x < Suc n" using Cons.prems(3) by (simp add: less_Suc_eq)
  then obtain u where u: "when_start (Some ex) token (Suc i) ts s1 = Some u" "when_started ex token (Suc i) (Suc n) ts s1 u"
    using Cons.IH [OF s1(2) s1(3) [symmetric], of "Suc i"] by blast
  have "when_started ex token i n (t # ts) s u"
    by (rule when_started_Cons [OF u(2) s1(4,5,6,8-11) e]) (use Cons.prems(3) in simp_all)
  then show ?case using u(1) s1(1) e by simp
qed

section \<open>Properties\<close>

text \<open>
  (C17) Starting the tasks of \<open>when_all\<close>: called by a coroutine with an executor, no check fails;
  for every task, in order, one entry coroutine is made with the runner of that task and posted
  once, to the executor the task is bound to or else to the caller's, and a stop of the caller
  reaches it; the tasks themselves are left as they were, and the whole is a sequence of steps
  of the coroutine model, whose invariant holds at the end. Without tasks nothing is started.
\<close>

theorem when_all_starts_every_task:
  assumes "co_inv (st_co s)" "pr_ex (frame (st_co s) h) = Some ex" "\<forall>t \<in> set tasks. t < n" "n = length (co_frames (st_co s))"
  shows "\<exists>u. when_all_begin h tasks s = Some (tasks \<noteq> [], u) \<and> co_inv (st_co u) \<and> co_step\<^sup>*\<^sup>* (st_co s) (st_co u) \<and>
     co_posted (st_co u) = co_posted (st_co s) @ zip (map (\<lambda>t. case pr_ex (frame (st_co s) t) of None \<Rightarrow> ex | Some e \<Rightarrow> e) tasks) [n..<n + length tasks] \<and>
     (\<forall>j < n. frame (st_co u) j = frame (st_co s) j) \<and>
     (\<forall>j < length tasks. st_entries u (n + j) = Some (F_runner j (tasks ! j), C_detached) \<and>
        ((Own h, n + j) \<in> set (co_callbacks (st_co u)) \<or> Own (n + j) \<in> co_stopped (st_co u)))"
proof -
  have ex: "the (task_executor (Some ex) t s) = (case pr_ex (frame (st_co s) t) of None \<Rightarrow> ex | Some e \<Rightarrow> e)" for t
    by (simp add: task_executor_def split: option.split)
  obtain u where u: "when_start (Some ex) (Some (Own h)) 0 tasks s = Some u" "when_started ex (Some (Own h)) 0 n tasks s u"
    using when_start_ok [OF assms(1,4,3)] by blast
  have "when_all_begin h tasks s = Some (tasks \<noteq> [], u)" using u(1) assms(2) by (auto simp: when_all_begin_def)
  then show ?thesis using u(2) by (intro exI [of _ u]) (simp add: when_started_def ex follows_def)
qed

definition start_ex :: "nat start_sys" where
  "start_ex = \<lparr>st_co = \<lparr>co_frames = [promise_init\<lparr>pr_ex := Some 7, pr_detached := True, pr_life := Live\<rparr>, promise_init, promise_init\<lparr>pr_ex := Some 9\<rparr>],
     co_current = [Some 7], co_running = [Some 0], co_posted = [], co_waiting = [], co_stopped = {}, co_callbacks = []\<rparr>,
     st_entries = \<lambda>_. None, st_results = 0\<rparr>"

lemma start_ex_inv: "co_inv (st_co start_ex)"
proof -
  have "do_all co_do [CL_create, CL_spawn 7 0 None, CL_start 0, CL_create, CL_create, CL_bind 9 2] (co_init 1) = Some (st_co start_ex)"
    by (simp add: start_ex_def co_run_simps)
  then have "co_reach 1 (st_co start_ex)" by (rule co_run.do_all_reach [OF reach_start, OF refl])
  then show ?thesis by (rule coroutines.reach_inv)
qed

theorem when_all_starts_every_task_witness:
  "\<exists>u. when_all_begin 0 [1, 2] start_ex = Some (True, u) \<and> co_posted (st_co u) = [(7, 3), (9, 4)]"
  using when_all_starts_every_task [OF start_ex_inv, of 0 7 "[1, 2]" 3]
  by (auto simp: start_ex_def promise_init_def upt_conv_Cons)

text \<open>
  An entry coroutine ends without an exception, and the completion it calls has been given the
  outcome exactly once, whether or not the completion throws.
\<close>

lemma spawn_entry_calls_completion: "spawn_entry_point c outcome s = (fst (c outcome s), Inr ())"
  by (simp add: spawn_entry_point_def safe_invoke_completion_def split: sum.split)

text \<open>The overloads fail only without any executor, and give a result state to \<open>use_awaitable\<close> alone.\<close>

lemma co_spawn_total:
  assumes "co_inv (st_co s)"
  shows "\<exists>u. co_spawn (Some ex) token f tok s = Some (u, if tok = Use_awaitable then Some (st_results s) else None) \<and>
    co_posted (st_co u) = co_posted (st_co s) @ [(ex, length (co_frames (st_co s)))]"
proof (cases tok)
  case Use_awaitable
  let ?s = "s\<lparr>st_results := Suc (st_results s)\<rparr>"
  obtain u where "spawn_task (Some ex) token f (C_result (st_results s)) ?s = Some u"
      "co_posted (st_co u) = co_posted (st_co ?s) @ [(ex, length (co_frames (st_co ?s)))]"
    by (rule spawn_task_ok [of ?s _ ex token f "C_result (st_results s)"]) (use assms in simp_all)
  then show ?thesis using Use_awaitable by (simp add: co_spawn_def)
next
  case Detached
  then show ?thesis using spawn_task_ok [OF assms refl, of ex token f C_detached] by (fastforce simp: co_spawn_def)
next
  case (Callback c)
  then show ?thesis using spawn_task_ok [OF assms refl, of ex token f "C_callback c"] by (fastforce simp: co_spawn_def)
qed

end
