(* ===== verification/Executors.thy ===== *)
theory Executors
  imports Prelude PostedQueue
begin

text \<open>
  Executors: \<open>io_context::executor_type\<close>, \<open>thread_pool::executor_type\<close> and
  \<open>strand_executor\<close> behind \<open>any_executor\<close> and \<open>any_io_executor\<close>, the capability query
  \<open>executor_traits\<close>, the conversion \<open>to_io_executor\<close>, the thread-local current executor
  with its \<open>executor_guard\<close>, \<open>post\<close> and \<open>dispatch\<close> through any nesting of strands, and the
  work guards. The queues behind the executors are modelled in detail by \<open>PostedQueue\<close>,
  \<open>ThreadPool\<close> and \<open>Strand\<close>; here they are lists, and the subject is where a callable runs
  and which executor is the current one while it does.
\<close>

unbundle bit_operations_syntax

section \<open>Executors and capabilities\<close>

text \<open>
  A shared pointer to a context, pool or strand state is a number, null is \<open>None\<close>. A strand
  state owns its base, an \<open>any_executor\<close>, which is an optional executor: an empty erased
  storage is \<open>None\<close>, while a default constructed concrete executor inside it is not.
\<close>

datatype executor =
    Io_executor "nat option"
  | Pool_executor "nat option"
  | Strand_executor "nat option" "executor option"

type_synonym any_executor = "executor option"

fun ex_equal :: "executor \<Rightarrow> executor \<Rightarrow> bool" where
  "ex_equal (Io_executor a) (Io_executor b) = (a = b)"
| "ex_equal (Pool_executor a) (Pool_executor b) = (a = b)"
| "ex_equal (Strand_executor a _) (Strand_executor b _) = (a = b)"
| "ex_equal _ _ = False"

fun any_equal :: "any_executor \<Rightarrow> any_executor \<Rightarrow> bool" where
  "any_equal None None = True"
| "any_equal (Some a) (Some b) = ex_equal a b"
| "any_equal _ _ = False"

fun ex_valid :: "executor \<Rightarrow> bool" where
  "ex_valid (Io_executor c) = (c \<noteq> None)"
| "ex_valid (Pool_executor p) = (p \<noteq> None)"
| "ex_valid (Strand_executor s b) = (s \<noteq> None \<and> b \<noteq> None)"

type_synonym executor_capability = u8

definition cap_none :: executor_capability where "cap_none = 0"

definition cap_io :: executor_capability where "cap_io = push_bit 0 1"

definition has_capability :: "executor_capability \<Rightarrow> executor_capability \<Rightarrow> bool" where
  "has_capability caps flag \<longleftrightarrow> caps AND flag \<noteq> cap_none"

text \<open>The specialisations of \<open>executor_traits\<close>.\<close>

definition io_ex_capabilities :: "nat option \<Rightarrow> executor_capability" where
  "io_ex_capabilities impl = (if impl \<noteq> None then cap_io else cap_none)"

definition io_ex_context :: "nat option \<Rightarrow> nat option" where
  "io_ex_context impl = impl"

definition pool_ex_capabilities :: "nat option \<Rightarrow> executor_capability" where
  "pool_ex_capabilities state = cap_none"

definition pool_ex_context :: "nat option \<Rightarrow> nat option" where
  "pool_ex_context state = None"

fun capabilities :: "executor \<Rightarrow> executor_capability" where
  "capabilities (Io_executor c) = io_ex_capabilities c"
| "capabilities (Pool_executor p) = pool_ex_capabilities p"
| "capabilities (Strand_executor None _) = cap_none"
| "capabilities (Strand_executor (Some _) None) = cap_none"
| "capabilities (Strand_executor (Some _) (Some b)) = capabilities b"

fun io_context_of :: "executor \<Rightarrow> nat option" where
  "io_context_of (Io_executor c) = io_ex_context c"
| "io_context_of (Pool_executor p) = pool_ex_context p"
| "io_context_of (Strand_executor None _) = None"
| "io_context_of (Strand_executor (Some _) None) = None"
| "io_context_of (Strand_executor (Some _) (Some b)) = io_context_of b"

lemmas traits_defs [simp] = io_ex_capabilities_def io_ex_context_def pool_ex_capabilities_def pool_ex_context_def

definition any_capabilities :: "any_executor \<Rightarrow> executor_capability" where
  "any_capabilities ex = (case ex of None \<Rightarrow> cap_none | Some e \<Rightarrow> capabilities e)"

definition any_io_context :: "any_executor \<Rightarrow> nat option" where
  "any_io_context ex = (case ex of None \<Rightarrow> None | Some e \<Rightarrow> io_context_of e)"

definition supports_io :: "any_executor \<Rightarrow> bool" where
  "supports_io ex = has_capability (any_capabilities ex) cap_io"

section \<open>IO executors\<close>

record any_io_executor =
  ai_storage :: any_executor
  ai_impl :: "nat option"

definition empty_io_executor :: any_io_executor where
  "empty_io_executor = \<lparr>ai_storage = None, ai_impl = None\<rparr>"

text \<open>\<open>None\<close>: one of the two \<open>IOCORO_ENSURE\<close> of the constructor fails.\<close>

definition make_any_io :: "any_executor \<Rightarrow> any_io_executor option" where
  "make_any_io ex =
     (if ex = None then Some empty_io_executor
      else if \<not> has_capability (any_capabilities ex) cap_io then None
      else if any_io_context ex = None then None
      else Some \<lparr>ai_storage = ex, ai_impl = any_io_context ex\<rparr>)"

definition any_of_io :: "any_io_executor \<Rightarrow> any_executor" where
  "any_of_io r = ai_storage r"

definition io_traits_capabilities :: "any_io_executor \<Rightarrow> executor_capability" where
  "io_traits_capabilities r = (if ai_storage r = None then cap_none else any_capabilities (ai_storage r))"

definition io_stopped :: "(nat \<Rightarrow> bool) \<Rightarrow> any_io_executor \<Rightarrow> bool" where
  "io_stopped stopped r = (case ai_impl r of None \<Rightarrow> True | Some c \<Rightarrow> stopped c)"

definition to_io_executor :: "any_executor \<Rightarrow> any_io_executor option" where
  "to_io_executor ex =
     (if ex = None then Some empty_io_executor
      else if \<not> supports_io ex then Some empty_io_executor
      else if any_io_context ex = None then Some empty_io_executor
      else make_any_io ex)"

definition context_executor :: "nat \<Rightarrow> any_io_executor option" where
  "context_executor c = make_any_io (Some (Io_executor (Some c)))"

lemma has_cap_io [simp]: "has_capability cap_io cap_io" "\<not> has_capability cap_none cap_io"
  by (simp_all add: has_capability_def cap_io_def cap_none_def)

text \<open>An executor reports the IO capability exactly when it leads to a context.\<close>

lemma capability_iff_context: "has_capability (capabilities e) cap_io \<longleftrightarrow> io_context_of e \<noteq> None"
  by (induction e rule: capabilities.induct) auto

lemma supports_io_iff: "supports_io ex \<longleftrightarrow> any_io_context ex \<noteq> None"
  by (cases ex) (simp_all add: supports_io_def any_capabilities_def any_io_context_def capability_iff_context)

text \<open>
  Turning an executor into an IO executor: \<open>to_io_executor\<close> never fails a check; it
  gives the empty executor exactly for executors without the IO capability, and otherwise
  one that converts back to the same executor and holds the context found under every
  strand, so that it is stopped exactly when that context is. The converting constructor
  fails its check exactly on a non-empty executor without the capability, and the second
  check, on the context pointer, never fails after the first.
\<close>

lemma io_executor_conversion:
  "\<exists>r. to_io_executor ex = Some r \<and>
     (ai_storage r = None \<longleftrightarrow> \<not> supports_io ex) \<and>
     ai_impl r = any_io_context ex \<and>
     io_traits_capabilities r = (if supports_io ex then any_capabilities ex else cap_none) \<and>
     io_stopped stopped r = (case any_io_context ex of None \<Rightarrow> True | Some c \<Rightarrow> stopped c) \<and>
     make_any_io ex = (if ex \<noteq> None \<and> \<not> supports_io ex then None else Some r) \<and>
     (supports_io ex = (any_of_io r = ex \<and> ex \<noteq> None))"
  using supports_io_iff [of ex]
  by (cases ex) (auto simp: to_io_executor_def make_any_io_def supports_io_def empty_io_executor_def any_of_io_def
      io_traits_capabilities_def io_stopped_def any_io_context_def any_capabilities_def)

lemma context_executor_total:
  "context_executor c = Some \<lparr>ai_storage = Some (Io_executor (Some c)), ai_impl = Some c\<rparr>"
  by (simp add: context_executor_def make_any_io_def any_capabilities_def any_io_context_def)

end
