(* ===== verification/ExecutorThreads.thy ===== *)
theory ExecutorThreads
  imports Executors
begin

text \<open>
  Where submitted callables run. Any number of threads run user code, the loops of contexts
  and the workers of pools; user code posts and dispatches callables to executors, directly
  or through strands on strands. Each thread has its \<open>current_executor\<close> and a stack of what
  it is executing; callables end or throw, and the exception passes the frames the way the
  handlers and the destructors of the guards make it. The loop's batch of posted callables
  is taken one at a time, which keeps their order.
\<close>

section \<open>State\<close>

text \<open>
  \<open>Call f ex\<close> is a user callable, with the executor it was submitted to as history;
  \<open>Drain i b\<close> the closure that drains strand \<open>i\<close> with base \<open>b\<close>. Frames of a thread:
  \<open>F_loop\<close> inside \<open>run\<close> of a context, \<open>F_worker\<close> inside \<open>worker_loop\<close>, \<open>F_guard\<close> an
  \<open>executor_guard\<close> in scope with the executor to restore, \<open>F_call\<close> a user callable,
  \<open>F_drain\<close> the loop of \<open>drain\<close> with the number of callables started, \<open>F_check\<close> before
  \<open>should_schedule_drain\<close>.
\<close>

datatype job = Call nat executor | Drain nat "any_executor"

datatype frame =
    F_loop nat
  | F_worker nat
  | F_guard any_executor
  | F_call nat executor
  | F_drain nat any_executor nat
  | F_check nat any_executor

record xthread =
  xt_current :: any_executor
  xt_stack :: "frame list"
  xt_unwinding :: bool

record xworld =
  xw_io :: "nat \<Rightarrow> job list"
  xw_pool :: "nat \<Rightarrow> job list"
  xw_pool_running :: "nat \<Rightarrow> bool"
  xw_strand :: "nat \<Rightarrow> job list \<times> bool"
  xw_token :: "nat \<Rightarrow> nat option"
  xw_threads :: "nat \<Rightarrow> xthread"

abbreviation put_xthread :: "nat \<Rightarrow> xthread \<Rightarrow> xworld \<Rightarrow> xworld" where
  "put_xthread k th w \<equiv> w\<lparr>xw_threads := (xw_threads w)(k := th)\<rparr>"

text \<open>
  \<open>xw_token\<close> is \<open>running_\<close> with \<open>thread_token_\<close>: the thread inside the loop of a context.
  Threads start outside everything or as the worker of a pool. What a strand state has as
  its base never changes, so it is a parameter; \<open>ex_wf\<close> says that a strand executor carries
  the base of its state, all the way down.
\<close>

fun ex_wf :: "(nat \<Rightarrow> any_executor) \<Rightarrow> executor \<Rightarrow> bool" where
  "ex_wf bases (Strand_executor None b) = (b = None)"
| "ex_wf bases (Strand_executor (Some i) None) = (bases i = None)"
| "ex_wf bases (Strand_executor (Some i) (Some b)) = (bases i = Some b \<and> ex_wf bases b)"
| "ex_wf bases _ = True"

definition xw_init :: "xworld \<Rightarrow> bool" where
  "xw_init w \<longleftrightarrow> (\<forall>c. xw_io w c = []) \<and> (\<forall>p. xw_pool w p = []) \<and> (\<forall>i. xw_strand w i = ([], False)) \<and>
     (\<forall>c. xw_token w c = None) \<and>
     (\<forall>k. xt_current (xw_threads w k) = None \<and> \<not> xt_unwinding (xw_threads w k) \<and>
          (xt_stack (xw_threads w k) = [] \<or> (\<exists>p. xt_stack (xw_threads w k) = [F_worker p])))"

section \<open>Posting\<close>

text \<open>\<open>None\<close>: an \<open>IOCORO_ENSURE\<close> fails.\<close>

definition io_ex_post :: "nat option \<Rightarrow> job \<Rightarrow> xworld \<Rightarrow> xworld option" where
  "io_ex_post impl j w =
     (case impl of None \<Rightarrow> None | Some c \<Rightarrow> Some (w\<lparr>xw_io := (xw_io w)(c := xw_io w c @ [j])\<rparr>))"

definition pool_ex_post :: "nat option \<Rightarrow> job \<Rightarrow> xworld \<Rightarrow> xworld" where
  "pool_ex_post state j w =
     (case state of
        None \<Rightarrow> w
      | Some p \<Rightarrow> if xw_pool_running w p then w\<lparr>xw_pool := (xw_pool w)(p := xw_pool w p @ [j])\<rparr> else w)"

definition pool_ex_stopped :: "nat option \<Rightarrow> xworld \<Rightarrow> bool" where
  "pool_ex_stopped state w = (case state of None \<Rightarrow> True | Some p \<Rightarrow> \<not> xw_pool_running w p)"

fun ex_post :: "executor \<Rightarrow> job \<Rightarrow> xworld \<Rightarrow> xworld option" where
  "ex_post (Io_executor c) j w = io_ex_post c j w"
| "ex_post (Pool_executor p) j w = Some (pool_ex_post p j w)"
| "ex_post (Strand_executor None b) j w = None"
| "ex_post (Strand_executor (Some i) None) j w = None"
| "ex_post (Strand_executor (Some i) (Some b)) j w =
     (let (q, active) = xw_strand w i; w1 = w\<lparr>xw_strand := (xw_strand w)(i := (q @ [j], True))\<rparr>
      in if active then Some w1 else ex_post b (Drain i (Some b)) w1)"

definition any_post :: "any_executor \<Rightarrow> job \<Rightarrow> xworld \<Rightarrow> xworld option" where
  "any_post ex j w = (case ex of None \<Rightarrow> Some w | Some e \<Rightarrow> ex_post e j w)"

section \<open>Running a callable\<close>

text \<open>\<open>start_job\<close> calls a callable on thread state \<open>th\<close>; a drain makes its strand current.\<close>

definition enter_guard :: "executor \<Rightarrow> xthread \<Rightarrow> xthread" where
  "enter_guard e th = th\<lparr>xt_current := Some e, xt_stack := F_guard (xt_current th) # xt_stack th\<rparr>"

definition push_frame :: "frame \<Rightarrow> xthread \<Rightarrow> xthread" where
  "push_frame f th = th\<lparr>xt_stack := f # xt_stack th\<rparr>"

fun start_job :: "job \<Rightarrow> xthread \<Rightarrow> xthread option" where
  "start_job (Call f ex) th = Some (push_frame (F_call f ex) th)"
| "start_job (Drain i None) th = None"
| "start_job (Drain i (Some b)) th =
     Some (push_frame (F_drain i (Some b) 0) (enter_guard (Strand_executor (Some i) (Some b)) th))"

definition call_inline :: "nat \<Rightarrow> nat \<Rightarrow> executor \<Rightarrow> xthread \<Rightarrow> xworld \<Rightarrow> xworld" where
  "call_inline k f e th w = put_xthread k (push_frame (F_call f e) th) w"

definition io_ex_dispatch :: "nat \<Rightarrow> nat option \<Rightarrow> nat \<Rightarrow> xworld \<Rightarrow> xworld option" where
  "io_ex_dispatch k impl f w =
     (case impl of
        None \<Rightarrow> None
      | Some c \<Rightarrow>
          if xw_token w c = Some k
          then Some (call_inline k f (Io_executor impl) (enter_guard (Io_executor impl) (xw_threads w k)) w)
          else io_ex_post impl (Call f (Io_executor impl)) w)"

definition pool_ex_dispatch :: "nat \<Rightarrow> nat option \<Rightarrow> nat \<Rightarrow> xworld \<Rightarrow> xworld" where
  "pool_ex_dispatch k state f w =
     (case state of
        None \<Rightarrow> w
      | Some p \<Rightarrow>
          if any_equal (xt_current (xw_threads w k)) (Some (Pool_executor state))
          then call_inline k f (Pool_executor state) (xw_threads w k) w
          else pool_ex_post state (Call f (Pool_executor state)) w)"

definition strand_ex_dispatch :: "nat \<Rightarrow> nat option \<Rightarrow> any_executor \<Rightarrow> nat \<Rightarrow> xworld \<Rightarrow> xworld option" where
  "strand_ex_dispatch k state base f w =
     (if state = None \<or> base = None then None
      else if any_equal (xt_current (xw_threads w k)) (Some (Strand_executor state base))
      then Some (call_inline k f (Strand_executor state base) (xw_threads w k) w)
      else ex_post (Strand_executor state base) (Call f (Strand_executor state base)) w)"

fun ex_dispatch :: "nat \<Rightarrow> executor \<Rightarrow> nat \<Rightarrow> xworld \<Rightarrow> xworld option" where
  "ex_dispatch k (Io_executor c) f w = io_ex_dispatch k c f w"
| "ex_dispatch k (Pool_executor p) f w = Some (pool_ex_dispatch k p f w)"
| "ex_dispatch k (Strand_executor i b) f w = strand_ex_dispatch k i b f w"

lemmas ex_defs = io_ex_post_def pool_ex_post_def call_inline_def io_ex_dispatch_def pool_ex_dispatch_def strand_ex_dispatch_def

definition any_dispatch :: "nat \<Rightarrow> any_executor \<Rightarrow> nat \<Rightarrow> xworld \<Rightarrow> xworld option" where
  "any_dispatch k ex f w = (case ex of None \<Rightarrow> Some w | Some e \<Rightarrow> ex_dispatch k e f w)"

text \<open>The same two calls on an IO executor.\<close>

definition any_io_post :: "any_io_executor \<Rightarrow> job \<Rightarrow> xworld \<Rightarrow> xworld option" where
  "any_io_post r j w = (case ai_storage r of None \<Rightarrow> Some w | Some e \<Rightarrow> ex_post e j w)"

definition any_io_dispatch :: "nat \<Rightarrow> any_io_executor \<Rightarrow> nat \<Rightarrow> xworld \<Rightarrow> xworld option" where
  "any_io_dispatch k r f w = (case ai_storage r of None \<Rightarrow> Some w | Some e \<Rightarrow> ex_dispatch k e f w)"

section \<open>Steps of a thread\<close>

definition in_user_code :: "xthread \<Rightarrow> bool" where
  "in_user_code th \<longleftrightarrow> (case xt_stack th of [] \<Rightarrow> True | F_call _ _ # _ \<Rightarrow> True | _ \<Rightarrow> False)"

definition run_begin :: "nat \<Rightarrow> nat \<Rightarrow> xworld \<Rightarrow> xworld option" where
  "run_begin k c w =
     (if xw_token w c \<noteq> None then None
      else Some (put_xthread k (push_frame (F_loop c) (xw_threads w k)) (w\<lparr>xw_token := (xw_token w)(c := Some k)\<rparr>)))"

definition take_posted :: "nat \<Rightarrow> xworld \<Rightarrow> xworld option" where
  "take_posted k w =
     (case xt_stack (xw_threads w k) of
        F_loop c # _ \<Rightarrow>
          (case xw_io w c of
             [] \<Rightarrow> None
           | j # rest \<Rightarrow>
               map_option (\<lambda>th. put_xthread k th (w\<lparr>xw_io := (xw_io w)(c := rest)\<rparr>))
                 (start_job j (enter_guard (Io_executor (Some c)) (xw_threads w k))))
      | _ \<Rightarrow> None)"

definition worker_run :: "nat \<Rightarrow> xworld \<Rightarrow> xworld option" where
  "worker_run k w =
     (case xt_stack (xw_threads w k) of
        F_worker p # _ \<Rightarrow>
          (case xw_pool w p of
             [] \<Rightarrow> None
           | j # rest \<Rightarrow>
               map_option (\<lambda>th. put_xthread k th (w\<lparr>xw_pool := (xw_pool w)(p := rest)\<rparr>))
                 (start_job j (enter_guard (Pool_executor (Some p)) (xw_threads w k))))
      | _ \<Rightarrow> None)"

definition drain_limit :: nat where "drain_limit = 256"

definition drain_next :: "nat \<Rightarrow> xworld \<Rightarrow> xworld option" where
  "drain_next k w =
     (let th = xw_threads w k in
      case xt_stack th of
        F_drain i b n # r \<Rightarrow>
          if drain_limit \<le> n then Some (put_xthread k (th\<lparr>xt_stack := F_check i b # r\<rparr>) w)
          else (case xw_strand w i of
                  ([], _) \<Rightarrow> Some (put_xthread k (th\<lparr>xt_stack := F_check i b # r\<rparr>) (w\<lparr>xw_strand := (xw_strand w)(i := ([], False))\<rparr>))
                | (j # q, a) \<Rightarrow>
                    map_option (\<lambda>th. put_xthread k th (w\<lparr>xw_strand := (xw_strand w)(i := (q, a))\<rparr>))
                      (start_job j (th\<lparr>xt_stack := F_drain i b (Suc n) # r\<rparr>)))
      | _ \<Rightarrow> None)"

definition drain_end :: "nat \<Rightarrow> xworld \<Rightarrow> xworld option" where
  "drain_end k w =
     (let th = xw_threads w k in
      case xt_stack th of
        F_check i b # r \<Rightarrow>
          let w1 = put_xthread k (th\<lparr>xt_stack := r\<rparr>) w
          in if fst (xw_strand w i) = [] then Some (w1\<lparr>xw_strand := (xw_strand w)(i := ([], False))\<rparr>)
             else any_post b (Drain i b) w1
      | _ \<Rightarrow> None)"

text \<open>A loop is left, normally or by an exception: the scope guard of \<open>run\<close>.\<close>

definition run_end :: "nat \<Rightarrow> xworld \<Rightarrow> xworld option" where
  "run_end k w =
     (let th = xw_threads w k in
      case xt_stack th of
        F_loop c # r \<Rightarrow> Some (put_xthread k (th\<lparr>xt_stack := r\<rparr>) (w\<lparr>xw_token := (xw_token w)(c := None)\<rparr>))
      | _ \<Rightarrow> None)"

text \<open>The destructor of a guard, which runs on both ways out.\<close>

definition guard_end :: "xthread \<Rightarrow> xthread option" where
  "guard_end th =
     (case xt_stack th of
        F_guard prev # r \<Rightarrow> Some (th\<lparr>xt_stack := r, xt_current := prev\<rparr>)
      | _ \<Rightarrow> None)"

definition call_end :: "bool \<Rightarrow> xthread \<Rightarrow> xthread option" where
  "call_end threw th =
     (case xt_stack th of
        F_call _ _ # r \<Rightarrow> Some (th\<lparr>xt_stack := r, xt_unwinding := threw\<rparr>)
      | _ \<Rightarrow> None)"

text \<open>The handlers: a worker swallows the exception, a drain looks for tasks and rethrows.\<close>

definition handler :: "xthread \<Rightarrow> xthread option" where
  "handler th =
     (case xt_stack th of
        F_worker _ # _ \<Rightarrow> Some (th\<lparr>xt_unwinding := False\<rparr>)
      | F_drain i b _ # r \<Rightarrow> Some (th\<lparr>xt_stack := F_check i b # r\<rparr>)
      | _ \<Rightarrow> None)"

text \<open>
  The exception that reaches the bottom of a thread ends the process and has no step.
\<close>

inductive x_step :: "(nat \<Rightarrow> any_executor) \<Rightarrow> xworld \<Rightarrow> xworld \<Rightarrow> bool" for bases where
  post: "in_user_code (xw_threads w k) \<Longrightarrow> \<not> xt_unwinding (xw_threads w k) \<Longrightarrow> ex_wf bases e \<Longrightarrow>
    any_post (Some e) (Call f e) w = Some w' \<Longrightarrow> x_step bases w w'"
| dispatch: "in_user_code (xw_threads w k) \<Longrightarrow> \<not> xt_unwinding (xw_threads w k) \<Longrightarrow> ex_wf bases e \<Longrightarrow>
    any_dispatch k (Some e) f w = Some w' \<Longrightarrow> x_step bases w w'"
| run: "in_user_code (xw_threads w k) \<Longrightarrow> \<not> xt_unwinding (xw_threads w k) \<Longrightarrow>
    run_begin k c w = Some w' \<Longrightarrow> x_step bases w w'"
| take: "\<not> xt_unwinding (xw_threads w k) \<Longrightarrow> take_posted k w = Some w' \<Longrightarrow> x_step bases w w'"
| worker: "\<not> xt_unwinding (xw_threads w k) \<Longrightarrow> worker_run k w = Some w' \<Longrightarrow> x_step bases w w'"
| drain: "\<not> xt_unwinding (xw_threads w k) \<Longrightarrow> drain_next k w = Some w' \<Longrightarrow> x_step bases w w'"
| check: "drain_end k w = Some w' \<Longrightarrow> x_step bases w w'"
| leave: "run_end k w = Some w' \<Longrightarrow> x_step bases w w'"
| guard: "guard_end (xw_threads w k) = Some th \<Longrightarrow> x_step bases w (put_xthread k th w)"
| callee: "call_end threw (xw_threads w k) = Some th \<Longrightarrow> xt_unwinding (xw_threads w k) \<longrightarrow> threw \<Longrightarrow>
    x_step bases w (put_xthread k th w)"
| handle: "xt_unwinding (xw_threads w k) \<Longrightarrow> handler (xw_threads w k) = Some th \<Longrightarrow>
    x_step bases w (put_xthread k th w)"
| catch: "xt_unwinding (xw_threads w k) \<Longrightarrow> in_user_code (xw_threads w k) \<Longrightarrow>
    x_step bases w (put_xthread k ((xw_threads w k)\<lparr>xt_unwinding := False\<rparr>) w)"
| stop: "x_step bases w (w\<lparr>xw_pool_running := (xw_pool_running w)(p := False)\<rparr>)"

text \<open>Schedules, to run threads on concrete inputs.\<close>

datatype x_label = X_post nat executor nat | X_dispatch nat executor nat | X_run nat nat | X_take nat | X_worker nat
  | X_drain nat | X_check nat | X_leave nat | X_guard nat | X_return nat bool | X_handle nat

fun x_do :: "(nat \<Rightarrow> any_executor) \<Rightarrow> x_label \<Rightarrow> xworld \<Rightarrow> xworld option" where
  "x_do bases (X_post k e f) w =
     (if in_user_code (xw_threads w k) \<and> \<not> xt_unwinding (xw_threads w k) \<and> ex_wf bases e then any_post (Some e) (Call f e) w else None)"
| "x_do bases (X_dispatch k e f) w =
     (if in_user_code (xw_threads w k) \<and> \<not> xt_unwinding (xw_threads w k) \<and> ex_wf bases e then any_dispatch k (Some e) f w else None)"
| "x_do bases (X_run k c) w =
     (if in_user_code (xw_threads w k) \<and> \<not> xt_unwinding (xw_threads w k) then run_begin k c w else None)"
| "x_do bases (X_take k) w = (if xt_unwinding (xw_threads w k) then None else take_posted k w)"
| "x_do bases (X_worker k) w = (if xt_unwinding (xw_threads w k) then None else worker_run k w)"
| "x_do bases (X_drain k) w = (if xt_unwinding (xw_threads w k) then None else drain_next k w)"
| "x_do bases (X_check k) w = drain_end k w"
| "x_do bases (X_leave k) w = run_end k w"
| "x_do bases (X_guard k) w = map_option (\<lambda>th. put_xthread k th w) (guard_end (xw_threads w k))"
| "x_do bases (X_return k threw) w =
     (if xt_unwinding (xw_threads w k) \<and> \<not> threw then None else map_option (\<lambda>th. put_xthread k th w) (call_end threw (xw_threads w k)))"
| "x_do bases (X_handle k) w =
     (if xt_unwinding (xw_threads w k) then map_option (\<lambda>th. put_xthread k th w) (handler (xw_threads w k)) else None)"

lemma x_do_step: "x_do bases l w = Some w' \<Longrightarrow> x_step bases w w'"
  by (cases "(bases, l, w)" rule: x_do.cases) (auto intro: x_step.intros split: if_splits)

interpretation x_run: labelled_steps xw_init "x_step bases" "x_do bases" for bases
  by unfold_locales (fact x_do_step)

section \<open>Invariant\<close>

fun runs_in :: "executor \<Rightarrow> frame list \<Rightarrow> bool" where
  "runs_in (Io_executor (Some c)) st = (F_loop c \<in> set st)"
| "runs_in (Pool_executor (Some p)) st = (F_worker p \<in> set st)"
| "runs_in (Strand_executor (Some i) (Some b)) st = runs_in b st"
| "runs_in _ st = False"

fun job_ok :: "(nat \<Rightarrow> any_executor) \<Rightarrow> executor \<Rightarrow> job \<Rightarrow> bool" where
  "job_ok bases e (Call f ex) = (ex = e)"
| "job_ok bases e (Drain i b) = (b = Some e \<and> bases i = Some e)"

fun stack_ok :: "(nat \<Rightarrow> any_executor) \<Rightarrow> any_executor \<Rightarrow> frame list \<Rightarrow> bool" where
  "stack_ok bases cur [] = (cur = None)"
| "stack_ok bases cur (F_loop c # r) = (F_loop c \<notin> set r \<and> stack_ok bases cur r)"
| "stack_ok bases cur (F_worker p # r) = stack_ok bases cur r"
| "stack_ok bases cur (F_guard prev # r) = ((\<exists>e. cur = Some e \<and> runs_in e r \<and> ex_wf bases e) \<and> stack_ok bases prev r)"
| "stack_ok bases cur (F_call f ex # r) = (cur = Some ex \<and> stack_ok bases cur r)"
| "stack_ok bases cur (F_drain i b n # r) = (cur = Some (Strand_executor (Some i) b) \<and> stack_ok bases cur r)"
| "stack_ok bases cur (F_check i b # r) = (cur = Some (Strand_executor (Some i) b) \<and> stack_ok bases cur r)"

abbreviation thread_ok :: "(nat \<Rightarrow> any_executor) \<Rightarrow> xthread \<Rightarrow> bool" where
  "thread_ok bases th \<equiv> stack_ok bases (xt_current th) (xt_stack th)"

definition strand_job_ok :: "(nat \<Rightarrow> any_executor) \<Rightarrow> nat \<Rightarrow> job \<Rightarrow> bool" where
  "strand_job_ok bases i j \<longleftrightarrow>
     (\<exists>b. bases i = Some b \<and> ex_wf bases b \<and> job_ok bases (Strand_executor (Some i) (Some b)) j)"

definition queues_ok :: "(nat \<Rightarrow> any_executor) \<Rightarrow> xworld \<Rightarrow> bool" where
  "queues_ok bases w \<longleftrightarrow>
     (\<forall>c. list_all (job_ok bases (Io_executor (Some c))) (xw_io w c)) \<and>
     (\<forall>p. list_all (job_ok bases (Pool_executor (Some p))) (xw_pool w p)) \<and>
     (\<forall>i. list_all (strand_job_ok bases i) (fst (xw_strand w i)))"

definition xw_inv :: "(nat \<Rightarrow> any_executor) \<Rightarrow> xworld \<Rightarrow> bool" where
  "xw_inv bases w \<longleftrightarrow> queues_ok bases w \<and>
     (\<forall>k. thread_ok bases (xw_threads w k) \<and>
        (\<forall>c. F_loop c \<in> set (xt_stack (xw_threads w k)) \<longleftrightarrow> xw_token w c = Some k))"

lemma ex_equal_wf: "ex_wf bases a \<Longrightarrow> ex_wf bases b \<Longrightarrow> ex_equal a b \<longleftrightarrow> a = b"
proof (induction a b rule: ex_equal.induct)
  case (3 a x b y)
  then show ?case by (cases a; cases b; cases x; cases y) auto
qed auto

lemma runs_in_mono: "runs_in e r \<Longrightarrow> set r \<subseteq> set st \<Longrightarrow> runs_in e st"
  by (induction e st arbitrary: r rule: runs_in.induct) auto

lemma stack_ok_current: "stack_ok bases cur st \<Longrightarrow> cur = Some e \<Longrightarrow> runs_in e st \<and> ex_wf bases e"
proof (induction bases cur st rule: stack_ok.induct)
  case (4 bases cur prev r)
  then show ?case using runs_in_mono [of e r "F_guard prev # r"] by auto
qed (auto intro: runs_in_mono [OF _ set_subset_Cons])

lemma runs_in_context: "runs_in e st \<Longrightarrow> io_context_of e = Some c \<Longrightarrow> F_loop c \<in> set st"
  by (induction e st rule: runs_in.induct) auto

lemma ex_post_ok:
  assumes "ex_post e j w = Some w'" "queues_ok bases w" "ex_wf bases e" "job_ok bases e j"
  shows "queues_ok bases w' \<and> xw_threads w' = xw_threads w \<and> xw_token w' = xw_token w"
  using assms
proof (induction e j w rule: ex_post.induct)
  case (5 i b j w)
  obtain q a where q: "xw_strand w i = (q, a)" by fastforce
  define w1 where "w1 = w\<lparr>xw_strand := (xw_strand w)(i := (q @ [j], True))\<rparr>"
  have b: "bases i = Some b" "ex_wf bases b" using 5(4) by simp_all
  have sj: "strand_job_ok bases i j" using b 5(5) by (simp add: strand_job_ok_def)
  have "list_all (strand_job_ok bases i) q" using 5(3) q by (auto simp: queues_ok_def dest: spec [of _ i])
  then have w1: "queues_ok bases w1" using 5(3) sj by (simp add: queues_ok_def w1_def)
  show ?case
  proof (cases a)
    case True
    then show ?thesis using 5(2) w1 q by (auto simp: w1_def Let_def)
  next
    case False
    then have "ex_post b (Drain i (Some b)) w1 = Some w'" using 5(2) q by (simp add: w1_def Let_def)
    then show ?thesis using 5(1) [OF q [symmetric] refl w1_def False] w1 b by (simp add: w1_def)
  qed
qed (auto simp: queues_ok_def ex_defs split: if_splits option.splits)

lemma start_job_ok:
  assumes "job_ok bases e j" "thread_ok bases th" "xt_current th = Some e"
  obtains th' where "start_job j th = Some th'" "thread_ok bases th'" "\<And>c. F_loop c \<in> set (xt_stack th') \<longleftrightarrow> F_loop c \<in> set (xt_stack th)"
proof -
  have "runs_in e (xt_stack th) \<and> ex_wf bases e" using stack_ok_current [OF assms(2,3)] .
  then show thesis using that assms
    by (cases j) (auto simp: push_frame_def enter_guard_def)
qed

lemma enter_guard_ok:
  "thread_ok bases th \<Longrightarrow> runs_in e (xt_stack th) \<Longrightarrow> ex_wf bases e \<Longrightarrow> thread_ok bases (enter_guard e th)"
  by (simp add: enter_guard_def)

lemma queues_ok_threads [simp]: "queues_ok bases (w\<lparr>xw_threads := ts\<rparr>) = queues_ok bases w"
  "queues_ok bases (w\<lparr>xw_token := tok\<rparr>) = queues_ok bases w"
  by (simp_all add: queues_ok_def)

lemma xw_inv_thread:
  assumes "xw_inv bases w" "queues_ok bases w'" "xw_token w' = xw_token w" "xw_threads w' = (xw_threads w)(k := th)"
    "thread_ok bases th" "\<And>c. F_loop c \<in> set (xt_stack th) \<longleftrightarrow> F_loop c \<in> set (xt_stack (xw_threads w k))"
  shows "xw_inv bases w'"
  using assms by (simp add: xw_inv_def)

lemma xw_invD:
  assumes "xw_inv bases w"
  shows "queues_ok bases w" "thread_ok bases (xw_threads w k)"
    "F_loop c \<in> set (xt_stack (xw_threads w k)) \<longleftrightarrow> xw_token w c = Some k"
  using assms by (simp_all add: xw_inv_def)

lemma xw_inv_post:
  assumes "xw_inv bases w" "ex_post e j w = Some w'" "ex_wf bases e" "job_ok bases e j"
  shows "xw_inv bases w'"
  using ex_post_ok [OF assms(2) xw_invD(1) [OF assms(1)] assms(3,4)] assms(1) by (simp add: xw_inv_def)

lemma xw_inv_inline:
  assumes inv: "xw_inv bases w" and cur: "any_equal (xt_current (xw_threads w k)) (Some e)" and wf: "ex_wf bases e"
  shows "xw_inv bases (put_xthread k (push_frame (F_call f e) (xw_threads w k)) w)"
proof -
  obtain e' where e': "xt_current (xw_threads w k) = Some e'" "ex_equal e' e"
    using cur by (cases "xt_current (xw_threads w k)") auto
  then have "e' = e" using ex_equal_wf stack_ok_current [OF xw_invD(2) [OF inv] e'(1)] wf by blast
  then show ?thesis using inv xw_invD(1) [OF inv] xw_invD(2) [OF inv, of k] e'(1) by (intro xw_inv_thread [OF inv, where k = k and th = "push_frame (F_call f e) (xw_threads w k)"]) (simp_all add: push_frame_def)
qed

lemma xw_inv_dispatch:
  assumes inv: "xw_inv bases w" and d: "ex_dispatch k e f w = Some w'" and wf: "ex_wf bases e"
  shows "xw_inv bases w'"
proof (cases "ex_post e (Call f e) w = Some w'")
  case True
  then show ?thesis using xw_inv_post [OF inv True wf] by simp
next
  case no_post: False
  show ?thesis
  proof (cases "any_equal (xt_current (xw_threads w k)) (Some e) \<and> w' = put_xthread k (push_frame (F_call f e) (xw_threads w k)) w")
    case True
    then show ?thesis using xw_inv_inline [OF inv _ wf] by blast
  next
    case False
    show ?thesis
    proof (cases "w' = w")
      case True
      then show ?thesis using inv by simp
    next
      case changed: False
      obtain c where c: "e = Io_executor (Some c)" "xw_token w c = Some k"
          "w' = put_xthread k (push_frame (F_call f e) (enter_guard e (xw_threads w k))) w"
        using d no_post False changed by (cases "(k, e, f, w)" rule: ex_dispatch.cases) (auto simp: ex_defs split: if_splits option.splits)
      have "runs_in e (xt_stack (xw_threads w k))" using c xw_invD(3) [OF inv, of c k] by simp
      then have "thread_ok bases (enter_guard e (xw_threads w k))" using enter_guard_ok xw_invD(2) [OF inv] wf by blast
      then show ?thesis
        by (intro xw_inv_thread [OF inv, where k = k and th = "push_frame (F_call f e) (enter_guard e (xw_threads w k))"])
          (simp_all add: c(3) xw_invD(1) [OF inv] push_frame_def enter_guard_def)
    qed
  qed
qed

lemma xw_inv_run:
  assumes inv: "xw_inv bases w" and r: "run_begin k c w = Some w'"
  shows "xw_inv bases w'"
proof -
  have none: "xw_token w c = None" and w': "w' = put_xthread k (push_frame (F_loop c) (xw_threads w k)) (w\<lparr>xw_token := (xw_token w)(c := Some k)\<rparr>)"
    using r by (auto simp: run_begin_def split: if_splits)
  then show ?thesis using inv by (auto simp: xw_inv_def queues_ok_def push_frame_def)
qed

lemma xw_inv_leave:
  assumes inv: "xw_inv bases w" and r: "run_end k w = Some w'"
  shows "xw_inv bases w'"
proof -
  obtain c r where c: "xt_stack (xw_threads w k) = F_loop c # r"
      "w' = put_xthread k ((xw_threads w k)\<lparr>xt_stack := r\<rparr>) (w\<lparr>xw_token := (xw_token w)(c := None)\<rparr>)"
    using r by (auto simp: run_end_def Let_def split: list.splits frame.splits)
  have token: "xw_token w c = Some k" using xw_invD(3) [OF inv, of c k] c(1) by simp
  then show ?thesis using inv c xw_invD(2) [OF inv, of k] xw_invD(3) [OF inv, of _ k] by (auto simp: xw_inv_def queues_ok_def)
qed

lemma queues_ok_tail:
  assumes "queues_ok bases w"
  shows "xw_io w c = j # rest \<Longrightarrow> job_ok bases (Io_executor (Some c)) j \<and> queues_ok bases (w\<lparr>xw_io := (xw_io w)(c := rest)\<rparr>)"
    and "xw_pool w p = j # rest \<Longrightarrow> job_ok bases (Pool_executor (Some p)) j \<and> queues_ok bases (w\<lparr>xw_pool := (xw_pool w)(p := rest)\<rparr>)"
    and "xw_strand w i = (j # rest, a) \<Longrightarrow> strand_job_ok bases i j \<and> queues_ok bases (w\<lparr>xw_strand := (xw_strand w)(i := (rest, a'))\<rparr>)"
  using assms by (auto simp: queues_ok_def dest: spec [of _ c] spec [of _ p] spec [of _ i])

lemma queues_ok_empty: "queues_ok bases w \<Longrightarrow> queues_ok bases (w\<lparr>xw_strand := (xw_strand w)(i := ([], a))\<rparr>)"
  by (simp add: queues_ok_def)

text \<open>A loop or a worker always gets the callable at the head of its queue started.\<close>

lemma take_posted_ok:
  assumes inv: "xw_inv bases w" and st: "xt_stack (xw_threads w k) = F_loop c # r" "xw_io w c = j # rest"
  obtains w' where "take_posted k w = Some w'" "xw_inv bases w'"
proof -
  let ?g = "enter_guard (Io_executor (Some c)) (xw_threads w k)"
  have g: "thread_ok bases ?g" by (rule enter_guard_ok) (use xw_invD(2) [OF inv, of k] st in simp_all)
  obtain th where th: "start_job j ?g = Some th" "thread_ok bases th" "\<And>c. F_loop c \<in> set (xt_stack th) \<longleftrightarrow> F_loop c \<in> set (xt_stack ?g)"
    using start_job_ok [OF _ g, of "Io_executor (Some c)" j] queues_ok_tail(1) [OF xw_invD(1) [OF inv] st(2)] by (auto simp: enter_guard_def)
  let ?w = "put_xthread k th (w\<lparr>xw_io := (xw_io w)(c := rest)\<rparr>)"
  have "xw_inv bases ?w"
    by (rule xw_inv_thread [OF inv, where k = k and th = th])
      (use th queues_ok_tail(1) [OF xw_invD(1) [OF inv] st(2)] in \<open>simp_all add: enter_guard_def\<close>)
  moreover have "take_posted k w = Some ?w" using st th(1) by (simp add: take_posted_def)
  ultimately show thesis using that by blast
qed

lemma worker_run_ok:
  assumes inv: "xw_inv bases w" and st: "xt_stack (xw_threads w k) = F_worker p # r" "xw_pool w p = j # rest"
  obtains w' where "worker_run k w = Some w'" "xw_inv bases w'"
proof -
  let ?g = "enter_guard (Pool_executor (Some p)) (xw_threads w k)"
  have g: "thread_ok bases ?g" by (rule enter_guard_ok) (use xw_invD(2) [OF inv, of k] st in simp_all)
  obtain th where th: "start_job j ?g = Some th" "thread_ok bases th" "\<And>c. F_loop c \<in> set (xt_stack th) \<longleftrightarrow> F_loop c \<in> set (xt_stack ?g)"
    using start_job_ok [OF _ g, of "Pool_executor (Some p)" j] queues_ok_tail(2) [OF xw_invD(1) [OF inv] st(2)] by (auto simp: enter_guard_def)
  let ?w = "put_xthread k th (w\<lparr>xw_pool := (xw_pool w)(p := rest)\<rparr>)"
  have "xw_inv bases ?w"
    by (rule xw_inv_thread [OF inv, where k = k and th = th])
      (use th queues_ok_tail(2) [OF xw_invD(1) [OF inv] st(2)] in \<open>simp_all add: enter_guard_def\<close>)
  moreover have "worker_run k w = Some ?w" using st th(1) by (simp add: worker_run_def)
  ultimately show thesis using that by blast
qed

lemma drain_next_ok:
  assumes inv: "xw_inv bases w" and st: "xt_stack (xw_threads w k) = F_drain i b n # r"
  obtains w' where "drain_next k w = Some w'" "xw_inv bases w'"
proof -
  let ?th = "xw_threads w k"
  note ok = xw_invD(2) [OF inv, of k]
  have check: "xw_inv bases (put_xthread k (?th\<lparr>xt_stack := F_check i b # r\<rparr>) w')"
    if "queues_ok bases w'" "xw_token w' = xw_token w" "xw_threads w' = xw_threads w" for w'
    by (rule xw_inv_thread [OF inv, where k = k and th = "?th\<lparr>xt_stack := F_check i b # r\<rparr>"]) (use that st ok in auto)
  show thesis
  proof (cases "drain_limit \<le> n")
    case True
    then show thesis using that check [of w] xw_invD(1) [OF inv] st by (simp add: drain_next_def Let_def)
  next
    case below: False
    obtain q a where q: "xw_strand w i = (q, a)" by fastforce
    show thesis
    proof (cases q)
      case Nil
      then show thesis using that check [OF queues_ok_empty] xw_invD(1) [OF inv] st below q by (simp add: drain_next_def Let_def)
    next
      case (Cons j rest)
      note tl = queues_ok_tail(3) [OF xw_invD(1) [OF inv] q [unfolded Cons]]
      let ?d = "?th\<lparr>xt_stack := F_drain i b (Suc n) # r\<rparr>"
      have d: "thread_ok bases ?d" "xt_current ?d = Some (Strand_executor (Some i) b)" using ok st by auto
      have "ex_wf bases (Strand_executor (Some i) b)" using stack_ok_current [OF d] by simp
      then have "job_ok bases (Strand_executor (Some i) b) j" using tl by (cases b) (auto simp: strand_job_ok_def)
      then obtain th where th: "start_job j ?d = Some th" "thread_ok bases th" "\<And>c. F_loop c \<in> set (xt_stack th) \<longleftrightarrow> F_loop c \<in> set (xt_stack ?d)"
        using start_job_ok [OF _ d] by blast
      let ?w = "put_xthread k th (w\<lparr>xw_strand := (xw_strand w)(i := (rest, a))\<rparr>)"
      have "xw_inv bases ?w"
        by (rule xw_inv_thread [OF inv, where k = k and th = th]) (use th tl st in simp_all)
      moreover have "drain_next k w = Some ?w" using st th(1) below q Cons by (simp add: drain_next_def Let_def)
      ultimately show thesis using that by blast
    qed
  qed
qed

lemma xw_inv_check:
  assumes inv: "xw_inv bases w" and d: "drain_end k w = Some w'"
  shows "xw_inv bases w'"
proof -
  let ?th = "xw_threads w k"
  obtain i b r where st: "xt_stack ?th = F_check i b # r"
    using d by (auto simp: drain_end_def Let_def split: list.splits frame.splits)
  note ok = xw_invD(2) [OF inv, of k]
  define w1 where "w1 = put_xthread k (?th\<lparr>xt_stack := r\<rparr>) w"
  have w1: "xw_inv bases w1" unfolding w1_def
    by (rule xw_inv_thread [OF inv, where k = k and th = "?th\<lparr>xt_stack := r\<rparr>"]) (use ok st xw_invD(1) [OF inv] in auto)
  have wf: "ex_wf bases (Strand_executor (Some i) b)" "runs_in (Strand_executor (Some i) b) (xt_stack ?th)"
    using stack_ok_current [OF ok, of "Strand_executor (Some i) b"] ok st by simp_all
  then obtain e where e: "b = Some e" "bases i = Some e" "ex_wf bases e" by (cases b) auto
  show ?thesis
  proof (cases "fst (xw_strand w i) = []")
    case True
    then have "w' = w1\<lparr>xw_strand := (xw_strand w1)(i := ([], False))\<rparr>" using d st by (simp add: drain_end_def Let_def w1_def)
    then show ?thesis using w1 queues_ok_empty by (simp add: xw_inv_def)
  next
    case False
    then have "ex_post e (Drain i b) w1 = Some w'" using d st e by (simp add: drain_end_def Let_def w1_def any_post_def)
    then show ?thesis using xw_inv_post [OF w1 _ e(3)] e by simp
  qed
qed

lemma xw_inv_frames:
  assumes inv: "xw_inv bases w"
    and th: "guard_end (xw_threads w k) = Some th \<or> call_end threw (xw_threads w k) = Some th \<or> handler (xw_threads w k) = Some th"
  shows "xw_inv bases (put_xthread k th w)"
proof (rule xw_inv_thread [OF inv, where k = k and th = th])
  show "thread_ok bases th" "F_loop c \<in> set (xt_stack th) \<longleftrightarrow> F_loop c \<in> set (xt_stack (xw_threads w k))" for c
    using th xw_invD(2) [OF inv, of k]
    by (auto simp: guard_end_def call_end_def handler_def split: list.splits frame.splits)
qed (use xw_invD(1) [OF inv] in simp_all)

lemma xw_inv_step: "x_step bases w w' \<Longrightarrow> xw_inv bases w \<Longrightarrow> xw_inv bases w'"
proof (induction rule: x_step.induct)
  case (post w k e f w')
  then show ?case using xw_inv_post [of bases w e "Call f e"] by (simp add: any_post_def)
next
  case (dispatch w k e f w')
  then show ?case using xw_inv_dispatch by (simp add: any_dispatch_def)
next
  case (take w k w')
  obtain c r j rest where "xt_stack (xw_threads w k) = F_loop c # r" "xw_io w c = j # rest"
    using take(2) by (auto simp: take_posted_def split: list.splits frame.splits)
  then show ?case using take_posted_ok [OF take(3)] take(2) by (metis option.inject)
next
  case (worker w k w')
  obtain p r j rest where "xt_stack (xw_threads w k) = F_worker p # r" "xw_pool w p = j # rest"
    using worker(2) by (auto simp: worker_run_def split: list.splits frame.splits)
  then show ?case using worker_run_ok [OF worker(3)] worker(2) by (metis option.inject)
next
  case (drain w k w')
  obtain i b n r where "xt_stack (xw_threads w k) = F_drain i b n # r"
    using drain(2) by (auto simp: drain_next_def Let_def split: list.splits frame.splits)
  then show ?case using drain_next_ok [OF drain(3)] drain(2) by (metis option.inject)
next
  case (catch w k)
  then show ?case by (auto simp: xw_inv_def)
next
  case (stop w p)
  then show ?case by (simp add: xw_inv_def queues_ok_def)
qed (use xw_inv_run xw_inv_leave xw_inv_check xw_inv_frames in blast)+

interpretation xw: inductive_invariant xw_init "x_step bases" "xw_inv bases" for bases
proof
  show "xw_inv bases w" if i: "xw_init w" for w
  proof -
    have "thread_ok bases (xw_threads w k) \<and> (\<forall>c. F_loop c \<notin> set (xt_stack (xw_threads w k)))" for k
    proof -
      have "xt_current (xw_threads w k) = None" "xt_stack (xw_threads w k) = [] \<or> (\<exists>p. xt_stack (xw_threads w k) = [F_worker p])"
        using i by (simp_all add: xw_init_def)
      then show ?thesis by auto
    qed
    then show ?thesis using i by (simp add: xw_inv_def queues_ok_def xw_init_def)
  qed
qed (rule xw_inv_step)

section \<open>Properties\<close>

text \<open>
  (C15) A callable submitted with \<open>post\<close> or \<open>dispatch\<close> runs with the executor it was submitted
  to as the current executor, on a thread of the context or pool at the bottom of its
  strands, and no two threads run callables of one context at the same time. This holds
  through nested dispatches, loops run inside callables, strands on strands and exceptions;
  the guards restore the outer executor, so a thread that executes nothing has none.
\<close>

theorem callable_runs_on_its_executor:
  assumes "reach xw_init (x_step bases) w"
  shows "(xt_stack (xw_threads w k) = [] \<longrightarrow> xt_current (xw_threads w k) = None) \<and>
    (xt_stack (xw_threads w k) = F_call f ex # r \<longrightarrow>
      xt_current (xw_threads w k) = Some ex \<and> runs_in ex r \<and>
      (\<forall>k' g ex' r' c. xt_stack (xw_threads w k') = F_call g ex' # r' \<and>
         io_context_of ex = Some c \<and> io_context_of ex' = Some c \<longrightarrow> k' = k))"
proof -
  have inv: "xw_inv bases w" by (rule xw.reach_inv [OF assms])
  have top: "xt_current (xw_threads w k) = Some ex" "runs_in ex r" if "xt_stack (xw_threads w k) = F_call f ex # r" for k f ex r
    using xw_invD(2) [OF inv, of k] stack_ok_current [of bases "Some ex" r ex] that by auto
  have token: "xw_token w c = Some k" if "xt_stack (xw_threads w k) = F_call f ex # r" "io_context_of ex = Some c" for k f ex r c
    using xw_invD(3) [OF inv, of c k] runs_in_context [OF top(2) [OF that(1)] that(2)] that(1) by simp
  have "k' = k" if "xt_stack (xw_threads w k) = F_call f ex # r" "xt_stack (xw_threads w k') = F_call g ex' # r'"
      "io_context_of ex = Some c" "io_context_of ex' = Some c" for k' g ex' r' c
    using token [OF that(1,3)] token [OF that(2,4)] by simp
  then show ?thesis using top xw_invD(2) [OF inv, of k] by auto
qed

text \<open>
  A callable posted to strand 0 on a strand 1 on context 7 is run by the loop, after a
  callable that threw: the drain of strand 1 is looked at again and taken a second time.
\<close>

definition strands_ex :: "nat \<Rightarrow> any_executor" where
  "strands_ex = (\<lambda>_. None)(1 := Some (Io_executor (Some 7)), 0 := Some (Strand_executor (Some 1) (Some (Io_executor (Some 7)))))"

definition xw_ex :: xworld where
  "xw_ex = \<lparr>xw_io = \<lambda>_. [], xw_pool = \<lambda>_. [], xw_pool_running = \<lambda>_. True, xw_strand = \<lambda>_. ([], False),
     xw_token = \<lambda>_. None, xw_threads = \<lambda>_. \<lparr>xt_current = None, xt_stack = [], xt_unwinding = False\<rparr>\<rparr>"

definition strand1_ex :: executor where "strand1_ex = Strand_executor (Some 1) (Some (Io_executor (Some 7)))"

definition strand0_ex :: executor where "strand0_ex = Strand_executor (Some 0) (Some strand1_ex)"

definition x_schedule_ex :: "x_label list" where
  "x_schedule_ex = [X_post 5 strand1_ex 1, X_post 6 strand0_ex 2, X_run 4 7, X_take 4, X_drain 4, X_return 4 True, X_handle 4,
     X_check 4, X_guard 4, X_guard 4, X_leave 4, X_run 8 7, X_take 8, X_drain 8, X_drain 8]"

lemmas x_eval = any_post_def any_dispatch_def run_begin_def take_posted_def worker_run_def drain_next_def drain_end_def run_end_def
  guard_end_def call_end_def handler_def in_user_code_def push_frame_def enter_guard_def drain_limit_def ex_defs

theorem callable_runs_on_its_executor_witness:
  "\<exists>w r. reach xw_init (x_step strands_ex) w \<and> xt_unwinding (xw_threads w 4) \<and> xt_current (xw_threads w 4) = None \<and>
     xt_stack (xw_threads w 8) = F_call 2 strand0_ex # r \<and> xt_current (xw_threads w 8) = Some strand0_ex \<and> runs_in strand0_ex r"
proof -
  have "\<exists>w r. do_all (x_do strands_ex) x_schedule_ex xw_ex = Some w \<and> xt_unwinding (xw_threads w 4) \<and> xt_stack (xw_threads w 4) = [] \<and>
     xt_stack (xw_threads w 8) = F_call 2 strand0_ex # r"
    by (simp add: x_schedule_ex_def xw_ex_def strands_ex_def strand0_ex_def strand1_ex_def x_eval)
  moreover have "xw_init xw_ex" by (simp add: xw_init_def xw_ex_def)
  ultimately obtain w r where w: "reach xw_init (x_step strands_ex) w" "xt_unwinding (xw_threads w 4)" "xt_stack (xw_threads w 4) = []"
      "xt_stack (xw_threads w 8) = F_call 2 strand0_ex # r"
    using x_run.do_all_reach [OF reach_start] by blast
  then show ?thesis using callable_runs_on_its_executor [OF w(1), of 4] callable_runs_on_its_executor [OF w(1), of 8] by blast
qed

text \<open>
  An IO executor submits as the executor it was made from, and a pool that reports itself stopped
  drops what is posted to it, also when it is posted through a strand that is not active.
\<close>

lemma any_io_same: "any_io_post r j w = any_post (any_of_io r) j w" "any_io_dispatch k r f w = any_dispatch k (any_of_io r) f w"
  by (simp_all add: any_io_post_def any_io_dispatch_def any_post_def any_dispatch_def any_of_io_def)

lemma stopped_pool_drops:
  assumes "pool_ex_stopped p w"
  shows "ex_post (Pool_executor p) j w = Some w"
    "xw_strand w i = (q, False) \<Longrightarrow> ex_post (Strand_executor (Some i) (Some (Pool_executor p))) j w =
       Some (w\<lparr>xw_strand := (xw_strand w)(i := (q @ [j], True))\<rparr>)"
  using assms by (auto simp: pool_ex_post_def pool_ex_stopped_def split: option.splits)

end
