(* ===== verification/WorkGuard.thy ===== *)
theory WorkGuard
  imports Executors
begin

text \<open>
  \<open>work_guard.hpp\<close>: the movable token that keeps an event loop or a pool from ending for
  lack of work, over the counter of \<open>work_guard_counter.hpp\<close> (\<open>wg_add\<close>, \<open>wg_remove\<close>) that
  every context and every pool has. The guards of a program are objects that are made,
  moved, assigned, reset and destroyed; each executor type leads to a counter, or to none
  when it is empty.
\<close>

section \<open>State\<close>

datatype guard_executor = G_any_io any_io_executor | G_io "nat option" | G_pool "nat option"

datatype work_owner = Context_work nat | Pool_work nat

record work_guard =
  gd_executor :: guard_executor
  gd_owns :: bool

text \<open>\<open>gs_wakes\<close> counts the wake-ups that the removal of the last guard sends.\<close>

record guard_state =
  gs_guards :: "nat \<Rightarrow> work_guard option"
  gs_counts :: "work_owner \<Rightarrow> nat"
  gs_wakes :: "work_owner \<Rightarrow> nat"

definition guard_init :: guard_state where
  "guard_init = \<lparr>gs_guards = \<lambda>_. None, gs_counts = \<lambda>_. 0, gs_wakes = \<lambda>_. 0\<rparr>"

section \<open>Counters behind executors\<close>

fun executor_nonempty :: "guard_executor \<Rightarrow> bool" where
  "executor_nonempty (G_any_io r) = (ai_storage r \<noteq> None)"
| "executor_nonempty (G_io c) = (c \<noteq> None)"
| "executor_nonempty (G_pool p) = (p \<noteq> None)"

fun work_counter :: "guard_executor \<Rightarrow> work_owner option" where
  "work_counter (G_any_io r) = map_option Context_work (ai_impl r)"
| "work_counter (G_io c) = map_option Context_work c"
| "work_counter (G_pool p) = map_option Pool_work p"

definition ex_add_work :: "guard_executor \<Rightarrow> guard_state \<Rightarrow> guard_state" where
  "ex_add_work ex s =
     (case work_counter ex of
        None \<Rightarrow> s
      | Some c \<Rightarrow> s\<lparr>gs_counts := (gs_counts s)(c := wg_add (gs_counts s c))\<rparr>)"

definition ex_remove_work :: "guard_executor \<Rightarrow> guard_state \<Rightarrow> guard_state option" where
  "ex_remove_work ex s =
     (case work_counter ex of
        None \<Rightarrow> Some s
      | Some c \<Rightarrow>
          (case wg_remove (gs_counts s c) of
             None \<Rightarrow> None
           | Some (old, new) \<Rightarrow>
               Some (s\<lparr>gs_counts := (gs_counts s)(c := new),
                       gs_wakes := (if old = 1 then (gs_wakes s)(c := Suc (gs_wakes s c)) else gs_wakes s)\<rparr>)))"

section \<open>Operations on guards\<close>

abbreviation put_guard :: "nat \<Rightarrow> work_guard option \<Rightarrow> guard_state \<Rightarrow> guard_state" where
  "put_guard g x s \<equiv> s\<lparr>gs_guards := (gs_guards s)(g := x)\<rparr>"

definition guard_make :: "nat \<Rightarrow> guard_executor \<Rightarrow> guard_state \<Rightarrow> guard_state option" where
  "guard_make g ex s =
     (if \<not> executor_nonempty ex then None
      else Some (put_guard g (Some \<lparr>gd_executor = ex, gd_owns = True\<rparr>) (ex_add_work ex s)))"

definition guard_reset :: "nat \<Rightarrow> guard_state \<Rightarrow> guard_state option" where
  "guard_reset g s =
     (case gs_guards s g of
        None \<Rightarrow> None
      | Some x \<Rightarrow>
          if gd_owns x then map_option (put_guard g (Some (x\<lparr>gd_owns := False\<rparr>))) (ex_remove_work (gd_executor x) s)
          else Some s)"

definition guard_move :: "nat \<Rightarrow> nat \<Rightarrow> guard_state \<Rightarrow> guard_state option" where
  "guard_move g other s =
     map_option (\<lambda>y. put_guard other (Some (y\<lparr>gd_owns := False\<rparr>)) (put_guard g (Some y) s)) (gs_guards s other)"

definition guard_assign :: "nat \<Rightarrow> nat \<Rightarrow> guard_state \<Rightarrow> guard_state option" where
  "guard_assign g other s =
     (if g = other then Some s
      else (case guard_reset g s of None \<Rightarrow> None | Some s1 \<Rightarrow> guard_move g other s1))"

definition guard_destroy :: "nat \<Rightarrow> guard_state \<Rightarrow> guard_state option" where
  "guard_destroy g s = map_option (put_guard g None) (guard_reset g s)"

definition make_context_guard :: "nat \<Rightarrow> nat \<Rightarrow> guard_state \<Rightarrow> guard_state option" where
  "make_context_guard g c s =
     (case context_executor c of None \<Rightarrow> None | Some r \<Rightarrow> guard_make g (G_any_io r) s)"

datatype guard_op =
    Guard_make nat guard_executor
  | Guard_context nat nat
  | Guard_move nat nat
  | Guard_assign nat nat
  | Guard_reset nat
  | Guard_destroy nat

primrec guard_do :: "guard_op \<Rightarrow> guard_state \<Rightarrow> guard_state option" where
  "guard_do (Guard_make g ex) s = guard_make g ex s"
| "guard_do (Guard_context g c) s = make_context_guard g c s"
| "guard_do (Guard_move g other) s = guard_move g other s"
| "guard_do (Guard_assign g other) s = guard_assign g other s"
| "guard_do (Guard_reset g) s = guard_reset g s"
| "guard_do (Guard_destroy g) s = guard_destroy g s"

text \<open>
  The lifetimes the language enforces, an object is constructed where there is none and
  used where there is one, and the executors guards are made for are not empty.
\<close>

primrec guard_op_ok :: "guard_op \<Rightarrow> guard_state \<Rightarrow> bool" where
  "guard_op_ok (Guard_make g ex) s = (gs_guards s g = None \<and> executor_nonempty ex)"
| "guard_op_ok (Guard_context g c) s = (gs_guards s g = None)"
| "guard_op_ok (Guard_move g other) s = (gs_guards s g = None \<and> gs_guards s other \<noteq> None)"
| "guard_op_ok (Guard_assign g other) s = (gs_guards s g \<noteq> None \<and> gs_guards s other \<noteq> None)"
| "guard_op_ok (Guard_reset g) s = (gs_guards s g \<noteq> None)"
| "guard_op_ok (Guard_destroy g) s = (gs_guards s g \<noteq> None)"

inductive guard_step :: "guard_state \<Rightarrow> guard_state \<Rightarrow> bool" where
  "guard_op_ok op s \<Longrightarrow> guard_do op s = Some t \<Longrightarrow> guard_step s t"

section \<open>Invariant\<close>

definition owns_for :: "work_owner \<Rightarrow> work_guard option \<Rightarrow> bool" where
  "owns_for c x \<longleftrightarrow> (case x of None \<Rightarrow> False | Some y \<Rightarrow> gd_owns y \<and> work_counter (gd_executor y) = Some c)"

definition guard_inv :: "guard_state \<Rightarrow> bool" where
  "guard_inv s \<longleftrightarrow> (\<forall>c. finite {g. owns_for c (gs_guards s g)} \<and> gs_counts s c = card {g. owns_for c (gs_guards s g)})"

lemma guard_inv_init: "guard_inv guard_init"
  by (simp add: guard_inv_def guard_init_def owns_for_def)

lemma guard_inv_pos: "guard_inv s \<Longrightarrow> owns_for c (gs_guards s g) \<Longrightarrow> gs_counts s c \<noteq> 0"
  by (auto simp: guard_inv_def)

text \<open>An update of one guard and of the counters keeps the invariant when both change alike.\<close>

lemma guard_inv_update:
  assumes inv: "guard_inv s" and g: "gs_guards t = (gs_guards s)(g := x)"
    and n: "\<And>c. gs_counts t c + of_bool (owns_for c (gs_guards s g)) = gs_counts s c + of_bool (owns_for c x)"
  shows "guard_inv t"
  unfolding guard_inv_def
proof (intro allI conjI)
  fix c
  have fin: "finite {j. owns_for c (gs_guards s j)}" and cnt: "gs_counts s c = card {j. owns_for c (gs_guards s j)}"
    using inv by (simp_all add: guard_inv_def)
  show "finite {j. owns_for c (gs_guards t j)}" using card_update(1) [where P = "owns_for c", OF fin, of g x] g by simp
  define N where "N = card {j. owns_for c (((gs_guards s)(g := x)) j)}"
  have "N + of_bool (owns_for c (gs_guards s g)) = gs_counts s c + of_bool (owns_for c x)"
    using card_update(2) [where P = "owns_for c", OF fin, of g x] by (simp only: N_def cnt of_bool_def)
  then show "gs_counts t c = card {j. owns_for c (gs_guards t j)}" using n [of c] unfolding g N_def [symmetric] by linarith
qed

lemma guard_make_ok:
  assumes "guard_inv s" "gs_guards s g = None" "executor_nonempty ex"
  obtains t where "guard_make g ex s = Some t" "guard_inv t"
proof -
  let ?t = "put_guard g (Some \<lparr>gd_executor = ex, gd_owns = True\<rparr>) (ex_add_work ex s)"
  have "guard_inv ?t"
    by (rule guard_inv_update [OF assms(1), where g = g and x = "Some \<lparr>gd_executor = ex, gd_owns = True\<rparr>"])
      (auto simp: ex_add_work_def owns_for_def assms(2) wg_add_def split: option.splits)
  then show thesis using that assms(3) by (simp add: guard_make_def)
qed

lemma guard_reset_ok:
  assumes inv: "guard_inv s" and x: "gs_guards s g = Some x"
  obtains t where "guard_reset g s = Some t" "guard_inv t" "gs_guards t = (gs_guards s)(g \<mapsto> x\<lparr>gd_owns := False\<rparr>)"
proof (cases "gd_owns x")
  case False
  then have "gs_guards s = (gs_guards s)(g \<mapsto> x\<lparr>gd_owns := False\<rparr>)" using x by (simp add: fun_upd_idem)
  then show thesis using that [of s] inv x False by (simp add: guard_reset_def)
next
  case True
  show thesis
  proof (cases "work_counter (gd_executor x)")
    case None
    let ?t = "put_guard g (Some (x\<lparr>gd_owns := False\<rparr>)) s"
    have "guard_inv ?t"
      by (rule guard_inv_update [OF inv, where g = g and x = "Some (x\<lparr>gd_owns := False\<rparr>)"]) (use x None in \<open>simp_all add: owns_for_def\<close>)
    then show thesis using that x None True by (simp add: guard_reset_def ex_remove_work_def)
  next
    case (Some c)
    have own: "owns_for c (gs_guards s g)" using x Some True by (simp add: owns_for_def)
    then have "gs_counts s c \<noteq> 0" by (rule guard_inv_pos [OF inv])
    then have rm: "wg_remove (gs_counts s c) = Some (gs_counts s c, gs_counts s c - 1)" by (simp add: wg_remove_def)
    then obtain t where t: "guard_reset g s = Some t" "gs_guards t = (gs_guards s)(g \<mapsto> x\<lparr>gd_owns := False\<rparr>)"
        "gs_counts t = (gs_counts s)(c := gs_counts s c - 1)"
      using x Some True by (simp add: guard_reset_def ex_remove_work_def)
    have "guard_inv t"
      by (rule guard_inv_update [OF inv t(2)])
        (use \<open>gs_counts s c \<noteq> 0\<close> x Some True in \<open>auto simp: t(3) owns_for_def\<close>)
    then show thesis using that t by blast
  qed
qed

lemma guard_move_ok:
  assumes inv: "guard_inv s" and y: "gs_guards s other = Some y" and free: "\<And>c. \<not> owns_for c (gs_guards s g)" and ne: "g \<noteq> other"
  obtains t where "guard_move g other s = Some t" "guard_inv t"
proof -
  let ?u = "put_guard other (Some (y\<lparr>gd_owns := False\<rparr>)) (s\<lparr>gs_counts := \<lambda>c. gs_counts s c - of_bool (owns_for c (Some y))\<rparr>)"
  have pos: "owns_for c (Some y) \<Longrightarrow> gs_counts s c \<noteq> 0" for c using guard_inv_pos [OF inv, of c other] y by simp
  have u: "guard_inv ?u"
    by (rule guard_inv_update [OF inv, where g = other and x = "Some (y\<lparr>gd_owns := False\<rparr>)"]) (use y pos in \<open>auto simp: owns_for_def\<close>)
  let ?t = "put_guard other (Some (y\<lparr>gd_owns := False\<rparr>)) (put_guard g (Some y) s)"
  have "guard_inv ?t"
    by (rule guard_inv_update [OF u, where g = g and x = "Some y"]) (use free ne pos in \<open>auto simp: fun_upd_twist\<close>)
  then show thesis using that y by (simp add: guard_move_def)
qed

lemma guard_step_total:
  assumes inv: "guard_inv s" and ok: "guard_op_ok op s"
  obtains t where "guard_do op s = Some t" "guard_inv t"
proof (cases op)
  case (Guard_make g ex)
  then show thesis using guard_make_ok [OF inv] ok that by auto
next
  case (Guard_context g c)
  let ?ex = "G_any_io \<lparr>ai_storage = Some (Io_executor (Some c)), ai_impl = Some c\<rparr>"
  show thesis
    by (rule guard_make_ok [OF inv, of g ?ex])
      (use ok that Guard_context in \<open>simp_all add: make_context_guard_def context_executor_total\<close>)
next
  case (Guard_move g other)
  then obtain y where y: "gs_guards s g = None" "gs_guards s other = Some y" using ok by auto
  show thesis by (rule guard_move_ok [OF inv y(2), of g]) (use y that Guard_move in \<open>auto simp: owns_for_def\<close>)
next
  case (Guard_assign g other)
  then obtain x y where x: "gs_guards s g = Some x" and y: "gs_guards s other = Some y" using ok by auto
  show thesis
  proof (cases "g = other")
    case True
    then show thesis using that inv Guard_assign by (simp add: guard_assign_def)
  next
    case False
    obtain s1 where s1: "guard_reset g s = Some s1" "guard_inv s1" "gs_guards s1 = (gs_guards s)(g \<mapsto> x\<lparr>gd_owns := False\<rparr>)"
      by (rule guard_reset_ok [OF inv x])
    obtain t where "guard_move g other s1 = Some t" "guard_inv t"
      by (rule guard_move_ok [OF s1(2), of other y g]) (use s1(3) y False in \<open>auto simp: owns_for_def\<close>)
    then show thesis using that s1(1) Guard_assign False by (simp add: guard_assign_def)
  qed
next
  case (Guard_reset g)
  then obtain x where x: "gs_guards s g = Some x" using ok by auto
  show thesis by (rule guard_reset_ok [OF inv x]) (use that Guard_reset in simp)
next
  case (Guard_destroy g)
  then obtain x where x: "gs_guards s g = Some x" using ok by auto
  obtain t where t: "guard_reset g s = Some t" "guard_inv t" "gs_guards t = (gs_guards s)(g \<mapsto> x\<lparr>gd_owns := False\<rparr>)"
    by (rule guard_reset_ok [OF inv x])
  have "guard_inv (put_guard g None t)"
    by (rule guard_inv_update [OF t(2), where g = g and x = None]) (simp_all add: t(3) owns_for_def)
  then show thesis using that t(1) Guard_destroy by (simp add: guard_destroy_def)
qed

interpretation guards: inductive_invariant "\<lambda>s. s = guard_init" guard_step guard_inv
proof
  show "guard_inv t" if "guard_inv s" "guard_step s t" for s t
    using that(2,1) by cases (metis guard_step_total option.inject)
qed (simp add: guard_inv_init)

text \<open>The removal of the last guard is followed by a wake-up.\<close>

lemma guard_reset_wakes:
  "guard_reset g s = Some t \<Longrightarrow> gs_counts s c \<noteq> 0 \<Longrightarrow> gs_counts t c = 0 \<Longrightarrow> gs_wakes t c = Suc (gs_wakes s c)"
  by (auto simp: guard_reset_def ex_remove_work_def wg_remove_def split: option.splits if_splits)

lemma guard_make_counts: "guard_make g ex s = Some t \<Longrightarrow> gs_counts s c \<le> gs_counts t c"
  by (auto simp: guard_make_def ex_add_work_def wg_add_def split: if_splits option.splits)

lemma guard_move_counts: "guard_move g other s = Some t \<Longrightarrow> gs_counts t = gs_counts s \<and> gs_wakes t = gs_wakes s"
  by (auto simp: guard_move_def)

lemma guard_do_wakes:
  assumes "guard_do op s = Some t" "gs_counts s c \<noteq> 0" "gs_counts t c = 0"
  shows "gs_wakes t c = Suc (gs_wakes s c)"
proof (cases op)
  case (Guard_make g ex)
  then show ?thesis using guard_make_counts [of g ex s t c] assms by simp
next
  case (Guard_context g k)
  then show ?thesis using guard_make_counts [of g _ s t c] assms by (auto simp: make_context_guard_def split: option.splits)
next
  case (Guard_move g other)
  then show ?thesis using guard_move_counts assms by auto
next
  case (Guard_assign g other)
  show ?thesis
  proof (cases "g = other")
    case True
    then show ?thesis using Guard_assign assms by (simp add: guard_assign_def)
  next
    case False
    then obtain s1 where "guard_reset g s = Some s1" "guard_move g other s1 = Some t"
      using Guard_assign assms(1) by (auto simp: guard_assign_def split: option.splits)
    then show ?thesis using guard_reset_wakes [of g s s1 c] guard_move_counts [of g other s1 t] assms by simp
  qed
next
  case (Guard_reset g)
  then show ?thesis using guard_reset_wakes assms by simp
next
  case (Guard_destroy g)
  then show ?thesis using guard_reset_wakes [of g s _ c] assms by (auto simp: guard_destroy_def)
qed

text \<open>
  (C18) Work guards: whatever guards a program makes, moves, assigns, resets and destroys,
  the counter of a context or pool is the number of guards that own work for it, so it has
  work exactly as long as there is such a guard; no operation fails the check on the
  counter; and the operation that gives up the last guard sends a wake-up.
\<close>

theorem work_guards_counted:
  assumes "reach (\<lambda>s. s = guard_init) guard_step s"
  shows "gs_counts s c = card {g. owns_for c (gs_guards s g)} \<and>
    (wg_has_work (gs_counts s c) \<longleftrightarrow> (\<exists>g. owns_for c (gs_guards s g))) \<and>
    (guard_op_ok op s \<longrightarrow> (\<exists>t. guard_do op s = Some t \<and>
       (wg_has_work (gs_counts s c) \<and> \<not> wg_has_work (gs_counts t c) \<longrightarrow> gs_wakes t c = Suc (gs_wakes s c))))"
proof -
  have inv: "guard_inv s" by (rule guards.reach_inv [OF assms])
  then have "finite {g. owns_for c (gs_guards s g)}" "gs_counts s c = card {g. owns_for c (gs_guards s g)}"
    by (simp_all add: guard_inv_def)
  moreover have "\<exists>t. guard_do op s = Some t \<and> (wg_has_work (gs_counts s c) \<and> \<not> wg_has_work (gs_counts t c) \<longrightarrow> gs_wakes t c = Suc (gs_wakes s c))"
    if "guard_op_ok op s"
    by (rule guard_step_total [OF inv that]) (use guard_do_wakes [of op s _ c] in \<open>auto simp: wg_has_work_def\<close>)
  ultimately show ?thesis by (auto simp: wg_has_work_def card_gt_0_iff)
qed

text \<open>A guard for context 3 is moved; only the second one owns work, and resetting it wakes the loop.\<close>

theorem work_guards_counted_witness:
  "\<exists>s. reach (\<lambda>s. s = guard_init) guard_step s \<and> gs_counts s (Context_work 3) = 1 \<and>
     (\<exists>t. guard_do (Guard_reset 2) s = Some t \<and> gs_counts t (Context_work 3) = 0 \<and> gs_wakes t (Context_work 3) = 1)"
proof -
  let ?a = "the (guard_do (Guard_context 1 3) guard_init)"
  let ?b = "the (guard_do (Guard_move 2 1) ?a)"
  note eval = make_context_guard_def context_executor_total guard_make_def guard_move_def guard_reset_def ex_add_work_def
    ex_remove_work_def wg_add_def wg_remove_def guard_init_def wg_has_work_def
  have a: "guard_step guard_init ?a" by (rule guard_step.intros [of "Guard_context 1 3"]) (simp_all add: eval)
  have b: "guard_step ?a ?b" by (rule guard_step.intros [of "Guard_move 2 1"]) (simp_all add: eval)
  have "reach (\<lambda>s. s = guard_init) guard_step guard_init" by (rule reach_start) simp
  from reach_step [OF reach_step [OF this a] b] have r: "reach (\<lambda>s. s = guard_init) guard_step ?b" .
  have v: "gs_counts ?b (Context_work 3) = 1" "gs_wakes ?b (Context_work 3) = 0" "guard_op_ok (Guard_reset 2) ?b"
    "\<exists>t. guard_do (Guard_reset 2) ?b = Some t \<and> gs_counts t (Context_work 3) = 0" by (simp_all add: eval)
  show ?thesis
    by (rule exI [of _ ?b]) (use work_guards_counted [OF r, of "Context_work 3" "Guard_reset 2"] v r in \<open>auto simp: wg_has_work_def\<close>)
qed

end
