(* ===== verification/RemoveSync.thy ===== *)
theory RemoveSync
  imports Prelude
begin

text \<open>
  \<open>io_context_impl::remove_fd_sync\<close> (\<open>impl/io_context_impl.ipp\<close>): a thread that is not the
  loop's asks the loop to remove a descriptor and waits on \<open>state_change_cv_\<close> until the
  closure it posted has run or the loop is no longer running; in the latter case it removes
  the descriptor itself. The two threads interleave at every atomic access: the two loads
  of the wait predicate, the exchange on \<open>removed\<close>, the store of \<open>done\<close>, the store of
  \<open>running_\<close> by the scope guard of \<open>run\<close> and the two calls of \<open>notify_state_change\<close>, none
  of which takes \<open>state_change_mtx_\<close>. A thread waiting on the condition variable may also
  wake up on its own. On the loop's own thread the call is \<open>remove_fd_impl\<close> itself.
\<close>

section \<open>State\<close>

text \<open>
  Caller: \<open>W_start\<close> before the first load of \<open>running_\<close>; \<open>W_direct\<close> inside
  \<open>remove_fd_impl\<close> on the path without a closure; \<open>W_dispatch\<close> before
  \<open>dispatch_reactor\<close>; \<open>W_done\<close> and \<open>W_running\<close> before the loads of the wait predicate;
  \<open>W_wait\<close> after the predicate was false and before the thread sleeps; \<open>W_blocked\<close> asleep;
  \<open>W_after\<close> with the mutex released; \<open>W_exchange\<close> before the exchange; \<open>W_removing\<close> inside
  \<open>remove_fd_impl\<close>; \<open>W_store\<close> before the store of \<open>done\<close>; \<open>W_returned\<close>.
  Loop: \<open>L_idle\<close> outside \<open>run\<close>; \<open>L_loop\<close> inside; \<open>L_exchange\<close>, \<open>L_removing\<close>, \<open>L_store\<close> and
  \<open>L_notify\<close> inside the closure; \<open>L_guard\<close> before the scope guard's store of \<open>running_\<close> and
  \<open>L_exit\<close> before its notification.
\<close>

datatype caller_pc = W_start | W_direct | W_dispatch | W_done | W_running | W_wait | W_blocked
  | W_after | W_exchange | W_removing | W_store | W_returned

datatype loop_pc = L_idle | L_loop | L_exchange | L_removing | L_store | L_notify | L_guard | L_exit

text \<open>
  \<open>sy_posted\<close>, \<open>sy_removals\<close> and \<open>sy_runs\<close> are history: whether the caller made a closure,
  how often \<open>remove_fd_impl\<close> ended, and how many calls of \<open>run\<close> began since the call.
\<close>

record sync_sys =
  sy_running :: bool
  sy_removed :: bool
  sy_done :: bool
  sy_queued :: bool
  sy_caller :: caller_pc
  sy_loop :: loop_pc
  sy_posted :: bool
  sy_removals :: nat
  sy_runs :: nat

definition sync_init :: "bool \<Rightarrow> sync_sys" where
  "sync_init running = \<lparr>sy_running = running, sy_removed = False, sy_done = False, sy_queued = False,
     sy_caller = W_start, sy_loop = (if running then L_loop else L_idle),
     sy_posted = False, sy_removals = 0, sy_runs = 0\<rparr>"

definition sync_start :: "sync_sys \<Rightarrow> bool" where
  "sync_start s \<longleftrightarrow> s = sync_init (sy_running s)"

section \<open>The caller\<close>

definition sync_begin :: "int \<Rightarrow> bool \<Rightarrow> bool \<Rightarrow> caller_pc" where
  "sync_begin fd running own =
     (if fd < 0 then W_returned else if \<not> running \<or> own then W_direct else W_dispatch)"

definition caller_step :: "int \<Rightarrow> sync_sys \<Rightarrow> sync_sys option" where
  "caller_step fd s =
     (case sy_caller s of
        W_start \<Rightarrow> Some (s\<lparr>sy_caller := sync_begin fd (sy_running s) False\<rparr>)
      | W_direct \<Rightarrow> Some (s\<lparr>sy_removals := Suc (sy_removals s), sy_caller := W_returned\<rparr>)
      | W_dispatch \<Rightarrow> Some (s\<lparr>sy_posted := True, sy_queued := True, sy_caller := W_done\<rparr>)
      | W_done \<Rightarrow> Some (s\<lparr>sy_caller := (if sy_done s then W_after else W_running)\<rparr>)
      | W_running \<Rightarrow> Some (s\<lparr>sy_caller := (if sy_running s then W_wait else W_after)\<rparr>)
      | W_wait \<Rightarrow> Some (s\<lparr>sy_caller := W_blocked\<rparr>)
      | W_blocked \<Rightarrow> None
      | W_after \<Rightarrow> Some (s\<lparr>sy_caller := (if sy_done s then W_returned else W_exchange)\<rparr>)
      | W_exchange \<Rightarrow> Some (s\<lparr>sy_removed := True, sy_caller := (if sy_removed s then W_store else W_removing)\<rparr>)
      | W_removing \<Rightarrow> Some (s\<lparr>sy_removals := Suc (sy_removals s), sy_caller := W_store\<rparr>)
      | W_store \<Rightarrow> Some (s\<lparr>sy_done := True, sy_caller := W_returned\<rparr>)
      | W_returned \<Rightarrow> None)"

section \<open>The loop\<close>

definition notify_state_change :: "sync_sys \<Rightarrow> sync_sys" where
  "notify_state_change s = (if sy_caller s = W_blocked then s\<lparr>sy_caller := W_done\<rparr> else s)"

definition remove_once :: "sync_sys \<Rightarrow> sync_sys option" where
  "remove_once s =
     (case sy_loop s of
        L_exchange \<Rightarrow> Some (s\<lparr>sy_removed := True, sy_loop := (if sy_removed s then L_store else L_removing)\<rparr>)
      | L_removing \<Rightarrow> Some (s\<lparr>sy_removals := Suc (sy_removals s), sy_loop := L_store\<rparr>)
      | L_store \<Rightarrow> Some (s\<lparr>sy_done := True, sy_loop := L_notify\<rparr>)
      | L_notify \<Rightarrow> Some (notify_state_change s\<lparr>sy_loop := L_loop\<rparr>)
      | _ \<Rightarrow> None)"

definition run_enter :: "sync_sys \<Rightarrow> sync_sys option" where
  "run_enter s = (if sy_loop s = L_idle \<and> \<not> sy_running s
     then Some (s\<lparr>sy_running := True, sy_loop := L_loop, sy_runs := Suc (sy_runs s)\<rparr>) else None)"

definition run_take :: "sync_sys \<Rightarrow> sync_sys option" where
  "run_take s = (if sy_loop s = L_loop \<and> sy_queued s
     then Some (s\<lparr>sy_queued := False, sy_loop := L_exchange\<rparr>) else None)"

definition run_leave :: "sync_sys \<Rightarrow> sync_sys option" where
  "run_leave s =
     (case sy_loop s of
        L_loop \<Rightarrow> Some (s\<lparr>sy_loop := L_guard\<rparr>)
      | L_guard \<Rightarrow> Some (s\<lparr>sy_running := False, sy_loop := L_exit\<rparr>)
      | L_exit \<Rightarrow> Some (notify_state_change s\<lparr>sy_loop := L_idle\<rparr>)
      | _ \<Rightarrow> None)"

inductive sync_step :: "int \<Rightarrow> sync_sys \<Rightarrow> sync_sys \<Rightarrow> bool" for fd :: int where
  caller: "caller_step fd s = Some t \<Longrightarrow> sync_step fd s t"
| closure: "remove_once s = Some t \<Longrightarrow> sync_step fd s t"
| enter: "run_enter s = Some t \<Longrightarrow> sync_step fd s t"
| take: "run_take s = Some t \<Longrightarrow> sync_step fd s t"
| leave: "run_leave s = Some t \<Longrightarrow> sync_step fd s t"
| spurious: "sy_caller s = W_blocked \<Longrightarrow> sync_step fd s (s\<lparr>sy_caller := W_done\<rparr>)"

text \<open>Schedules, to run the two threads on concrete inputs, and the caller running alone.\<close>

datatype move = M_caller | M_closure | M_enter | M_take | M_leave

primrec sync_move :: "int \<Rightarrow> move \<Rightarrow> sync_sys \<Rightarrow> sync_sys option" where
  "sync_move fd M_caller s = caller_step fd s"
| "sync_move fd M_closure s = remove_once s"
| "sync_move fd M_enter s = run_enter s"
| "sync_move fd M_take s = run_take s"
| "sync_move fd M_leave s = run_leave s"

fun caller_alone :: "nat \<Rightarrow> int \<Rightarrow> sync_sys \<Rightarrow> sync_sys" where
  "caller_alone 0 fd s = s"
| "caller_alone (Suc n) fd s = (case caller_step fd s of None \<Rightarrow> s | Some t \<Rightarrow> caller_alone n fd t)"

section \<open>Invariant\<close>

definition in_closure :: "loop_pc \<Rightarrow> bool" where
  "in_closure l \<longleftrightarrow> l \<in> {L_exchange, L_removing, L_store, L_notify}"

definition before_dispatch :: "caller_pc \<Rightarrow> bool" where
  "before_dispatch w \<longleftrightarrow> w \<in> {W_start, W_direct, W_dispatch, W_returned}"

text \<open>What holds whether or not the loop is run again while the call is under way.\<close>

definition sync_inv :: "sync_sys \<Rightarrow> bool" where
  "sync_inv s \<longleftrightarrow>
     (sy_running s \<longleftrightarrow> sy_loop s \<noteq> L_idle \<and> sy_loop s \<noteq> L_exit) \<and>
     (if sy_posted s then
        sy_removals s + of_bool (sy_caller s = W_removing) + of_bool (sy_loop s = L_removing) = of_bool (sy_removed s) \<and>
        sy_caller s \<notin> {W_start, W_direct, W_dispatch} \<and>
        (sy_queued s \<longrightarrow> \<not> in_closure (sy_loop s)) \<and>
        (sy_done s \<or> sy_loop s = L_store \<or> sy_caller s = W_store \<longrightarrow> sy_removed s)
      else
        before_dispatch (sy_caller s) \<and> \<not> sy_queued s \<and> \<not> in_closure (sy_loop s) \<and> \<not> sy_removed s \<and> \<not> sy_done s \<and>
        sy_removals s = of_bool (sy_caller s = W_returned))"

text \<open>What holds besides as long as \<open>run\<close> has not been called again.\<close>

definition quiet_inv :: "sync_sys \<Rightarrow> bool" where
  "quiet_inv s \<longleftrightarrow>
     (sy_caller s \<in> {W_direct, W_exchange, W_removing} \<longrightarrow> \<not> sy_running s) \<and>
     (sy_caller s = W_after \<longrightarrow> sy_done s \<or> \<not> sy_running s) \<and>
     (sy_caller s = W_exchange \<longrightarrow> \<not> sy_removed s) \<and>
     (sy_caller s \<in> {W_done, W_running, W_wait, W_blocked, W_after} \<and> sy_removed s \<longrightarrow>
        sy_done s \<or> sy_loop s = L_removing \<or> sy_loop s = L_store) \<and>
     (sy_caller s = W_store \<or> sy_loop s = L_store \<or> sy_done s \<or> sy_caller s = W_returned \<longrightarrow> sy_removals s = 1) \<and>
     (sy_running s \<and> (sy_queued s \<or> sy_loop s = L_exchange) \<longrightarrow> \<not> sy_removed s)"

lemma sync_inv_init: "sync_inv (sync_init r)" and quiet_inv_init: "quiet_inv (sync_init r)"
  by (simp_all add: sync_inv_def quiet_inv_def sync_init_def in_closure_def before_dispatch_def)

lemmas sync_defs = caller_step_def remove_once_def run_enter_def run_take_def run_leave_def notify_state_change_def sync_begin_def

lemma sync_runs_mono: "sync_step fd s t \<Longrightarrow> sy_runs s \<le> sy_runs t"
  by (induction rule: sync_step.induct)
    (auto simp: sync_defs split: caller_pc.splits loop_pc.splits if_splits)

lemmas sync_inv_defs = sync_inv_def quiet_inv_def in_closure_def before_dispatch_def sync_defs

lemma sync_inv_caller: "sync_inv s \<Longrightarrow> 0 \<le> fd \<Longrightarrow> caller_step fd s = Some t \<Longrightarrow> sync_inv t"
  by (cases "sy_caller s"; cases "sy_loop s"; cases "sy_posted s"; cases "sy_removed s"; clarsimp simp: sync_inv_defs split: if_splits)

lemma sync_inv_closure: "sync_inv s \<Longrightarrow> remove_once s = Some t \<Longrightarrow> sync_inv t"
  by (cases "sy_caller s"; cases "sy_loop s"; cases "sy_posted s"; cases "sy_removed s"; clarsimp simp: sync_inv_defs split: if_splits)

lemma sync_inv_enter: "sync_inv s \<Longrightarrow> run_enter s = Some t \<Longrightarrow> sync_inv t"
  by (cases "sy_caller s"; cases "sy_loop s"; cases "sy_posted s"; cases "sy_removed s"; clarsimp simp: sync_inv_defs split: if_splits)

lemma sync_inv_take: "sync_inv s \<Longrightarrow> run_take s = Some t \<Longrightarrow> sync_inv t"
  by (cases "sy_caller s"; cases "sy_loop s"; cases "sy_posted s"; cases "sy_removed s"; clarsimp simp: sync_inv_defs split: if_splits)

lemma sync_inv_leave: "sync_inv s \<Longrightarrow> run_leave s = Some t \<Longrightarrow> sync_inv t"
  by (cases "sy_caller s"; cases "sy_loop s"; cases "sy_posted s"; cases "sy_removed s"; clarsimp simp: sync_inv_defs split: if_splits)

lemma sync_inv_step: "sync_step fd s t \<Longrightarrow> 0 \<le> fd \<Longrightarrow> sync_inv s \<Longrightarrow> sync_inv t"
proof (induction rule: sync_step.induct)
  case (spurious s)
  then show ?case by (cases "sy_posted s") (auto simp: sync_inv_def before_dispatch_def)
qed (blast intro: sync_inv_caller sync_inv_closure sync_inv_enter sync_inv_take sync_inv_leave)+

lemma quiet_caller:
  "sync_inv s \<Longrightarrow> quiet_inv s \<Longrightarrow> 0 \<le> fd \<Longrightarrow> caller_step fd s = Some t \<Longrightarrow> quiet_inv t"
  by (cases "sy_caller s"; cases "sy_loop s"; cases "sy_posted s"; cases "sy_removed s"; clarsimp simp: sync_inv_defs split: if_splits)

lemma quiet_closure: "sync_inv s \<Longrightarrow> quiet_inv s \<Longrightarrow> remove_once s = Some t \<Longrightarrow> quiet_inv t"
  by (cases "sy_caller s"; cases "sy_loop s"; cases "sy_posted s"; cases "sy_removed s"; clarsimp simp: sync_inv_defs split: if_splits)

lemma quiet_take: "sync_inv s \<Longrightarrow> quiet_inv s \<Longrightarrow> run_take s = Some t \<Longrightarrow> quiet_inv t"
  by (cases "sy_caller s"; cases "sy_loop s"; cases "sy_posted s"; cases "sy_removed s"; clarsimp simp: sync_inv_defs split: if_splits)

lemma quiet_leave: "sync_inv s \<Longrightarrow> quiet_inv s \<Longrightarrow> run_leave s = Some t \<Longrightarrow> quiet_inv t"
  by (cases "sy_caller s"; cases "sy_loop s"; cases "sy_posted s"; cases "sy_removed s"; clarsimp simp: sync_inv_defs split: if_splits)

lemma quiet_step:
  "sync_step fd s t \<Longrightarrow> 0 \<le> fd \<Longrightarrow> sync_inv s \<Longrightarrow> quiet_inv s \<Longrightarrow> sy_runs t = 0 \<Longrightarrow> quiet_inv t"
proof (induction rule: sync_step.induct)
  case (enter s t)
  then show ?case by (auto simp: run_enter_def split: if_splits)
next
  case (spurious s)
  then show ?case by (auto simp: quiet_inv_def)
qed (blast intro: quiet_caller quiet_closure quiet_take quiet_leave)+

definition sync_call_inv :: "sync_sys \<Rightarrow> bool" where
  "sync_call_inv s \<longleftrightarrow> sync_inv s \<and> (sy_runs s = 0 \<longrightarrow> quiet_inv s)"

interpretation sync: inductive_invariant sync_start "sync_step (int fd)" sync_call_inv for fd
proof
  show "sync_call_inv s" if "sync_start s" for s
    using that sync_inv_init quiet_inv_init by (metis sync_call_inv_def sync_start_def)
  show "sync_call_inv t" if "sync_call_inv s" "sync_step (int fd) s t" for s t
    using that sync_inv_step [OF that(2)] quiet_step [OF that(2)] sync_runs_mono [OF that(2)] by (simp add: sync_call_inv_def)
qed

lemma sync_move_step: "sync_move fd m s = Some t \<Longrightarrow> sync_step fd s t"
  by (cases m) (simp_all add: sync_step.intros)

interpretation sync_run: labelled_steps sync_start "sync_step fd" "sync_move fd" for fd
  by unfold_locales (fact sync_move_step)

lemma sync_start_init: "sync_start (sync_init r)"
  by (simp add: sync_start_def sync_init_def)

lemmas sync_run_init = sync_run.do_all_reach [OF reach_start, OF sync_start_init]

text \<open>
  With the loop left for good, the caller needs no one's help unless it has decided to
  sleep: ten of its own steps, more than any path through the function has, return.
\<close>

lemma caller_alone_returns:
  assumes "sync_inv s" "quiet_inv s" "0 \<le> fd" "sy_loop s = L_idle" "sy_caller s \<noteq> W_wait" "sy_caller s \<noteq> W_blocked"
  shows "sy_caller (caller_alone 10 fd s) = W_returned \<and> sy_removals (caller_alone 10 fd s) = 1"
  using assms
  by (cases "sy_caller s"; cases "sy_posted s"; cases "sy_removed s"; cases "sy_done s";
      clarsimp simp: sync_inv_defs numeral_eq_Suc split: if_splits)

section \<open>Properties\<close>

text \<open>
  (C16) Removing a descriptor from another thread: \<open>remove_fd_impl\<close> is called at most once,
  whatever runs of the loop begin and end meanwhile. As long as no new run begins, the call
  returns only after the descriptor has been removed exactly once, and the caller touches
  the registry itself only while no loop is running. When the loop has been left and the
  caller has not gone to sleep, it returns by its own steps with the descriptor removed.
\<close>

theorem remove_sync_correct:
  assumes "reach sync_start (sync_step (int fd)) s"
  shows "sy_removals s + of_bool (sy_caller s = W_direct \<or> sy_caller s = W_removing) + of_bool (sy_loop s = L_removing) \<le> 1 \<and>
    (sy_runs s = 0 \<longrightarrow>
      (sy_caller s = W_returned \<longrightarrow> sy_removals s = 1) \<and>
      (sy_caller s = W_direct \<or> sy_caller s = W_removing \<longrightarrow> \<not> sy_running s) \<and>
      (sy_loop s = L_idle \<and> sy_caller s \<noteq> W_wait \<and> sy_caller s \<noteq> W_blocked \<longrightarrow>
        sy_caller (caller_alone 10 (int fd) s) = W_returned \<and> sy_removals (caller_alone 10 (int fd) s) = 1))"
proof (intro conjI impI; (elim conjE)?)
  have inv: "sync_inv s" "sy_runs s = 0 \<Longrightarrow> quiet_inv s" using sync.reach_inv [OF assms] by (simp_all add: sync_call_inv_def)
  show "sy_removals s + of_bool (sy_caller s = W_direct \<or> sy_caller s = W_removing) + of_bool (sy_loop s = L_removing) \<le> 1"
    using inv(1) by (cases "sy_posted s"; cases "sy_removed s"; cases "sy_caller s"; cases "sy_loop s"; clarsimp simp: sync_inv_defs)
  assume quiet: "sy_runs s = 0"
  note q = inv(2) [OF quiet]
  show "sy_removals s = 1" if "sy_caller s = W_returned" using q that by (simp add: quiet_inv_def)
  show "\<not> sy_running s" if "sy_caller s = W_direct \<or> sy_caller s = W_removing" using q that by (auto simp: quiet_inv_def)
  show "sy_caller (caller_alone 10 (int fd) s) = W_returned" "sy_removals (caller_alone 10 (int fd) s) = 1"
    if "sy_loop s = L_idle" "sy_caller s \<noteq> W_wait" "sy_caller s \<noteq> W_blocked"
    using caller_alone_returns [OF inv(1) q _ that, of "int fd"] by simp_all
qed

text \<open>The schedule in which the closure removes the descriptor while the caller sleeps.\<close>

theorem remove_sync_correct_witness:
  "let s = the (do_all (sync_move 5) [M_caller, M_caller, M_caller, M_caller, M_caller, M_take, M_closure, M_closure, M_closure, M_closure,
      M_caller, M_caller] (sync_init True))
   in reach sync_start (sync_step 5) s \<and> sy_caller s = W_returned \<and> sy_runs s = 0 \<and> sy_removals s = 1"
proof -
  let ?ms = "[M_caller, M_caller, M_caller, M_caller, M_caller, M_take, M_closure, M_closure, M_closure, M_closure, M_caller, M_caller]"
  obtain s where s: "do_all (sync_move 5) ?ms (sync_init True) = Some s" "sy_caller s = W_returned" "sy_runs s = 0"
    by (simp add: sync_init_def sync_defs)
  have r: "reach sync_start (sync_step 5) s" by (rule sync_run_init [OF s(1)])
  show ?thesis using remove_sync_correct [of 5 s] r s by (simp add: Let_def)
qed

text \<open>
  Neither the store of \<open>running_\<close> nor that of \<open>done\<close> is made under \<open>state_change_mtx_\<close>, so
  the notification can fall between the caller's evaluation of the predicate and its sleep.
  Then the caller sleeps with the loop gone, its closure in the queue and no thread left to
  notify it.
\<close>

lemma sync_lost_wakeup:
  "\<exists>s. reach sync_start (sync_step 5) s \<and> sy_runs s = 0 \<and> sy_caller s = W_blocked \<and> \<not> sy_running s \<and> sy_removals s = 0 \<and>
     caller_step 5 s = None \<and> remove_once s = None \<and> run_take s = None \<and> run_leave s = None"
proof -
  obtain s where s: "do_all (sync_move 5) [M_caller, M_caller, M_caller, M_caller, M_leave, M_leave, M_leave, M_caller] (sync_init True) = Some s"
      "sy_runs s = 0" "sy_caller s = W_blocked" "\<not> sy_running s" "sy_removals s = 0" "sy_loop s = L_idle"
    by (simp add: sync_init_def sync_defs)
  then show ?thesis using sync_run_init [OF s(1)] by (intro exI [of _ s]) (simp add: sync_defs)
qed

text \<open>The same with a loop that keeps running: \<open>done\<close> is set and notified, and the caller sleeps.\<close>

lemma sync_lost_wakeup_running:
  "\<exists>s. reach sync_start (sync_step 5) s \<and> sy_runs s = 0 \<and> sy_caller s = W_blocked \<and> sy_done s \<and> sy_loop s = L_loop \<and> \<not> sy_queued s"
proof -
  obtain s where s: "do_all (sync_move 5) [M_caller, M_caller, M_caller, M_caller, M_take, M_closure, M_closure, M_closure, M_closure, M_caller]
        (sync_init True) = Some s"
      "sy_runs s = 0" "sy_caller s = W_blocked" "sy_done s" "sy_loop s = L_loop" "\<not> sy_queued s"
    by (simp add: sync_init_def sync_defs)
  then show ?thesis using sync_run_init [OF s(1)] by (intro exI [of _ s]) simp
qed

text \<open>
  When the loop is run again between the caller's look at \<open>running_\<close> and its exchange, the
  caller may return while the reactor is still inside \<open>remove_fd_impl\<close>, or be inside it
  itself while a loop is running.
\<close>

lemma sync_restart_races:
  "\<exists>s. reach sync_start (sync_step 5) s \<and> sy_caller s = W_returned \<and> sy_loop s = L_removing \<and> sy_removals s = 0"
  "\<exists>s. reach sync_start (sync_step 5) s \<and> sy_caller s = W_removing \<and> sy_loop s = L_loop \<and> sy_running s"
proof -
  let ?ms = "[M_caller, M_caller, M_caller, M_leave, M_leave, M_leave, M_caller]"
  obtain s where s: "do_all (sync_move 5) (?ms @ [M_enter, M_take, M_closure, M_caller, M_caller, M_caller]) (sync_init True) = Some s"
      "sy_caller s = W_returned" "sy_loop s = L_removing" "sy_removals s = 0"
    by (simp add: sync_init_def sync_defs)
  then show "\<exists>s. reach sync_start (sync_step 5) s \<and> sy_caller s = W_returned \<and> sy_loop s = L_removing \<and> sy_removals s = 0"
    using sync_run_init [OF s(1)] by (intro exI [of _ s]) simp
  obtain t where t: "do_all (sync_move 5) (?ms @ [M_caller, M_caller, M_enter]) (sync_init True) = Some t"
      "sy_caller t = W_removing" "sy_loop t = L_loop" "sy_running t"
    by (simp add: sync_init_def sync_defs)
  then show "\<exists>s. reach sync_start (sync_step 5) s \<and> sy_caller s = W_removing \<and> sy_loop s = L_loop \<and> sy_running s"
    using sync_run_init [OF t(1)] by (intro exI [of _ t]) simp
qed

end
