(* ===== verification/AwaiterFrame.thy ===== *)
theory AwaiterFrame
  imports Prelude
begin

text \<open>
  The end of \<open>operation_awaiter::await_suspend\<close> (\<open>detail/operation_awaiter.hpp\<close>) against the
  coroutine it suspends. \<open>await_suspend\<close> runs on the loop's thread and touches the coroutine
  frame after the operation was registered: the promise for its stop token, then the awaiter for
  the stop callback. A registration that finds latched readiness completes the operation inside
  \<open>register_op\<close> and posts the coroutine to its executor (\<open>register_fd_impl\<close>, \<open>complete\<close>); any other
  completion comes from the loop, after \<open>await_suspend\<close> has returned to it. \<open>aw_same\<close> says
  whether that executor runs its callables on the loop's thread. \<open>aw_bad\<close> records a touch of a
  destroyed frame.
\<close>

datatype await_pc = A_register | A_token | A_callback | A_returned

record await_sys =
  aw_same :: bool
  aw_pc :: await_pc
  aw_latched :: bool
  aw_posted :: bool
  aw_resumed :: bool
  aw_alive :: bool
  aw_bad :: bool

definition await_start :: "await_sys \<Rightarrow> bool" where
  "await_start s \<longleftrightarrow> s = \<lparr>aw_same = aw_same s, aw_pc = A_register, aw_latched = False, aw_posted = False, aw_resumed = False,
     aw_alive = True, aw_bad = False\<rparr>"

definition await_register :: "bool \<Rightarrow> await_sys \<Rightarrow> await_sys option" where
  "await_register ready s =
     (if aw_pc s = A_register then Some (s\<lparr>aw_pc := A_token, aw_latched := ready, aw_posted := ready\<rparr>) else None)"

definition await_token :: "await_sys \<Rightarrow> await_sys option" where
  "await_token s =
     (if aw_pc s = A_token then Some (s\<lparr>aw_pc := A_callback, aw_bad := aw_bad s \<or> \<not> aw_alive s\<rparr>) else None)"

definition await_callback :: "await_sys \<Rightarrow> await_sys option" where
  "await_callback s =
     (if aw_pc s = A_callback then Some (s\<lparr>aw_pc := A_returned, aw_bad := aw_bad s \<or> \<not> aw_alive s\<rparr>) else None)"

definition loop_complete :: "await_sys \<Rightarrow> await_sys option" where
  "loop_complete s = (if aw_pc s = A_returned \<and> \<not> aw_posted s then Some (s\<lparr>aw_posted := True\<rparr>) else None)"

definition executor_resume :: "await_sys \<Rightarrow> await_sys option" where
  "executor_resume s =
     (if aw_posted s \<and> \<not> aw_resumed s \<and> (aw_same s \<longrightarrow> aw_pc s = A_returned) then Some (s\<lparr>aw_resumed := True\<rparr>) else None)"

definition frame_destroy :: "await_sys \<Rightarrow> await_sys option" where
  "frame_destroy s = (if aw_resumed s then Some (s\<lparr>aw_alive := False\<rparr>) else None)"

datatype await_label = Register bool | Token | Stop_callback | Complete | Resume | Destroy

primrec await_do :: "await_label \<Rightarrow> await_sys \<Rightarrow> await_sys option" where
  "await_do (Register ready) s = await_register ready s"
| "await_do Token s = await_token s"
| "await_do Stop_callback s = await_callback s"
| "await_do Complete s = loop_complete s"
| "await_do Resume s = executor_resume s"
| "await_do Destroy s = frame_destroy s"

inductive await_step :: "await_sys \<Rightarrow> await_sys \<Rightarrow> bool" where
  "await_do l s = Some t \<Longrightarrow> await_step s t"

definition await_inv :: "await_sys \<Rightarrow> bool" where
  "await_inv s \<longleftrightarrow> (aw_pc s = A_register \<longrightarrow> \<not> aw_latched s) \<and> (aw_posted s \<longrightarrow> aw_latched s \<or> aw_pc s = A_returned) \<and>
     (aw_resumed s \<longrightarrow> aw_posted s \<and> (aw_same s \<longrightarrow> aw_pc s = A_returned)) \<and>
     (\<not> aw_alive s \<longrightarrow> aw_resumed s) \<and> (aw_bad s \<longrightarrow> aw_latched s \<and> \<not> aw_same s)"

lemmas await_defs = await_register_def await_token_def await_callback_def loop_complete_def executor_resume_def frame_destroy_def

interpretation await: inductive_invariant await_start await_step await_inv
proof
  show "await_inv s" if "await_start s" for s
    using that unfolding await_start_def by (subst await_inv_def) (metis await_sys.simps(2-7))
  show "await_inv t" if inv: "await_inv s" and step: "await_step s t" for s t
  proof -
    obtain l where "await_do l s = Some t" using step by cases
    then show ?thesis using inv by (cases l) (auto simp: await_inv_def await_defs split: if_splits)
  qed
qed

interpretation await_run: labelled_steps await_start await_step await_do
  by unfold_locales (fact await_step.intros)

text \<open>
  \<open>await_suspend\<close> touches only a live frame when the coroutine's executor runs on the loop's
  thread or the registration found no latched readiness.
\<close>

lemma await_frame_alive: "reach await_start await_step s \<Longrightarrow> aw_same s \<or> \<not> aw_latched s \<Longrightarrow> \<not> aw_bad s"
  using await.reach_inv unfolding await_inv_def by blast

text \<open>
  Otherwise, with latched readiness and an executor on other threads, such as a pool, the coroutine
  can be resumed and its frame destroyed before \<open>await_suspend\<close> asks for its stop token.
\<close>

lemma await_frame_use_after_free: "\<exists>s. reach await_start await_step s \<and> aw_bad s"
proof -
  define s0 where "s0 = \<lparr>aw_same = False, aw_pc = A_register, aw_latched = False, aw_posted = False, aw_resumed = False,
     aw_alive = True, aw_bad = False\<rparr>"
  have "await_start s0" by (simp add: await_start_def s0_def)
  moreover have "\<exists>s. do_all await_do [Register True, Resume, Destroy, Token] s0 = Some s \<and> aw_bad s"
    by (simp add: s0_def await_defs)
  ultimately show ?thesis using await_run.do_all_reach [OF reach_start] by blast
qed

end
