(* ===== verification/Utilities.thy ===== *)
theory Utilities
  imports Errors
begin

text \<open>
  Small parts the others are built with: the scope guard of \<open>detail/scope_guard.hpp\<close>, the
  descriptor flags set by \<open>detail/socket_utils.hpp\<close>, draining the event descriptor of a backend,
  and the socket options of \<open>socket_option.hpp\<close> with the calls that set and get them. What the
  system calls do to the state \<open>'k\<close> of the kernel is a parameter.
\<close>

unbundle bit_operations_syntax

section \<open>Scope guards\<close>

text \<open>
  A guard has a callable and is active or not. The objects of a program are numbered in the order
  they are made; a destroyed one is \<open>None\<close>. \<open>se_runs\<close> lists the callables invoked; an exception
  of a callable is swallowed. \<open>se_made\<close> and \<open>se_released\<close> are history.
\<close>

record scope_exit =
  se_fn :: nat
  se_active :: bool

record scope_state =
  se_objs :: "scope_exit option list"
  se_runs :: "nat list"
  se_made :: "nat list"
  se_released :: "nat list"

definition scope_init :: scope_state where
  "scope_init = \<lparr>se_objs = [], se_runs = [], se_made = [], se_released = []\<rparr>"

definition scope_make :: "nat \<Rightarrow> scope_state \<Rightarrow> scope_state" where
  "scope_make f s = s\<lparr>se_objs := se_objs s @ [Some \<lparr>se_fn = f, se_active = True\<rparr>], se_made := se_made s @ [f]\<rparr>"

definition scope_run :: "nat \<Rightarrow> scope_exit \<Rightarrow> scope_state \<Rightarrow> scope_state" where
  "scope_run g x s =
     (if \<not> se_active x then s
      else s\<lparr>se_objs := (se_objs s)[g := Some (x\<lparr>se_active := False\<rparr>)], se_runs := se_runs s @ [se_fn x]\<rparr>)"

definition scope_move :: "nat \<Rightarrow> scope_exit \<Rightarrow> scope_state \<Rightarrow> scope_state" where
  "scope_move other y s = s\<lparr>se_objs := (se_objs s)[other := Some (y\<lparr>se_active := False\<rparr>)] @ [Some y]\<rparr>"

definition scope_assign :: "nat \<Rightarrow> scope_exit \<Rightarrow> nat \<Rightarrow> scope_exit \<Rightarrow> scope_state \<Rightarrow> scope_state" where
  "scope_assign g x other y s =
     (if g = other then s
      else (let s1 = scope_run g x s
            in s1\<lparr>se_objs := ((se_objs s1)[g := Some y])[other := Some (y\<lparr>se_active := False\<rparr>)]\<rparr>))"

definition scope_release :: "nat \<Rightarrow> scope_exit \<Rightarrow> scope_state \<Rightarrow> scope_state" where
  "scope_release g x s =
     s\<lparr>se_objs := (se_objs s)[g := Some (x\<lparr>se_active := False\<rparr>)],
       se_released := (if se_active x then se_released s @ [se_fn x] else se_released s)\<rparr>"

definition scope_destroy :: "nat \<Rightarrow> scope_exit \<Rightarrow> scope_state \<Rightarrow> scope_state" where
  "scope_destroy g x s = (let s1 = scope_run g x s in s1\<lparr>se_objs := (se_objs s1)[g := None]\<rparr>)"

inductive scope_step :: "scope_state \<Rightarrow> scope_state \<Rightarrow> bool" where
  make: "scope_step s (scope_make f s)"
| move: "other < length (se_objs s) \<Longrightarrow> se_objs s ! other = Some y \<Longrightarrow> scope_step s (scope_move other y s)"
| assign: "g < length (se_objs s) \<Longrightarrow> se_objs s ! g = Some x \<Longrightarrow> other < length (se_objs s) \<Longrightarrow> se_objs s ! other = Some y \<Longrightarrow>
    scope_step s (scope_assign g x other y s)"
| release: "g < length (se_objs s) \<Longrightarrow> se_objs s ! g = Some x \<Longrightarrow> scope_step s (scope_release g x s)"
| destroy: "g < length (se_objs s) \<Longrightarrow> se_objs s ! g = Some x \<Longrightarrow> scope_step s (scope_destroy g x s)"

definition scope_pending :: "scope_exit option \<Rightarrow> nat option" where
  "scope_pending x = (case x of None \<Rightarrow> None | Some y \<Rightarrow> if se_active y then Some (se_fn y) else None)"

definition scope_inv :: "scope_state \<Rightarrow> bool" where
  "scope_inv s \<longleftrightarrow> mset (se_made s) = mset (se_runs s) + mset (se_released s) + owned scope_pending (se_objs s)"

lemma scope_pending_simps [simp]:
  "scope_pending None = None" "scope_pending (Some (x\<lparr>se_active := False\<rparr>)) = None"
  "scope_pending (Some x) = (if se_active x then Some (se_fn x) else None)"
  by (simp_all add: scope_pending_def)

text \<open>Deactivating a guard takes what it owned out of the pending callables.\<close>

lemma scope_pending_off:
  assumes "g < length xs" "xs ! g = Some x" "scope_pending y = None"
  shows "owned scope_pending (xs[g := y]) + (if se_active x then {#se_fn x#} else {#}) = owned scope_pending xs"
  using owned_update_null [where f = scope_pending, OF assms(1), of y] assms(2,3) by (simp split: if_splits)

lemma scope_inv_run:
  assumes "scope_inv s" "g < length (se_objs s)" "se_objs s ! g = Some x"
  shows "scope_inv (scope_run g x s)" "length (se_objs (scope_run g x s)) = length (se_objs s)"
    "scope_pending (se_objs (scope_run g x s) ! g) = None"
    "other \<noteq> g \<Longrightarrow> se_objs (scope_run g x s) ! other = se_objs s ! other"
  using scope_pending_off [OF assms(2,3), of "Some (x\<lparr>se_active := False\<rparr>)"] assms
  by (auto simp: scope_inv_def scope_run_def)

lemma scope_inv_step: "scope_step s t \<Longrightarrow> scope_inv s \<Longrightarrow> scope_inv t"
proof (induction rule: scope_step.induct)
  case (move other s y)
  then show ?case using scope_pending_off [OF move(1,2), of "Some (y\<lparr>se_active := False\<rparr>)"]
    by (auto simp: scope_inv_def scope_move_def ac_simps)
next
  case (assign g s x other y)
  show ?case
  proof (cases "g = other")
    case True
    then show ?thesis using assign by (simp add: scope_assign_def)
  next
    case False
    define s1 where "s1 = scope_run g x s"
    note r = scope_inv_run [OF assign(5,1,2), folded s1_def]
    define xs where "xs = (se_objs s1)[g := Some y]"
    have xs: "owned scope_pending xs = owned scope_pending (se_objs s1) + opt_mset (scope_pending (Some y))"
      unfolding xs_def by (rule owned_update_fill) (use r assign(1) in simp_all)
    have "xs ! other = Some y" "other < length xs" using r(4) [of other] r(2) False assign by (simp_all add: xs_def)
    then have "owned scope_pending (xs[other := Some (y\<lparr>se_active := False\<rparr>)]) = owned scope_pending (se_objs s1)"
      using scope_pending_off [of other xs y "Some (y\<lparr>se_active := False\<rparr>)"] xs by (auto split: if_splits)
    then show ?thesis using r(1) False by (simp add: scope_inv_def scope_assign_def Let_def s1_def [symmetric] xs_def)
  qed
next
  case (release g s x)
  then show ?case using scope_pending_off [OF release(1,2), of "Some (x\<lparr>se_active := False\<rparr>)"]
    by (auto simp: scope_inv_def scope_release_def)
next
  case (destroy g s x)
  define s1 where "s1 = scope_run g x s"
  note r = scope_inv_run [OF destroy(3,1,2), folded s1_def]
  have "owned scope_pending ((se_objs s1)[g := None]) = owned scope_pending (se_objs s1)"
    by (rule owned_update_same) (use r destroy(1) in simp_all)
  then show ?case using r(1) by (simp add: scope_inv_def scope_destroy_def Let_def s1_def [symmetric])
qed (simp_all add: scope_inv_def scope_make_def)

interpretation scope: inductive_invariant "\<lambda>s. s = scope_init" scope_step scope_inv
  by unfold_locales (simp add: scope_inv_def scope_init_def, rule scope_inv_step)

text \<open>
  Every callable given to a scope guard is invoked once, or was released, or is still owned by an
  active guard; when all guards are gone it is one of the first two.
\<close>

lemma scope_exit_runs_once:
  assumes "reach (\<lambda>s. s = scope_init) scope_step s"
  shows "mset (se_made s) = mset (se_runs s) + mset (se_released s) + owned scope_pending (se_objs s)"
    "\<forall>x \<in> set (se_objs s). x = None \<Longrightarrow> mset (se_made s) = mset (se_runs s) + mset (se_released s)"
proof -
  show all: "mset (se_made s) = mset (se_runs s) + mset (se_released s) + owned scope_pending (se_objs s)"
    using scope.reach_inv [OF assms] by (simp add: scope_inv_def)
  show "mset (se_made s) = mset (se_runs s) + mset (se_released s)" if "\<forall>x \<in> set (se_objs s). x = None"
  proof -
    have "\<forall>x \<in> set (se_objs s). scope_pending x = None" using that by fastforce
    then show ?thesis using all by (simp add: owned_empty_iff [THEN iffD2])
  qed
qed

section \<open>Descriptor flags\<close>

text \<open>
  \<open>fcntl\<close> on one descriptor: the error number on the left, a non-negative result on the right, and
  the new state of the kernel. A call that is interrupted is made again.
\<close>

datatype fd_cmd = F_GETFL | F_SETFL | F_GETFD | F_SETFD

type_synonym 'k fcntl = "fd_cmd \<Rightarrow> u32 \<Rightarrow> 'k \<Rightarrow> (int + int) \<times> 'k"

partial_function (option) retry_fcntl :: "'k fcntl \<Rightarrow> fd_cmd \<Rightarrow> u32 \<Rightarrow> 'k \<Rightarrow> ((int + int) \<times> 'k) option" where
  "retry_fcntl fcntl cmd arg k =
     (case fcntl cmd arg k of
        (Inr r, k1) \<Rightarrow> Some (Inr r, k1)
      | (Inl err, k1) \<Rightarrow> if err = EINTR then retry_fcntl fcntl cmd arg k1 else Some (Inl err, k1))"

definition set_flag :: "'k fcntl \<Rightarrow> fd_cmd \<Rightarrow> fd_cmd \<Rightarrow> u32 \<Rightarrow> 'k \<Rightarrow> (bool \<times> 'k) option" where
  "set_flag fcntl get put flag k =
     (case retry_fcntl fcntl get 0 k of
        None \<Rightarrow> None
      | Some (Inl err, k1) \<Rightarrow> Some (False, k1)
      | Some (Inr flags, k1) \<Rightarrow>
          if word_of_int flags AND flag \<noteq> 0 then Some (True, k1)
          else (case retry_fcntl fcntl put (word_of_int flags OR flag) k1 of
                  None \<Rightarrow> None
                | Some (r, k2) \<Rightarrow> Some (r = Inr 0, k2)))"

definition O_NONBLOCK :: u32 where "O_NONBLOCK = push_bit 11 1"

definition FD_CLOEXEC :: u32 where "FD_CLOEXEC = push_bit 0 1"

definition set_nonblocking :: "'k fcntl \<Rightarrow> 'k \<Rightarrow> (bool \<times> 'k) option" where
  "set_nonblocking fcntl = set_flag fcntl F_GETFL F_SETFL O_NONBLOCK"

definition set_cloexec :: "'k fcntl \<Rightarrow> 'k \<Rightarrow> (bool \<times> 'k) option" where
  "set_cloexec fcntl = set_flag fcntl F_GETFD F_SETFD FD_CLOEXEC"

text \<open>
  What the calls rely on: one command reads a word of flags and leaves it, another replaces it or
  fails and leaves it, and a call is interrupted only finitely often (\<open>intr\<close> bounds how often).
\<close>

definition flag_calls :: "'k fcntl \<Rightarrow> fd_cmd \<Rightarrow> fd_cmd \<Rightarrow> ('k \<Rightarrow> u32) \<Rightarrow> ('k \<Rightarrow> nat) \<Rightarrow> bool" where
  "flag_calls fcntl get put flags intr \<longleftrightarrow>
     (\<forall>k arg r k1. fcntl get arg k = (r, k1) \<longrightarrow> flags k1 = flags k \<and> (r = Inl EINTR \<longrightarrow> intr k1 < intr k) \<and>
        (\<forall>v. r = Inr v \<longrightarrow> word_of_int v = flags k)) \<and>
     (\<forall>k arg r k1. fcntl put arg k = (r, k1) \<longrightarrow> (r = Inl EINTR \<longrightarrow> intr k1 < intr k) \<and>
        flags k1 = (if r = Inr 0 then arg else flags k))"

lemma retry_fcntl_get:
  assumes "flag_calls fcntl get put flags intr"
  obtains r k1 where "retry_fcntl fcntl get arg k = Some (r, k1)" "flags k1 = flags k" "\<forall>v. r = Inr v \<longrightarrow> word_of_int v = flags k"
proof -
  have "\<exists>r k1. retry_fcntl fcntl get arg k = Some (r, k1) \<and> flags k1 = flags k \<and> (\<forall>v. r = Inr v \<longrightarrow> word_of_int v = flags k)"
  proof (induction "intr k" arbitrary: k rule: less_induct)
    case less
    obtain r k1 where c: "fcntl get arg k = (r, k1)" by fastforce
    have l: "flags k1 = flags k" "r = Inl EINTR \<Longrightarrow> intr k1 < intr k" "\<forall>v. r = Inr v \<longrightarrow> word_of_int v = flags k"
      using assms c unfolding flag_calls_def by blast+
    show ?case
    proof (cases "r = Inl EINTR")
      case True
      then show ?thesis using less [OF l(2) [OF True]] l(1) c by (subst retry_fcntl.simps) simp
    next
      case False
      then have "retry_fcntl fcntl get arg k = Some (r, k1)" using c by (subst retry_fcntl.simps) (auto split: sum.splits)
      then show ?thesis using l(1,3) by blast
    qed
  qed
  then show thesis using that by blast
qed

lemma retry_fcntl_set:
  assumes "flag_calls fcntl get put flags intr"
  obtains r k1 where "retry_fcntl fcntl put arg k = Some (r, k1)" "flags k1 = (if r = Inr 0 then arg else flags k)"
proof -
  have "\<exists>r k1. retry_fcntl fcntl put arg k = Some (r, k1) \<and> flags k1 = (if r = Inr 0 then arg else flags k)"
  proof (induction "intr k" arbitrary: k rule: less_induct)
    case less
    obtain r k1 where c: "fcntl put arg k = (r, k1)" by fastforce
    have l: "flags k1 = (if r = Inr 0 then arg else flags k)" "r = Inl EINTR \<Longrightarrow> intr k1 < intr k"
      using assms c unfolding flag_calls_def by blast+
    show ?case
    proof (cases "r = Inl EINTR")
      case True
      then have "retry_fcntl fcntl put arg k = retry_fcntl fcntl put arg k1" using c by (subst retry_fcntl.simps) simp
      moreover have "flags k1 = flags k" using l(1) True by simp
      ultimately show ?thesis using less [OF l(2) [OF True]] by metis
    next
      case False
      then have "retry_fcntl fcntl put arg k = Some (r, k1)" using c by (subst retry_fcntl.simps) (auto split: sum.splits)
      then show ?thesis using l(1) by blast
    qed
  qed
  then show thesis using that by blast
qed

lemma or_present_bit: "(w :: 'a::len word) AND push_bit n 1 \<noteq> 0 \<Longrightarrow> w OR push_bit n 1 = w"
  by (rule bit_word_eqI) (auto simp: bit_simps and_exp_eq_0_iff_not_bit push_bit_eq_mult)

text \<open>
  Setting a flag returns; on success exactly that bit was added to the flags and on failure they
  are unchanged, however often the calls were interrupted.
\<close>

lemma set_flag_adds_bit:
  assumes law: "flag_calls fcntl get put flags intr" and flag: "flag = push_bit n 1"
  shows "\<exists>b k1. set_flag fcntl get put flag k = Some (b, k1) \<and> flags k1 = (if b then flags k OR flag else flags k)"
proof -
  obtain r k1 where g: "retry_fcntl fcntl get 0 k = Some (r, k1)" "flags k1 = flags k" "\<forall>v. r = Inr v \<longrightarrow> word_of_int v = flags k"
    by (rule retry_fcntl_get [OF law])
  show ?thesis
  proof (cases r)
    case (Inl err)
    then show ?thesis using g by (intro exI [of _ False] exI [of _ k1]) (simp add: set_flag_def)
  next
    case (Inr v)
    then have v: "word_of_int v = flags k" using g(3) by simp
    obtain r2 k2 where s: "retry_fcntl fcntl put (flags k OR flag) k1 = Some (r2, k2)" "flags k2 = (if r2 = Inr 0 then flags k OR flag else flags k1)"
      by (rule retry_fcntl_set [OF law])
    show ?thesis
    proof (cases "flags k AND flag = 0")
      case True
      then show ?thesis using g Inr v s by (auto simp: set_flag_def)
    next
      case False
      then show ?thesis
        using g Inr v or_present_bit [of "flags k" n] by (intro exI [of _ True] exI [of _ k1]) (simp add: set_flag_def flag)
    qed
  qed
qed

lemma descriptor_flags_added:
  "flag_calls fcntl F_GETFL F_SETFL flags intr \<Longrightarrow>
     \<exists>b k1. set_nonblocking fcntl k = Some (b, k1) \<and> flags k1 = (if b then flags k OR O_NONBLOCK else flags k)"
  "flag_calls fcntl F_GETFD F_SETFD flags intr \<Longrightarrow>
     \<exists>b k1. set_cloexec fcntl k = Some (b, k1) \<and> flags k1 = (if b then flags k OR FD_CLOEXEC else flags k)"
  unfolding set_nonblocking_def set_cloexec_def O_NONBLOCK_def FD_CLOEXEC_def by (rule set_flag_adds_bit, assumption, rule refl)+

text \<open>A descriptor whose calls are interrupted a given number of times keeps to the law.\<close>

definition kernel_ex :: "(nat \<times> u32) fcntl" where
  "kernel_ex cmd arg k =
     (if fst k > 0 then (Inl EINTR, (fst k - 1, snd k))
      else if cmd = F_GETFL \<or> cmd = F_GETFD then (Inr (uint (snd k)), k) else (Inr 0, (0, arg)))"

lemma kernel_ex_law: "flag_calls kernel_ex F_GETFL F_SETFL snd fst"
  by (auto simp: flag_calls_def kernel_ex_def split: if_splits)

section \<open>Draining an event descriptor\<close>

partial_function (option) drain_eventfd :: "('k \<Rightarrow> (int + int) \<times> 'k) \<Rightarrow> 'k \<Rightarrow> 'k option" where
  "drain_eventfd read k =
     (case read k of
        (Inr n, k1) \<Rightarrow> if n > 0 then drain_eventfd read k1 else Some k1
      | (Inl err, k1) \<Rightarrow> if err = EINTR then drain_eventfd read k1 else Some k1)"

text \<open>
  A non-blocking event descriptor gives its counter and resets it, or fails when the counter is
  zero; a read is interrupted only finitely often. The loop then ends with the counter at zero.
\<close>

lemma drain_eventfd_empties:
  assumes "\<forall>k r k1. read k = (r, k1) \<longrightarrow>
     (case r of Inr n \<Rightarrow> n > 0 \<and> cnt k > 0 \<and> cnt k1 = 0 \<and> intr k1 \<le> intr k
      | Inl err \<Rightarrow> cnt k1 = cnt k \<and> (if err = EINTR then intr k1 < (intr k :: nat) else cnt k = (0 :: nat)))"
  shows "\<exists>k1. drain_eventfd read k = Some k1 \<and> cnt k1 = 0"
proof (induction "intr k + cnt k" arbitrary: k rule: less_induct)
  case less
  obtain r k1 where c: "read k = (r, k1)" by fastforce
  note law = assms [rule_format, OF c]
  show ?case
  proof (cases r)
    case (Inr n)
    then have l: "n > 0" "intr k1 + cnt k1 < intr k + cnt k" using law by simp_all
    show ?thesis using less [OF l(2)] c Inr l(1) by (subst drain_eventfd.simps) simp
  next
    case (Inl err)
    show ?thesis
    proof (cases "err = EINTR")
      case True
      then have "intr k1 + cnt k1 < intr k + cnt k" using law Inl by simp
      from less [OF this] show ?thesis using c Inl True by (subst drain_eventfd.simps) simp
    next
      case False
      then show ?thesis using law c Inl by (subst drain_eventfd.simps) simp
    qed
  qed
qed

section \<open>Socket options\<close>

text \<open>
  An option has a level, a name and a value, a C \<open>int\<close> or a structure; its bytes are what the
  kernel sees. \<open>setsockopt\<close> and \<open>getsockopt\<close> are parameters, with the error number on the left.
\<close>

record 'v sock_option =
  so_level :: int
  so_name :: int
  so_value :: 'v

definition option_set_value :: "'v \<Rightarrow> 'v sock_option \<Rightarrow> 'v sock_option" where
  "option_set_value v opt = opt\<lparr>so_value := v\<rparr>"

definition boolean_option :: "int \<Rightarrow> int \<Rightarrow> bool \<Rightarrow> u32 sock_option" where
  "boolean_option level name on = \<lparr>so_level = level, so_name = name, so_value = (if on then 1 else 0)\<rparr>"

definition option_enabled :: "u32 sock_option \<Rightarrow> bool" where
  "option_enabled opt \<longleftrightarrow> so_value opt \<noteq> 0"

definition option_enable :: "bool \<Rightarrow> u32 sock_option \<Rightarrow> u32 sock_option" where
  "option_enable on opt = option_set_value (if on then 1 else 0) opt"

type_synonym ('v, 'k) setsockopt = "int \<Rightarrow> int \<Rightarrow> int \<Rightarrow> 'v \<Rightarrow> 'k \<Rightarrow> (int + unit) \<times> 'k"
type_synonym ('v, 'k) getsockopt = "int \<Rightarrow> int \<Rightarrow> int \<Rightarrow> 'k \<Rightarrow> int + 'v"

definition set_option :: "('v, 'k) setsockopt \<Rightarrow> int \<Rightarrow> 'v sock_option \<Rightarrow> 'k \<Rightarrow> unit result \<times> 'k" where
  "set_option setsockopt fd opt k =
     (if fd < 0 then (fail_with not_open, k)
      else (case setsockopt fd (so_level opt) (so_name opt) (so_value opt) k of
              (Inl errno, k1) \<Rightarrow> (fail (generic_error errno), k1)
            | (Inr _, k1) \<Rightarrow> (ok, k1)))"

definition get_option :: "('v, 'k) getsockopt \<Rightarrow> int \<Rightarrow> 'v sock_option \<Rightarrow> 'k \<Rightarrow> unit result \<times> 'v sock_option" where
  "get_option getsockopt fd opt k =
     (if fd < 0 then (fail_with not_open, opt)
      else (case getsockopt fd (so_level opt) (so_name opt) k of
              Inl errno \<Rightarrow> (fail (generic_error errno), opt)
            | Inr v \<Rightarrow> (ok, opt\<lparr>so_value := v\<rparr>)))"

text \<open>
  A boolean option that was set is read back as set, when the kernel keeps the options it accepts
  as non-zero or zero; a failed call leaves the option object as it was.
\<close>

lemma boolean_option_roundtrip:
  assumes kept: "\<And>v k k1. setsockopt fd level name v k = (Inr (), k1) \<Longrightarrow>
      \<exists>w. getsockopt fd level name k1 = Inr w \<and> ((w :: u32) \<noteq> 0 \<longleftrightarrow> v \<noteq> 0)"
    and set: "set_option setsockopt fd (boolean_option level name on) k = (ok, k1)"
  shows "fst (get_option getsockopt fd (boolean_option level name other) k1) = ok \<and>
    option_enabled (snd (get_option getsockopt fd (boolean_option level name other) k1)) = on"
proof -
  have fd: "\<not> fd < 0" using set by (auto simp: set_option_def fail_def ok_def split: if_splits)
  then have "setsockopt fd level name (if on then 1 else 0) k = (Inr (), k1)"
    using set by (auto simp: set_option_def boolean_option_def fail_def ok_def split: prod.splits sum.splits)
  from kept [OF this] obtain w where "getsockopt fd level name k1 = Inr w" "w \<noteq> 0 \<longleftrightarrow> on" by (cases on) auto
  then show ?thesis using fd by (simp add: get_option_def boolean_option_def option_enabled_def)
qed

lemma get_option_failed: "fst (get_option getsockopt fd opt k) \<noteq> ok \<Longrightarrow> snd (get_option getsockopt fd opt k) = opt"
  by (auto simp: get_option_def split: sum.splits)

lemma option_enable_enabled: "option_enabled (option_enable on opt) = on" "option_enabled (boolean_option level name on) = on"
  by (simp_all add: option_enable_def option_set_value_def option_enabled_def boolean_option_def)

section \<open>Reactor operations\<close>

text \<open>
  \<open>make_reactor_op\<close> allocates a block with the state of the operation and the erased object that
  points to it; the deleter of \<open>reactor_op_ptr\<close> destroys the block through the vtable and deletes
  the object. \<open>None\<close> stands for touching memory that is not allocated. The two callbacks of a
  state are parameters.
\<close>

record 'a op_heap =
  oh_blocks :: "nat \<rightharpoonup> 'a"
  oh_ops :: "nat \<rightharpoonup> nat"
  oh_next :: nat

definition make_reactor_op :: "'a \<Rightarrow> 'a op_heap \<Rightarrow> nat \<times> 'a op_heap" where
  "make_reactor_op st h =
     (let block = oh_next h; op = Suc block
      in (op, h\<lparr>oh_blocks := (oh_blocks h)(block \<mapsto> st), oh_ops := (oh_ops h)(op \<mapsto> block), oh_next := Suc op\<rparr>))"

definition reactor_destroy :: "nat \<Rightarrow> 'a op_heap \<Rightarrow> 'a op_heap option" where
  "reactor_destroy block h =
     (case oh_blocks h block of None \<Rightarrow> None | Some _ \<Rightarrow> Some (h\<lparr>oh_blocks := (oh_blocks h)(block := None)\<rparr>))"

definition reactor_op_deleter :: "nat option \<Rightarrow> 'a op_heap \<Rightarrow> 'a op_heap option" where
  "reactor_op_deleter p h =
     (case p of
        None \<Rightarrow> Some h
      | Some op \<Rightarrow>
          (case oh_ops h op of
             None \<Rightarrow> None
           | Some block \<Rightarrow> map_option (\<lambda>h1. h1\<lparr>oh_ops := (oh_ops h1)(op := None)\<rparr>) (reactor_destroy block h)))"

definition reactor_call :: "('a \<Rightarrow> 'a) \<Rightarrow> nat \<Rightarrow> 'a op_heap \<Rightarrow> 'a op_heap option" where
  "reactor_call callback op h =
     (case oh_ops h op of
        None \<Rightarrow> None
      | Some block \<Rightarrow>
          (case oh_blocks h block of None \<Rightarrow> None | Some st \<Rightarrow> Some (h\<lparr>oh_blocks := (oh_blocks h)(block \<mapsto> callback st)\<rparr>)))"

text \<open>Objects of the heap: every operation has a live block of its own, older than itself.\<close>

definition op_heap_ok :: "'a op_heap \<Rightarrow> bool" where
  "op_heap_ok h \<longleftrightarrow>
     (\<forall>b. oh_blocks h b \<noteq> None \<longleftrightarrow> (\<exists>op. oh_ops h op = Some b)) \<and>
     (\<forall>x y b. oh_ops h x = Some b \<and> oh_ops h y = Some b \<longrightarrow> x = y) \<and>
     (\<forall>op b. oh_ops h op = Some b \<longrightarrow> op < oh_next h \<and> b < oh_next h)"

lemma op_heap_okD:
  assumes "op_heap_ok h"
  shows "oh_blocks h b \<noteq> None \<longleftrightarrow> (\<exists>op. oh_ops h op = Some b)"
    "oh_ops h x = Some b \<Longrightarrow> oh_ops h y = Some b \<Longrightarrow> x = y" "oh_ops h op = Some b \<Longrightarrow> op < oh_next h \<and> b < oh_next h"
  using assms unfolding op_heap_ok_def by blast+

lemma make_reactor_op_ok:
  assumes "op_heap_ok h" "make_reactor_op st h = (op, h1)"
  shows "op_heap_ok h1 \<and> oh_ops h op = None \<and> (\<exists>b. oh_ops h1 op = Some b \<and> oh_blocks h b = None \<and> oh_blocks h1 b = Some st)"
proof -
  note D = op_heap_okD [OF assms(1)]
  define b where "b = oh_next h"
  have e: "op = Suc b" "h1 = h\<lparr>oh_blocks := (oh_blocks h)(b \<mapsto> st), oh_ops := (oh_ops h)(op \<mapsto> b), oh_next := Suc op\<rparr>"
    using assms(2) by (auto simp: make_reactor_op_def Let_def b_def)
  have new: "oh_ops h op = None" "oh_blocks h b = None" "\<And>x. oh_ops h x \<noteq> Some b"
    using D(3) [of op] D(3) D(1) [of b] e(1) by (fastforce simp: b_def)+
  have ops: "oh_ops h1 x = Some c \<longleftrightarrow> (x = op \<and> c = b) \<or> oh_ops h x = Some c" for x c using new(1) by (auto simp: e(2))
  have "op_heap_ok h1"
    unfolding op_heap_ok_def ops
  proof (intro conjI allI impI)
    show "oh_blocks h1 c \<noteq> None \<longleftrightarrow> (\<exists>x. x = op \<and> c = b \<or> oh_ops h x = Some c)" for c
      using D(1) [of c] new(2) by (auto simp: e(2))
    show "x = y" if "(x = op \<and> c = b \<or> oh_ops h x = Some c) \<and> (y = op \<and> c = b \<or> oh_ops h y = Some c)" for x y c
      using that D(2) [of x c y] new(3) by blast
    show "x < oh_next h1" "c < oh_next h1" if "x = op \<and> c = b \<or> oh_ops h x = Some c" for x c
      using that D(3) [of x c] e(1) by (auto simp: e(2) b_def)
  qed
  then show ?thesis using new by (simp add: e(2))
qed

text \<open>
  The owner of an operation can call it and delete it; deleting frees the block and the object,
  and leaves every other operation as it was.
\<close>

lemma reactor_op_owned:
  assumes ok: "op_heap_ok h" and op: "oh_ops h op = Some b"
  shows "reactor_call f op h \<noteq> None"
    "\<exists>h1. reactor_op_deleter (Some op) h = Some h1 \<and> op_heap_ok h1 \<and> oh_ops h1 op = None \<and> oh_blocks h1 b = None \<and>
       (\<forall>x c. x \<noteq> op \<and> oh_ops h x = Some c \<longrightarrow> oh_ops h1 x = Some c \<and> oh_blocks h1 c = oh_blocks h c)"
proof -
  note D = op_heap_okD [OF ok]
  obtain st where st: "oh_blocks h b = Some st" using D(1) [of b] op by auto
  show "reactor_call f op h \<noteq> None" using op st by (simp add: reactor_call_def)
  define h1 where "h1 = h\<lparr>oh_blocks := (oh_blocks h)(b := None), oh_ops := (oh_ops h)(op := None)\<rparr>"
  have ops: "oh_ops h1 x = Some c \<longleftrightarrow> x \<noteq> op \<and> oh_ops h x = Some c" for x c by (simp add: h1_def)
  have "op_heap_ok h1"
    unfolding op_heap_ok_def ops
  proof (intro conjI allI impI)
    show "oh_blocks h1 c \<noteq> None \<longleftrightarrow> (\<exists>x. x \<noteq> op \<and> oh_ops h x = Some c)" for c
    proof (cases "c = b")
      case True
      have "\<not> (\<exists>x. x \<noteq> op \<and> oh_ops h x = Some b)" using D(2) [OF _ op] by blast
      then show ?thesis using True by (simp add: h1_def)
    next
      case False
      then show ?thesis using D(1) [of c] op by (simp add: h1_def) (metis option.inject)
    qed
    show "x = y" if "(x \<noteq> op \<and> oh_ops h x = Some c) \<and> y \<noteq> op \<and> oh_ops h y = Some c" for x y c
      using that D(2) [of x c y] by blast
    show "x < oh_next h1" "c < oh_next h1" if "x \<noteq> op \<and> oh_ops h x = Some c" for x c
      using that D(3) [of x c] by (simp_all add: h1_def)
  qed
  moreover have "reactor_op_deleter (Some op) h = Some h1" using op st by (simp add: reactor_op_deleter_def reactor_destroy_def h1_def)
  moreover have "c \<noteq> b" if "x \<noteq> op" "oh_ops h x = Some c" for x c using D(2) [of x c op] that op by auto
  ultimately show "\<exists>h1. reactor_op_deleter (Some op) h = Some h1 \<and> op_heap_ok h1 \<and> oh_ops h1 op = None \<and> oh_blocks h1 b = None \<and>
       (\<forall>x c. x \<noteq> op \<and> oh_ops h x = Some c \<longrightarrow> oh_ops h1 x = Some c \<and> oh_blocks h1 c = oh_blocks h c)"
    by (intro exI [of _ h1]) (simp add: h1_def, blast)
qed

end
