(* ===== verification/Spec2Isabelle.thy ===== *)
theory Spec2Isabelle
  imports EventLoop Strand ThreadPool ConditionEvent StreamIo Expected Buffers UringBackend Facade Resolver When ErasedStorage
    SteadyTimer Coroutine Spawn Starting ExecutorThreads WorkGuard RemoveSync AwaiterFrame Utilities
begin

text \<open>
  A verification of iocoro, a C++20 library of coroutines over a reactor. File names are relative
  to \<open>src/include/iocoro\<close>.

  \<^bold>\<open>The program and its parts.\<close> An \<open>io_context\<close> owns a reactor: a backend (epoll or io_uring), a
  registry of descriptors, a registry of timers and a queue of posted callables. A coroutine that
  awaits an operation leaves it in a registry and is posted to its executor when the operation is
  called back. Sockets share a descriptor among their operations and turn readiness into system
  calls; acceptors, stream and datagram sockets are built on that base, the stream algorithms on
  streams. Executors (the context, a thread pool, a strand) run what is posted to them; coroutines
  pass control among themselves and through executors, and combinators wait for several at once.

  \<^bold>\<open>Reactor.\<close>
  \<^item> \<open>StdHeap\<close>, \<open>TimerRegistry\<close> (\<open>detail/timer_registry.hpp\<close>): the standard library's heap and the
    timers over it. Due timers fire once each, in the order of expiry; a stale handle never cancels
    another timer; the computed timeout never oversleeps.
  \<^item> \<open>FdRegistry\<close> (\<open>detail/fd_registry.hpp\<close>): operations are conserved, readiness is latched, stale
    tokens are harmless.
  \<^item> \<open>PostedQueue\<close>, \<open>WakeProtocol\<close> (\<open>detail/posted_queue.hpp\<close>, \<open>detail/wake_state.hpp\<close>): the queue with its
    exception path; the protocol that wakes the reactor, with the schedule in which a post is missed.
  \<^item> \<open>EpollBackend\<close>, \<open>UringBackend\<close> (\<open>impl/backends\<close>): registration, waiting and generations; the
    kernel's answers are arguments.
  \<^item> \<open>IoContext\<close>, \<open>IoContextInv\<close>, \<open>EventLoop\<close> (\<open>detail/io_context_impl.hpp\<close>, \<open>impl/io_context_impl.ipp\<close>,
    \<open>detail/operation_awaiter.hpp\<close>): the composition of all these. Every operation completes exactly
    once and resumes its coroutine once, also when the backend fails; the loops end as they should.
  \<^item> \<open>RemoveSync\<close> (\<open>remove_fd_sync\<close> in \<open>impl/io_context_impl.ipp\<close>): a thread waiting for the loop to remove a
    descriptor; it is removed once, and where the wait can go wrong.
  \<^item> \<open>AwaiterFrame\<close> (the end of \<open>await_suspend\<close> in \<open>detail/operation_awaiter.hpp\<close>): when the frame of the
    coroutine is still there.

  \<^bold>\<open>Sockets.\<close>
  \<^item> \<open>SocketBase\<close> (\<open>detail/socket/fd_resource.hpp\<close>, \<open>socket_impl_base\<close>): the shared descriptor, with any
    number of threads; closing reaches every wait, and a descriptor ends once.
  \<^item> \<open>StreamSocket\<close> (\<open>detail/socket/op_state.hpp\<close>, \<open>stream_socket_impl\<close>): runs on top of the steps of
    \<open>SocketBase\<close>. System calls are made only on an open descriptor; one operation of a kind at a time.
  \<^item> \<open>Acceptor\<close>, \<open>Datagram\<close>: the same for accepting and for datagrams; no accepted descriptor is lost, and
    a connected datagram socket sends to its peer only.
  \<^item> \<open>Endpoints\<close> (\<open>ip\<close>, \<open>local/endpoint.hpp\<close>): addresses as bytes; well-formedness, parsing and printing.
  \<^item> \<open>Facade\<close> (\<open>net\<close>), \<open>Resolver\<close> (\<open>ip/resolver.hpp\<close>): opening on first use with a family that stays fixed; a
    resolution is delivered once.
  \<^item> \<open>StreamIo\<close>, \<open>Buffers\<close> (\<open>io\<close>, \<open>net/buffer.hpp\<close>): whole reads and writes, reading to a delimiter against a
    reference, buffers inside their containers.

  \<^bold>\<open>Coroutines and executors.\<close>
  \<^item> \<open>Coroutine\<close> (\<open>detail/awaitable_promise.hpp\<close>, \<open>awaitable.hpp\<close>): a coroutine that has begun is in exactly
    one place; a stop request reaches exactly what it should.
  \<^item> \<open>Spawn\<close> (\<open>detail/spawn.hpp\<close>), \<open>When\<close> (\<open>when_all.hpp\<close>, \<open>when_any.hpp\<close>, \<open>with_timeout.hpp\<close>): results are
    delivered once, in every interleaving.
  \<^item> \<open>Starting\<close> (\<open>detail/spawn.hpp\<close>, \<open>co_spawn.hpp\<close>, \<open>when_all.hpp\<close>, \<open>when_any.hpp\<close>): starting coroutines, as steps of
    \<open>Coroutine\<close>; every task of \<open>when_all\<close> is started once, on the right executor and under the caller's stop token.
  \<^item> \<open>Executors\<close>, \<open>ExecutorThreads\<close> (\<open>any_executor.hpp\<close>, \<open>any_io_executor.hpp\<close>, \<open>traits/executor_traits.hpp\<close>,
    \<open>detail/executor_guard.hpp\<close> and the executors of \<open>io_context.hpp\<close>, \<open>thread_pool.hpp\<close>, \<open>strand.hpp\<close>): which executors lead
    to a context, and that a callable runs with its executor as the current one, on a thread of the context or pool
    below, through any nesting of strands, dispatches, loops and exceptions.
  \<^item> \<open>WorkGuard\<close> (\<open>work_guard.hpp\<close>): the counter is the number of guards that own work.
  \<^item> \<open>Strand\<close>, \<open>ThreadPool\<close>, \<open>ConditionEvent\<close>, \<open>SteadyTimer\<close>: first-in first-out order, no stranded task or
    waiter, no wait out of the reach of a cancel.
  \<^item> \<open>ErasedStorage\<close> (\<open>detail/unique_function.hpp\<close>, \<open>detail/any_executor_storage.hpp\<close>): refines a map of values,
    so that no object leaks or is destroyed twice.

  \<^bold>\<open>Shared.\<close> \<open>Prelude\<close> has the multisets of owned objects, reachability and the locales
  \<open>inductive_invariant\<close> and \<open>labelled_steps\<close>, which every step relation interprets; \<open>Errors\<close> and \<open>ReactorTypes\<close> have
  the error codes and the handles; \<open>Expected\<close> has the library's \<open>expected\<close>; \<open>Utilities\<close> has scope guards, descriptor flags,
  socket options and the memory of reactor operations.

  \<^bold>\<open>How the code is modelled.\<close> Objects are records. Code used by several threads is a step relation:
  what happens under a mutex or in one atomic operation is a step, and so is every part of a
  coroutine between two points where another thread can act. Failing checks of the source are \<open>None\<close>
  or a result of their own. System calls, the clock, \<open>inet_pton\<close>, \<open>inet_ntop\<close> and \<open>getaddrinfo\<close>, the stream of the
  stream algorithms and which types fit inline are parameters.

  \<^bold>\<open>Loops.\<close> The loops of the context run on fuel, one unit for a turn; \<open>run_for\<close> is shown to return when the
  fuel covers the turns until the clock passes the deadline. The loops of \<open>async_accept\<close>, \<open>async_send_to\<close> and
  \<open>async_receive_from\<close> run over a list of kernel answers and are shown to return as soon as the list has
  an answer that is not a retry. Retried system calls may loop for ever and are shown to return when they are
  interrupted finitely often. The propagation of a stop request ends by its own measure.

  \<^bold>\<open>What the models showed.\<close> Each has a lemma with the schedule or input: the lost wake-up of \<open>run\<close>
  (\<open>lost_wakeup_reachable\<close>), stale events after an interrupted \<open>epoll_wait\<close>
  (\<open>epoll_wait_interrupted_keeps_events\<close>), two tasks of a strand at once (\<open>strand_runs_two_tasks_at_once\<close>), a \<open>join\<close> that
  hangs (\<open>pool_join_hang_reachable\<close>), a dropped notification (\<open>condition_notification_lost\<close>), truncated io_uring
  generations (\<open>uring_generation_truncated\<close>) and reordered updates (\<open>uring_add_remove_reordered\<close>), a cancel that
  misses a registration (\<open>cancel_misses_registration\<close>), a closed socket that reports to be connected
  (\<open>close_during_connect\<close>), \<open>when_any\<close> going on before its result is stored (\<open>when_any_reads_early\<close>), a timer
  registered with a replaced expiry (\<open>timer_stale_expiry\<close>), a continuation on a foreign executor
  (\<open>continuation_on_foreign_executor\<close>), a resolver's awaiter used after its end (\<open>resolver_use_after_free\<close>), an operation's awaiter used after its end
  (\<open>await_frame_use_after_free\<close>), a \<open>remove_fd_sync\<close> that sleeps for ever (\<open>sync_lost_wakeup\<close>) or races with a new \<open>run\<close>
  (\<open>sync_restart_races\<close>), and addresses with an embedded NUL (\<open>v4_from_string_nul\<close>).

  \<^bold>\<open>Not modelled.\<close> The members of the facades that only forward; the macros that abort the process, which appear
  as failing results; concepts and other compile-time selection; the handler a pool calls with the exception of a task;
  the memory order of atomics, all taken as sequentially consistent; moved-from values; the destruction of a
  coroutine that is still suspended; executors a user defines.
\<close>

end
